(* ===== verification/Prelude.thy ===== *)
theory Prelude
  imports Main "HOL-Library.Word" "HOL-Library.List_Lexorder" "HOL-Library.AList"
begin

text \<open>
  Shared ground of the development: Python strings as sequences of code points, Python
  exceptions as values, a result type and a state-and-exception action type with a small
  calculus of total-correctness triples (\<open>runs\<close>), Python dictionaries as association lists in
  insertion order, and the string functions the sources use (\<open>startswith\<close>, \<open>split\<close>, \<open>join\<close>,
  \<open>rpartition\<close>, \<open>str\<close> and \<open>int\<close> of integers).
\<close>

named_theorems act_simps \<open>evaluation of the action combinators\<close>
named_theorems wp \<open>introduction rules for total-correctness triples\<close>

section \<open>Strings, bytes, exceptions\<close>

text \<open>A Python \<open>str\<close> is a sequence of Unicode code points, compared lexicographically.\<close>

type_synonym pystr = "nat list"
type_synonym bytes = "8 word list"

text \<open>Text that has a UTF-8 encoding: Unicode scalar values only, no surrogates.\<close>

definition scalar :: "nat \<Rightarrow> bool" where
  "scalar c \<longleftrightarrow> c < 55296 \<or> (57344 \<le> c \<and> c \<le> 1114111)"

definition is_text :: "pystr \<Rightarrow> bool" where
  "is_text s \<longleftrightarrow> (\<forall>c \<in> set s. scalar c)"

lemma is_text_simps [simp]:
  "is_text []" "is_text (c # s) \<longleftrightarrow> scalar c \<and> is_text s"
  "is_text (s @ t) \<longleftrightarrow> is_text s \<and> is_text t"
  by (auto simp: is_text_def)

lemma is_text_ascii: "(\<And>c. c \<in> set s \<Longrightarrow> 0 < c \<and> c < 128) \<Longrightarrow> is_text s"
  unfolding is_text_def scalar_def by force

text \<open>String literals of the source.\<close>

definition lit :: "string \<Rightarrow> pystr" where
  "lit s = map of_char s"

lemma lit_simps [simp]: "lit [] = []" "lit (c # cs) = of_char c # lit cs"
  by (simp_all add: lit_def)

text \<open>
  The exceptions the sources raise (with the message, where two raises differ by it only).
  \<open>Diverged\<close> is not one of them: it is the outcome of a loop that has used up its fuel.
\<close>

datatype exc = KeyError | TypeError | IndexError | AttributeError | RuntimeError
  | UnicodeError | StructError | IntegrityError | OSError | DataError | Diverged | ValueError string

section \<open>Results\<close>

definition bindE :: "exc + 'a \<Rightarrow> ('a \<Rightarrow> exc + 'b) \<Rightarrow> exc + 'b" where
  "bindE r f = (case r of Inl e \<Rightarrow> Inl e | Inr x \<Rightarrow> f x)"

lemma bindE_simps [simp]: "bindE (Inl e) f = Inl e" "bindE (Inr x) f = f x"
  by (simp_all add: bindE_def)

lemma bindE_eq_Inr: "bindE r f = Inr y \<longleftrightarrow> (\<exists>x. r = Inr x \<and> f x = Inr y)"
  by (cases r) auto

lemma bindE_cong [fundef_cong]:
  "r = r' \<Longrightarrow> (\<And>x. r' = Inr x \<Longrightarrow> f x = g x) \<Longrightarrow> bindE r f = bindE r' g"
  by (cases r') auto

fun mapE :: "('a \<Rightarrow> exc + 'b) \<Rightarrow> 'a list \<Rightarrow> exc + 'b list" where
  "mapE f [] = Inr []"
| "mapE f (x # xs) = bindE (f x) (\<lambda>y. bindE (mapE f xs) (\<lambda>ys. Inr (y # ys)))"

lemma mapE_Inr_map: "(\<And>x. x \<in> set xs \<Longrightarrow> f x = Inr (g x)) \<Longrightarrow> mapE f xs = Inr (map g xs)"
  by (induction xs) auto

lemma mapE_length: "mapE f xs = Inr ys \<Longrightarrow> length ys = length xs"
  by (induction xs arbitrary: ys) (auto simp: bindE_eq_Inr)

lemma mapE_nth: "mapE f xs = Inr ys \<Longrightarrow> i < length xs \<Longrightarrow> f (xs ! i) = Inr (ys ! i)"
proof (induction xs arbitrary: ys i)
  case (Cons x xs)
  then show ?case by (cases i) (auto simp: bindE_eq_Inr)
qed simp

lemma mapE_set: "mapE f xs = Inr ys \<Longrightarrow> x \<in> set xs \<Longrightarrow> \<exists>y \<in> set ys. f x = Inr y"
  by (induction xs arbitrary: ys) (auto simp: bindE_eq_Inr)

lemma mapE_fails: "(\<exists>e. mapE f xs = Inl e) \<longleftrightarrow> (\<exists>x \<in> set xs. \<exists>e. f x = Inl e)"
proof (induction xs)
  case (Cons x xs)
  then show ?case by (cases "f x"; cases "mapE f xs") auto
qed simp

section \<open>Actions: state and exceptions\<close>

text \<open>
  A method that mutates its object and may raise: it returns the outcome together with the state
  reached, so that effects that precede a raise are kept, as in Python.
\<close>

type_synonym ('s, 'a) act = "'s \<Rightarrow> (exc + 'a) \<times> 's"

definition retA :: "'a \<Rightarrow> ('s, 'a) act" where
  "retA x = (\<lambda>s. (Inr x, s))"

definition raiseA :: "exc \<Rightarrow> ('s, 'a) act" where
  "raiseA e = (\<lambda>s. (Inl e, s))"

definition bindA :: "('s, 'a) act \<Rightarrow> ('a \<Rightarrow> ('s, 'b) act) \<Rightarrow> ('s, 'b) act" where
  "bindA m f = (\<lambda>s. case m s of (r, s') \<Rightarrow> (case r of Inl e \<Rightarrow> (Inl e, s') | Inr x \<Rightarrow> f x s'))"

definition thenA :: "('s, 'a) act \<Rightarrow> ('s, 'b) act \<Rightarrow> ('s, 'b) act" where
  "thenA m n = bindA m (\<lambda>_. n)"

definition liftE :: "exc + 'a \<Rightarrow> ('s, 'a) act" where
  "liftE r = (\<lambda>s. (r, s))"

definition askA :: "('s \<Rightarrow> 'a) \<Rightarrow> ('s, 'a) act" where
  "askA f = (\<lambda>s. (Inr (f s), s))"

definition updA :: "('s \<Rightarrow> 's) \<Rightarrow> ('s, unit) act" where
  "updA f = (\<lambda>s. (Inr (), f s))"

fun forA :: "('a \<Rightarrow> ('s, unit) act) \<Rightarrow> 'a list \<Rightarrow> ('s, unit) act" where
  "forA f [] = retA ()"
| "forA f (x # xs) = thenA (f x) (forA f xs)"

fun mapA :: "('a \<Rightarrow> ('s, 'b) act) \<Rightarrow> 'a list \<Rightarrow> ('s, 'b list) act" where
  "mapA f [] = retA []"
| "mapA f (x # xs) = bindA (f x) (\<lambda>y. bindA (mapA f xs) (\<lambda>ys. retA (y # ys)))"

lemma act_eval [act_simps]:
  "retA x s = (Inr x, s)"
  "raiseA e s = (Inl e, s)"
  "liftE r s = (r, s)"
  "askA f s = (Inr (f s), s)"
  "updA g s = (Inr (), g s)"
  "bindA m h s = (case m s of (r, s') \<Rightarrow> (case r of Inl e \<Rightarrow> (Inl e, s') | Inr x \<Rightarrow> h x s'))"
  "thenA m n s = (case m s of (r, s') \<Rightarrow> (case r of Inl e \<Rightarrow> (Inl e, s') | Inr x \<Rightarrow> n s'))"
  by (simp_all add: retA_def raiseA_def liftE_def askA_def updA_def bindA_def thenA_def)

text \<open>
  \<open>runs m s P\<close>: from \<open>s\<close> the action returns (it does not raise) and its result and final state
  satisfy \<open>P\<close>.
\<close>

definition runs :: "('s, 'a) act \<Rightarrow> 's \<Rightarrow> ('a \<Rightarrow> 's \<Rightarrow> bool) \<Rightarrow> bool" where
  "runs m s P \<longleftrightarrow> (\<exists>x s'. m s = (Inr x, s') \<and> P x s')"

lemma runs_simps [simp]:
  "runs (retA x) s P = P x s"
  "runs (raiseA e) s P = False"
  "runs (askA f) s P = P (f s) s"
  "runs (updA g) s P = P () (g s)"
  "runs (bindA m h) s P = runs m s (\<lambda>x s'. runs (h x) s' P)"
  "runs (thenA m n) s P = runs m s (\<lambda>x s'. runs n s' P)"
  by (auto simp: runs_def act_simps split: prod.splits sum.splits)

lemma runs_liftE [simp]: "runs (liftE r) s P \<longleftrightarrow> (\<exists>x. r = Inr x \<and> P x s)"
  by (auto simp: runs_def act_simps)

lemma runs_mono: "runs m s P \<Longrightarrow> (\<And>x s'. P x s' \<Longrightarrow> Q x s') \<Longrightarrow> runs m s Q"
  by (auto simp: runs_def)

lemma runsI: "m s = (Inr x, s') \<Longrightarrow> P x s' \<Longrightarrow> runs m s P"
  by (auto simp: runs_def)

lemma runsE: "runs m s P \<Longrightarrow> (\<And>x s'. m s = (Inr x, s') \<Longrightarrow> P x s' \<Longrightarrow> R) \<Longrightarrow> R"
  by (auto simp: runs_def)

lemma runs_if [wp]: "(b \<Longrightarrow> runs m s P) \<Longrightarrow> (\<not> b \<Longrightarrow> runs n s P) \<Longrightarrow> runs (if b then m else n) s P"
  by simp

text \<open>Loops: an invariant kept by every iteration, over the elements already visited.\<close>

lemma runs_forA_prefix:
  assumes "\<And>xs x ys s. zs = xs @ x # ys \<Longrightarrow> I xs s \<Longrightarrow> runs (f x) s (\<lambda>_. I (xs @ [x]))"
    and "I [] s"
  shows "runs (forA f zs) s (\<lambda>_. I zs)"
proof -
  have "runs (forA f ys) s (\<lambda>_. I zs)" if "zs = xs @ ys" "I xs s" for xs ys s
    using that
  proof (induction ys arbitrary: xs s)
    case (Cons y ys)
    have "runs (f y) s (\<lambda>_. I (xs @ [y]))" using assms(1) Cons.prems by blast
    then have "runs (f y) s (\<lambda>_ s'. runs (forA f ys) s' (\<lambda>_. I zs))"
      by (rule runs_mono) (rule Cons.IH, simp_all add: Cons.prems)
    then show ?case by simp
  qed simp
  from this [of "[]" zs s] assms(2) show ?thesis by simp
qed

lemma runs_forA:
  assumes "\<And>x s. x \<in> set xs \<Longrightarrow> I s \<Longrightarrow> runs (f x) s (\<lambda>_. I)" and "I s"
  shows "runs (forA f xs) s (\<lambda>_. I)"
  using assms
proof (induction xs arbitrary: s)
  case (Cons x xs)
  then have "runs (f x) s (\<lambda>_. I)" by simp
  then have "runs (f x) s (\<lambda>_ s'. runs (forA f xs) s' (\<lambda>_. I))"
    by (rule runs_mono) (rule Cons.IH, simp_all add: Cons.prems)
  then show ?case by simp
qed simp

definition the_default :: "'a \<Rightarrow> 'a option \<Rightarrow> 'a" where
  "the_default d r = (case r of None \<Rightarrow> d | Some x \<Rightarrow> x)"

lemma the_default_simps [simp]: "the_default d None = d" "the_default d (Some x) = x"
  by (simp_all add: the_default_def)

section \<open>Dictionaries\<close>

text \<open>
  A Python \<open>dict\<close> is an association list with distinct keys in insertion order: updating an
  existing key keeps its position (\<open>AList.update\<close>), a new key goes to the end.
\<close>

type_synonym ('k, 'v) dict = "('k \<times> 'v) list"

abbreviation dget :: "('k, 'v) dict \<Rightarrow> 'k \<Rightarrow> 'v option" where
  "dget \<equiv> map_of"

abbreviation dset :: "'k \<Rightarrow> 'v \<Rightarrow> ('k, 'v) dict \<Rightarrow> ('k, 'v) dict" where
  "dset \<equiv> AList.update"

abbreviation ddel :: "'k \<Rightarrow> ('k, 'v) dict \<Rightarrow> ('k, 'v) dict" where
  "ddel \<equiv> AList.delete"

abbreviation dkeys :: "('k, 'v) dict \<Rightarrow> 'k list" where
  "dkeys d \<equiv> map fst d"

definition dict_ok :: "('k, 'v) dict \<Rightarrow> bool" where
  "dict_ok d \<longleftrightarrow> distinct (dkeys d)"

lemma dict_ok_Nil [simp]: "dict_ok []"
  by (simp add: dict_ok_def)

lemma dict_ok_dset [simp]: "dict_ok d \<Longrightarrow> dict_ok (dset k v d)"
  by (simp add: dict_ok_def distinct_update)

lemma dict_ok_ddel [simp]: "dict_ok d \<Longrightarrow> dict_ok (ddel k d)"
  by (simp add: dict_ok_def distinct_delete)

lemma dget_dset: "dget (dset k v d) = (dget d)(k \<mapsto> v)"
  by (rule update_conv')

lemma dget_ddel: "dget (ddel k d) = (dget d)(k := None)"
  by (rule delete_conv')

lemma dget_None_iff: "dget d k = None \<longleftrightarrow> k \<notin> set (dkeys d)"
  by (simp add: map_of_eq_None_iff)

lemma dget_Some_iff: "(\<exists>v. dget d k = Some v) \<longleftrightarrow> k \<in> set (dkeys d)"
  using dget_None_iff [of d k] by auto

lemma dom_dget: "dom (dget d) = set (dkeys d)"
  by (simp add: dom_map_of_conv_image_fst)

lemma dget_in_set: "dget d k = Some v \<Longrightarrow> (k, v) \<in> set d"
  by (rule map_of_SomeD)

lemma dget_iff_in_set: "dict_ok d \<Longrightarrow> dget d k = Some v \<longleftrightarrow> (k, v) \<in> set d"
  by (auto simp: dict_ok_def dest: map_of_SomeD)

text \<open>The dictionary built by a comprehension \<open>{k: v for k, v in rows}\<close>.\<close>

definition dict_of :: "('k \<times> 'v) list \<Rightarrow> ('k, 'v) dict" where
  "dict_of rows = fold (\<lambda>(k, v). dset k v) rows []"

lemma fold_dset_ok: "dict_ok d \<Longrightarrow> dict_ok (fold (\<lambda>(k, v). dset k v) rows d)"
  by (induction rows arbitrary: d) auto

lemma fold_dset_dget:
  "dget (fold (\<lambda>(k, v). dset k v) rows d) = dget d ++ map_of (rev rows)"
proof (induction rows arbitrary: d)
  case (Cons r rows)
  then show ?case
    by (cases r) (auto simp: dget_dset map_add_def fun_eq_iff split: option.splits)
qed simp

lemma dict_of_ok [simp]: "dict_ok (dict_of rows)"
  by (simp add: dict_of_def fold_dset_ok)

lemma dget_dict_of: "dget (dict_of rows) = map_of (rev rows)"
  by (simp add: dict_of_def fold_dset_dget)

lemma dget_dict_of_distinct:
  "distinct (map fst rows) \<Longrightarrow> dget (dict_of rows) = map_of rows"
proof -
  assume "distinct (map fst rows)"
  then have "map_of (rev rows) = map_of rows"
    by (intro map_of_inject_set [THEN iffD2]) (simp_all add: rev_map [symmetric])
  then show ?thesis by (simp add: dget_dict_of)
qed

lemma dget_map_keys: "dget (map (\<lambda>(k, x). (k, g k)) d) k = map_option (\<lambda>_. g k) (dget d k)"
  by (induction d) auto

text \<open>Sums over the values of a dictionary.\<close>

definition dsum :: "('v \<Rightarrow> nat) \<Rightarrow> ('k, 'v) dict \<Rightarrow> nat" where
  "dsum w d = sum_list (map (\<lambda>(k, v). w v) d)"

lemma dsum_simps [simp]: "dsum w [] = 0" "dsum w ((k, v) # d) = w v + dsum w d"
  by (simp_all add: dsum_def)

lemma dsum_dset:
  "dsum w (dset k v d) + (case dget d k of None \<Rightarrow> 0 | Some x \<Rightarrow> w x) = dsum w d + w v"
  by (induction d) (auto split: option.splits)

lemma ddel_absent: "dget d k = None \<Longrightarrow> ddel k d = d"
  by (induction d) (auto split: if_splits)

lemma dsum_ddel:
  "dict_ok d \<Longrightarrow> dsum w (ddel k d) + (case dget d k of None \<Rightarrow> 0 | Some x \<Rightarrow> w x) = dsum w d"
proof (induction d)
  case (Cons e d)
  then show ?case
    by (cases e) (auto simp: dict_ok_def ddel_absent map_of_eq_None_iff split: option.splits)
qed simp

lemma dict_ok_single [simp]: "dict_ok [(k, v)]"
  by (simp add: dict_ok_def)

lemma ddel_Nil_other: "ddel k d = [] \<Longrightarrow> k' \<noteq> k \<Longrightarrow> dget d k' = None"
  using dget_ddel [of k d] by (metis fun_upd_other map_of.simps(1))

lemma set_dset: "set (dset k v d) \<subseteq> insert (k, v) (set d)"
  by (induction d) auto

lemma set_ddel: "set (ddel k d) \<subseteq> set d"
  by (induction d) auto

lemma dset_ne [simp]: "dset k v d \<noteq> []"
  by (cases d) auto

section \<open>Slices\<close>

text \<open>The slices \<open>xs[i : i + n]\<close> for \<open>i\<close> in \<open>range(0, len(xs), n)\<close>.\<close>

function chunks :: "nat \<Rightarrow> 'a list \<Rightarrow> 'a list list" where
  "chunks n xs = (if xs = [] \<or> n = 0 then [] else take n xs # chunks n (drop n xs))"
  by pat_completeness auto
termination
  by (relation "measure (length \<circ> snd)") auto

declare chunks.simps [simp del]

lemma set_chunks: "0 < n \<Longrightarrow> (\<Union>c \<in> set (chunks n xs). set c) = set xs"
proof (induction n xs rule: chunks.induct)
  case (1 n xs)
  show ?case
  proof (cases "xs = []")
    case False
    then have "chunks n xs = take n xs # chunks n (drop n xs)"
      using "1.prems" by (subst chunks.simps) simp
    moreover have "set xs = set (take n xs) \<union> set (drop n xs)"
      by (metis append_take_drop_id set_append)
    ultimately show ?thesis using 1 False by simp
  qed (subst chunks.simps, simp)
qed

lemma chunks_length: "c \<in> set (chunks n xs) \<Longrightarrow> length c \<le> n"
proof (induction n xs rule: chunks.induct)
  case (1 n xs)
  then show ?case by (subst (asm) (2) chunks.simps) (auto split: if_splits)
qed

lemma concat_chunks: "0 < n \<Longrightarrow> concat (chunks n xs) = xs"
proof (induction n xs rule: chunks.induct)
  case (1 n xs)
  then show ?case by (cases "xs = []") (subst chunks.simps, simp)+
qed

section \<open>String functions\<close>

text \<open>\<open>s.startswith(p)\<close>.\<close>

definition startswith :: "pystr \<Rightarrow> pystr \<Rightarrow> bool" where
  "startswith s p \<longleftrightarrow> take (length p) s = p"

lemma startswith_iff: "startswith s p \<longleftrightarrow> (\<exists>t. s = p @ t)"
  by (auto simp: startswith_def) (metis append_take_drop_id)

lemma startswith_append [simp]: "startswith (p @ t) p"
  by (auto simp: startswith_iff)

lemma startswith_Nil [simp]: "startswith s []"
  by (simp add: startswith_def)

text \<open>\<open>s.split(c)\<close> for a one-character separator, and \<open>c.join(parts)\<close>.\<close>

fun split_on :: "nat \<Rightarrow> pystr \<Rightarrow> pystr list" where
  "split_on c [] = [[]]"
| "split_on c (x # xs) =
     (if x = c then [] # split_on c xs
      else (case split_on c xs of [] \<Rightarrow> [[x]] | y # ys \<Rightarrow> (x # y) # ys))"

fun join_with :: "nat \<Rightarrow> pystr list \<Rightarrow> pystr" where
  "join_with c [] = []"
| "join_with c [x] = x"
| "join_with c (x # y # ys) = x @ c # join_with c (y # ys)"

lemma split_on_ne [simp]: "split_on c s \<noteq> []"
  by (induction s) (auto split: list.splits)

lemma split_on_append: "c \<notin> set x \<Longrightarrow> split_on c (x @ c # s) = x # split_on c s"
  by (induction x) auto

lemma split_on_single: "c \<notin> set x \<Longrightarrow> split_on c x = [x]"
  by (induction x) auto

lemma split_on_Cons_hd: "split_on c s = y # ys \<Longrightarrow> c \<notin> set y"
proof (induction s arbitrary: y ys)
  case (Cons x s)
  then show ?case by (cases "split_on c s") (auto split: if_splits)
qed simp

lemma split_on_no_sep: "y \<in> set (split_on c s) \<Longrightarrow> c \<notin> set y"
proof (induction s arbitrary: y)
  case (Cons x s)
  then show ?case
    by (cases "split_on c s") (auto split: if_splits dest: split_on_Cons_hd)
qed simp

lemma join_split [simp]: "join_with c (split_on c s) = s"
proof (induction s)
  case (Cons x s)
  then show ?case
    by (cases "split_on c s"; cases "tl (split_on c s)") auto
qed simp

text \<open>\<open>s.rpartition(c)\<close>, without the middle component: \<open>('', s)\<close> when \<open>c\<close> does not occur.\<close>

definition rpartition :: "nat \<Rightarrow> pystr \<Rightarrow> pystr \<times> pystr" where
  "rpartition c s =
     (if c \<in> set s
      then (rev (tl (dropWhile (\<lambda>x. x \<noteq> c) (rev s))), rev (takeWhile (\<lambda>x. x \<noteq> c) (rev s)))
      else ([], s))"

lemma rpartition_append: "c \<notin> set y \<Longrightarrow> rpartition c (x @ c # y) = (x, y)"
proof -
  assume "c \<notin> set y"
  then have "\<forall>z \<in> set (rev y). z \<noteq> c" by auto
  then have "dropWhile (\<lambda>x. x \<noteq> c) (rev y @ c # rev x) = c # rev x"
    and "takeWhile (\<lambda>x. x \<noteq> c) (rev y @ c # rev x) = rev y"
    by (subst dropWhile_append2, auto) (subst takeWhile_append2, auto)
  then show ?thesis by (simp add: rpartition_def)
qed

section \<open>Decimal numbers\<close>

fun show_nat :: "nat \<Rightarrow> pystr" where
  "show_nat n = (if n < 10 then [48 + n] else show_nat (n div 10) @ [48 + n mod 10])"

declare show_nat.simps [simp del]

text \<open>\<open>str(i)\<close> of an integer.\<close>

definition show_int :: "int \<Rightarrow> pystr" where
  "show_int i = (if i < 0 then 45 # show_nat (nat (- i)) else show_nat (nat i))"

abbreviation is_digit :: "nat \<Rightarrow> bool" where
  "is_digit c \<equiv> 48 \<le> c \<and> c \<le> 57"

fun digits_val :: "nat \<Rightarrow> pystr \<Rightarrow> nat option" where
  "digits_val a [] = Some a"
| "digits_val a (c # cs) =
     (if is_digit c then digits_val (10 * a + (c - 48)) cs
      else if c = 95 then
        (case cs of [] \<Rightarrow> None
         | d # ds \<Rightarrow> if is_digit d then digits_val (10 * a + (d - 48)) ds else None)
      else None)"

definition nat_of_digits :: "pystr \<Rightarrow> nat option" where
  "nat_of_digits s =
     (case s of [] \<Rightarrow> None | c # cs \<Rightarrow> if is_digit c then digits_val (c - 48) cs else None)"

abbreviation is_space :: "nat \<Rightarrow> bool" where
  "is_space c \<equiv> c = 32 \<or> (9 \<le> c \<and> c \<le> 13) \<or> (28 \<le> c \<and> c \<le> 31)"

definition strip :: "pystr \<Rightarrow> pystr" where
  "strip s = rev (dropWhile is_space (rev (dropWhile is_space s)))"

text \<open>
  \<open>int(s)\<close> of a string: surrounding white space, a sign, digits with single underscores between
  them. Digits and spaces outside ASCII are not recognised by the model.
\<close>

definition parse_int :: "pystr \<Rightarrow> exc + int" where
  "parse_int s =
     (let t = strip s;
          (neg, ds) = (case t of [] \<Rightarrow> (False, t)
                       | c # cs \<Rightarrow> if c = 45 then (True, cs) else if c = 43 then (False, cs)
                                  else (False, t))
      in case nat_of_digits ds of
           None \<Rightarrow> Inl (ValueError ''invalid literal for int()'')
         | Some n \<Rightarrow> Inr (if neg then - int n else int n))"

lemma show_nat_digits: "set (show_nat n) \<subseteq> {48..57}"
proof (induction n rule: show_nat.induct)
  case (1 n)
  then show ?case by (subst show_nat.simps) auto
qed

lemma show_nat_ne [simp]: "show_nat n \<noteq> []"
  by (subst show_nat.simps) simp

lemma digits_val_append:
  "set xs \<subseteq> {48..57} \<Longrightarrow> digits_val a (xs @ ys) =
     (case digits_val a xs of None \<Rightarrow> None | Some b \<Rightarrow> digits_val b ys)"
  by (induction xs arbitrary: a) auto

lemma digits_val_show_nat: "digits_val a (show_nat n) = Some (a * 10 ^ length (show_nat n) + n)"
proof (induction n rule: show_nat.induct)
  case (1 n)
  show ?case
  proof (cases "n < 10")
    case True
    then have "show_nat n = [48 + n]" by (subst show_nat.simps) simp
    with True show ?thesis by simp
  next
    case False
    then have s: "show_nat n = show_nat (n div 10) @ [48 + n mod 10]"
      by (subst show_nat.simps) simp
    from False "1.IH"
    have "digits_val a (show_nat (n div 10)) =
        Some (a * 10 ^ length (show_nat (n div 10)) + n div 10)" by simp
    then show ?thesis unfolding s
      by (simp add: digits_val_append [OF show_nat_digits] algebra_simps)
  qed
qed

lemma nat_of_digits_show_nat: "nat_of_digits (show_nat n) = Some n"
proof (cases "show_nat n")
  case (Cons c cs)
  then have "is_digit c" using show_nat_digits [of n] by auto
  with Cons have "nat_of_digits (show_nat n) = digits_val 0 (show_nat n)"
    by (simp add: nat_of_digits_def)
  then show ?thesis by (simp add: digits_val_show_nat)
qed simp

lemma show_int_chars: "set (show_int i) \<subseteq> insert 45 {48..57}"
  using show_nat_digits [of "nat i"] show_nat_digits [of "nat (- i)"]
  by (auto simp: show_int_def)

lemma dropWhile_none: "(\<forall>x \<in> set xs. \<not> P x) \<Longrightarrow> dropWhile P xs = xs"
  by (cases xs) auto

lemma strip_show_int: "strip (show_int i) = show_int i"
proof -
  have "\<forall>x \<in> set (show_int i). \<not> is_space x" using show_int_chars [of i] by auto
  then show ?thesis by (simp add: strip_def dropWhile_none)
qed

lemma parse_show_int [simp]: "parse_int (show_int i) = Inr i"
proof (cases "i < 0")
  case True
  then show ?thesis
    by (simp add: parse_int_def strip_show_int)
      (simp add: show_int_def nat_of_digits_show_nat)
next
  case False
  obtain c cs where c: "show_nat (nat i) = c # cs" by (cases "show_nat (nat i)") auto
  then have "is_digit c" using show_nat_digits [of "nat i"] by auto
  with False c show ?thesis
    by (simp add: parse_int_def strip_show_int)
      (simp add: show_int_def nat_of_digits_show_nat [of "nat i", unfolded c])
qed

lemma show_int_inj: "show_int i = show_int j \<longleftrightarrow> i = j"
  using parse_show_int by (metis Inr_inject)

end
