(* ===== verification/Values.thy ===== *)
theory Values
  imports Prelude
begin

text \<open>
  Python values as the stores and the adapters see them (\<open>Any\<close> in the sources): the plain data
  types the msgpack codec accepts, tuples, and instances of any other class as opaque objects.
  Floats are their 64 bits. A dictionary is its list of items in insertion order.
\<close>

datatype pyval =
    PNone
  | PBool bool
  | PInt int
  | PFloat "64 word"
  | PStr pystr
  | PBytes bytes
  | PList "pyval list"
  | PTuple "pyval list"
  | PDict "(pyval \<times> pyval) list"
  | PObj nat

text \<open>\<open>isinstance(v, dict)\<close>.\<close>

fun is_dict :: "pyval \<Rightarrow> bool" where
  "is_dict (PDict _) = True"
| "is_dict _ = False"

text \<open>\<open>v[key]\<close> for a string key, \<open>v.get(key)\<close> and \<open>key in v\<close>.\<close>

fun getitem :: "pyval \<Rightarrow> pystr \<Rightarrow> exc + pyval" where
  "getitem (PDict d) key = (case dget d (PStr key) of None \<Rightarrow> Inl KeyError | Some v \<Rightarrow> Inr v)"
| "getitem _ _ = Inl TypeError"

fun get_key :: "pyval \<Rightarrow> pystr \<Rightarrow> exc + pyval" where
  "get_key (PDict d) key = (case dget d (PStr key) of None \<Rightarrow> Inr PNone | Some v \<Rightarrow> Inr v)"
| "get_key _ _ = Inl AttributeError"

fun has_key :: "pyval \<Rightarrow> pystr \<Rightarrow> bool" where
  "has_key (PDict d) key = (dget d (PStr key) \<noteq> None)"
| "has_key _ _ = False"

text \<open>\<open>{**v, key: x}\<close> and a copy of \<open>v\<close> without \<open>key\<close>.\<close>

fun with_key :: "pyval \<Rightarrow> pystr \<Rightarrow> pyval \<Rightarrow> pyval" where
  "with_key (PDict d) key x = PDict (dset (PStr key) x d)"
| "with_key v _ _ = v"

fun without_key :: "pyval \<Rightarrow> pystr \<Rightarrow> pyval" where
  "without_key (PDict d) key = PDict (ddel (PStr key) d)"
| "without_key v _ = v"

text \<open>A value used where a string is required.\<close>

fun as_str :: "pyval \<Rightarrow> exc + pystr" where
  "as_str (PStr s) = Inr s"
| "as_str _ = Inl TypeError"

text \<open>The items of a dictionary with string keys.\<close>

fun str_items :: "pyval \<Rightarrow> (pystr \<times> pyval) list" where
  "str_items (PDict d) = List.map_filter (\<lambda>(k, v). case k of PStr s \<Rightarrow> Some (s, v) | _ \<Rightarrow> None) d"
| "str_items _ = []"

text \<open>\<open>bool(v)\<close>.\<close>

fun truthy :: "pyval \<Rightarrow> bool" where
  "truthy PNone = False"
| "truthy (PBool b) = b"
| "truthy (PInt i) = (i \<noteq> 0)"
| "truthy (PFloat w) = (w \<noteq> 0 \<and> w \<noteq> 0x8000000000000000)"
| "truthy (PStr s) = (s \<noteq> [])"
| "truthy (PBytes b) = (b \<noteq> [])"
| "truthy (PList xs) = (xs \<noteq> [])"
| "truthy (PTuple xs) = (xs \<noteq> [])"
| "truthy (PDict d) = (d \<noteq> [])"
| "truthy (PObj _) = True"

lemma getitem_with_key [simp]:
  "getitem (with_key (PDict d) k x) k' = (if k = k' then Inr x else getitem (PDict d) k')"
  by (auto simp: dget_dset)

lemma has_key_without_key [simp]: "\<not> has_key (without_key v k) k"
  by (cases v) (auto simp: dget_ddel)

end
