(* ===== verification/Store_Contract.thy ===== *)
theory Store_Contract
  imports Values
begin

text \<open>
  The store contract of \<^verbatim>\<open>src/python/swarmstate/protocols.py\<close> (\<open>StoreLike\<close>): the operations a
  client calls, as a record of functions over the store's state (Python's duck typing: a custom
  store may lack the batch operations and the \<open>prefix\<close> argument, which the record marks), and the
  laws every bundled backend promises, as a locale over an abstraction of the state to a finite
  map from \<open>(namespace, key)\<close> to values. The bundled backends interpret the locale; the clients'
  lemmas are proved in it.
\<close>

type_synonym content = "(pystr \<times> pystr) \<rightharpoonup> pyval"
type_synonym entry = "pystr \<times> pystr \<times> pyval"

record 's store_ops =
  op_set :: "'s \<Rightarrow> pystr \<Rightarrow> pystr \<Rightarrow> pyval \<Rightarrow> exc + 's"
  op_get :: "'s \<Rightarrow> pystr \<Rightarrow> pystr \<Rightarrow> pyval \<Rightarrow> exc + pyval"
  op_set_many :: "('s \<Rightarrow> entry list \<Rightarrow> exc + 's) option"
  op_get_many :: "('s \<Rightarrow> (pystr \<times> pystr) list \<Rightarrow> exc + pyval list) option"
  op_contains :: "'s \<Rightarrow> pystr \<Rightarrow> pystr \<Rightarrow> bool"
  op_delete :: "'s \<Rightarrow> pystr \<Rightarrow> pystr \<Rightarrow> bool \<times> 's"
  op_delete_many :: "('s \<Rightarrow> (pystr \<times> pystr) list \<Rightarrow> nat \<times> 's) option"
  op_delete_namespace :: "('s \<Rightarrow> pystr \<Rightarrow> nat \<times> 's) option"
  op_keys :: "'s \<Rightarrow> pystr \<Rightarrow> pystr list"
  op_keys_prefix :: "'s \<Rightarrow> pystr \<Rightarrow> pystr \<Rightarrow> exc + pystr list"
  op_max_key :: "'s \<Rightarrow> pystr \<Rightarrow> pystr option"
  op_namespaces :: "'s \<Rightarrow> pystr list"
  op_namespaces_prefix :: "'s \<Rightarrow> pystr \<Rightarrow> exc + pystr list"
  op_clear :: "'s \<Rightarrow> 's"
  op_len :: "'s \<Rightarrow> nat"
  op_has_namespace :: "'s \<Rightarrow> pystr \<Rightarrow> bool"
  op_indexed_max_key :: bool

text \<open>
  A serializer of values: msgpack, either the Rust codec or the \<open>msgpack\<close> package. A value is
  storable when its encoding decodes to it.
\<close>

record codec =
  encode :: "pyval \<Rightarrow> exc + bytes"
  decode :: "bytes \<Rightarrow> exc + pyval"

definition storable :: "codec \<Rightarrow> pyval \<Rightarrow> bool" where
  "storable C v \<longleftrightarrow> (case encode C v of Inl e \<Rightarrow> False | Inr b \<Rightarrow> decode C b = Inr v)"

lemma storable_iff: "storable C v \<longleftrightarrow> (\<exists>b. encode C v = Inr b \<and> decode C b = Inr v)"
  by (auto simp: storable_def split: sum.splits)

section \<open>The abstract store\<close>

text \<open>The abstract effect of each operation on the map of entries.\<close>

fun upd_all :: "entry list \<Rightarrow> content \<Rightarrow> content" where
  "upd_all [] m = m"
| "upd_all ((ns, k, v) # es) m = upd_all es (m((ns, k) \<mapsto> v))"

definition del_all :: "(pystr \<times> pystr) set \<Rightarrow> content \<Rightarrow> content" where
  "del_all ps m = (\<lambda>p. if p \<in> ps then None else m p)"

definition ns_keys :: "content \<Rightarrow> pystr \<Rightarrow> pystr set" where
  "ns_keys m ns = {k. m (ns, k) \<noteq> None}"

definition ns_names :: "content \<Rightarrow> pystr set" where
  "ns_names m = {ns. ns_keys m ns \<noteq> {}}"

definition ns_pairs :: "content \<Rightarrow> pystr \<Rightarrow> (pystr \<times> pystr) set" where
  "ns_pairs m ns = {p. fst p = ns}"

lemma upd_all_append: "upd_all (xs @ ys) m = upd_all ys (upd_all xs m)"
  by (induction xs arbitrary: m) auto

lemma upd_all_other:
  "(\<And>v. (ns, k, v) \<notin> set es) \<Longrightarrow> upd_all es m (ns, k) = m (ns, k)"
  by (induction es arbitrary: m) fastforce+

lemma upd_all_range:
  "upd_all es m (ns, k) = Some v \<Longrightarrow> (ns, k, v) \<in> set es \<or> m (ns, k) = Some v"
  by (induction es arbitrary: m) (fastforce split: if_splits)+

lemma upd_all_in:
  "distinct (map (\<lambda>(ns, k, v). (ns, k)) es) \<Longrightarrow> (ns, k, v) \<in> set es \<Longrightarrow>
    upd_all es m (ns, k) = Some v"
proof (induction es arbitrary: m)
  case (Cons e es)
  obtain ns' k' v' where e: "e = (ns', k', v')" by (cases e)
  show ?case
  proof (cases "(ns, k, v) \<in> set es")
    case True
    with Cons e show ?thesis by simp
  next
    case False
    with Cons.prems(2) e have eq: "ns = ns'" "k = k'" "v = v'" by auto
    with Cons.prems(1) e have "\<And>w. (ns, k, w) \<notin> set es" by force
    with e eq show ?thesis by (simp add: upd_all_other)
  qed
qed simp

lemma dom_upd_all: "dom (upd_all es m) = dom m \<union> (\<lambda>(ns, k, v). (ns, k)) ` set es"
proof (induction es arbitrary: m)
  case (Cons e es)
  obtain ns k v where e: "e = (ns, k, v)" by (cases e)
  have "dom (upd_all (e # es) m) = dom (upd_all es (m((ns, k) \<mapsto> v)))" by (simp add: e)
  also have "\<dots> = dom m \<union> (\<lambda>(ns, k, v). (ns, k)) ` set (e # es)"
    unfolding Cons.IH by (simp add: e Un_commute)
  finally show ?case .
qed simp

lemma finite_dom_upd_all [simp]: "finite (dom (upd_all es m)) = finite (dom m)"
  by (simp add: dom_upd_all)

lemma del_all_apply: "del_all ps m p = (if p \<in> ps then None else m p)"
  by (simp add: del_all_def)

lemma dom_del_all: "dom (del_all ps m) = dom m - ps"
  by (auto simp: del_all_def dom_def)

lemma del_all_empty [simp]: "del_all {} m = m"
  by (simp add: del_all_def)

lemma del_all_union: "del_all ps (del_all qs m) = del_all (ps \<union> qs) m"
  by (auto simp: del_all_def)

lemma del_all_single: "del_all {p} m = m(p := None)"
  by (auto simp: del_all_def)

lemma ns_keys_iff: "k \<in> ns_keys m ns \<longleftrightarrow> (ns, k) \<in> dom m"
  by (auto simp: ns_keys_def)

lemma ns_names_iff: "ns \<in> ns_names m \<longleftrightarrow> (\<exists>k. (ns, k) \<in> dom m)"
  by (auto simp: ns_names_def ns_keys_def)

lemma finite_ns_keys: "finite (dom m) \<Longrightarrow> finite (ns_keys m ns)"
proof -
  have "ns_keys m ns = snd ` (dom m \<inter> {p. fst p = ns})" by (force simp: ns_keys_def)
  then show "finite (dom m) \<Longrightarrow> finite (ns_keys m ns)" by simp
qed

text \<open>\<open>max(keys, default=None)\<close>.\<close>

definition max_str :: "pystr list \<Rightarrow> pystr option" where
  "max_str ks = (case ks of [] \<Rightarrow> None | k # ks \<Rightarrow> Some (fold max ks k))"

lemma max_str_Max: "ks \<noteq> [] \<Longrightarrow> max_str ks = Some (Max (set ks))"
proof (cases ks)
  case (Cons k ks')
  then show ?thesis using Max.set_eq_fold [of k ks'] by (simp add: max_str_def)
qed simp

lemma max_str_None: "max_str ks = None \<longleftrightarrow> ks = []"
  by (cases ks) (auto simp: max_str_def)

lemma max_str_Nil [simp]: "max_str [] = None"
  by (simp add: max_str_def)

lemma max_str_same_set: "set ks = set ks' \<Longrightarrow> max_str ks = max_str ks'"
  by (cases "ks = []"; cases "ks' = []") (auto simp: max_str_Max)

section \<open>Runs of operations\<close>

text \<open>The operations that change a store, as data, so that a run is a list of them.\<close>

datatype wop =
    WSet pystr pystr pyval
  | WSetMany "entry list"
  | WDelete pystr pystr
  | WDeleteMany "(pystr \<times> pystr) list"
  | WDeleteNamespace pystr
  | WClear

text \<open>Performing one on a store: a store without the method raises \<open>AttributeError\<close>.\<close>

fun do_wop :: "'s store_ops \<Rightarrow> wop \<Rightarrow> 's \<Rightarrow> exc + 's" where
  "do_wop ops (WSet ns k v) s = op_set ops s ns k v"
| "do_wop ops (WSetMany es) s =
     (case op_set_many ops of None \<Rightarrow> Inl AttributeError | Some f \<Rightarrow> f s es)"
| "do_wop ops (WDelete ns k) s = Inr (snd (op_delete ops s ns k))"
| "do_wop ops (WDeleteMany ps) s =
     (case op_delete_many ops of None \<Rightarrow> Inl AttributeError | Some f \<Rightarrow> Inr (snd (f s ps)))"
| "do_wop ops (WDeleteNamespace ns) s =
     (case op_delete_namespace ops of None \<Rightarrow> Inl AttributeError | Some f \<Rightarrow> Inr (snd (f s ns)))"
| "do_wop ops WClear s = Inr (op_clear ops s)"

fun do_wops :: "'s store_ops \<Rightarrow> wop list \<Rightarrow> 's \<Rightarrow> exc + 's" where
  "do_wops ops [] s = Inr s"
| "do_wops ops (w # ws) s = bindE (do_wop ops w s) (do_wops ops ws)"

text \<open>What it does to the map of entries.\<close>

fun spec_wop :: "wop \<Rightarrow> content \<Rightarrow> content" where
  "spec_wop (WSet ns k v) m = m((ns, k) \<mapsto> v)"
| "spec_wop (WSetMany es) m = upd_all es m"
| "spec_wop (WDelete ns k) m = m((ns, k) := None)"
| "spec_wop (WDeleteMany ps) m = del_all (set ps) m"
| "spec_wop (WDeleteNamespace ns) m = del_all {p. fst p = ns} m"
| "spec_wop WClear m = Map.empty"

fun wop_ok :: "(pystr \<Rightarrow> bool) \<Rightarrow> (pyval \<Rightarrow> bool) \<Rightarrow> wop \<Rightarrow> bool" where
  "wop_ok okt okv (WSet ns k v) \<longleftrightarrow> okt ns \<and> okt k \<and> okv v"
| "wop_ok okt okv (WSetMany es) \<longleftrightarrow> (\<forall>(ns, k, v) \<in> set es. okt ns \<and> okt k \<and> okv v)"
| "wop_ok okt okv _ \<longleftrightarrow> True"

definition has_batch :: "'s store_ops \<Rightarrow> bool" where
  "has_batch ops \<longleftrightarrow> op_set_many ops \<noteq> None \<and> op_get_many ops \<noteq> None \<and>
     op_delete_many ops \<noteq> None \<and> op_delete_namespace ops \<noteq> None"

section \<open>The contract\<close>

locale store_like =
  fixes ops :: "'s store_ops"
    and inv :: "'s \<Rightarrow> bool"
    and content :: "'s \<Rightarrow> content"
    and okt :: "pystr \<Rightarrow> bool"
    and okv :: "pyval \<Rightarrow> bool"
  assumes finite_law: "inv s \<Longrightarrow> finite (dom (content s))"
    and set_law: "inv s \<Longrightarrow> okt ns \<Longrightarrow> okt k \<Longrightarrow> okv v \<Longrightarrow>
      \<exists>s'. op_set ops s ns k v = Inr s' \<and> inv s' \<and> content s' = (content s)((ns, k) \<mapsto> v)"
    and get_law: "inv s \<Longrightarrow>
      op_get ops s ns k d = Inr (case content s (ns, k) of None \<Rightarrow> d | Some v \<Rightarrow> v)"
    and set_many_law: "op_set_many ops = Some f \<Longrightarrow> inv s \<Longrightarrow>
      (\<And>ns k v. (ns, k, v) \<in> set es \<Longrightarrow> okt ns \<and> okt k \<and> okv v) \<Longrightarrow>
      \<exists>s'. f s es = Inr s' \<and> inv s' \<and> content s' = upd_all es (content s)"
    and get_many_law: "op_get_many ops = Some g \<Longrightarrow> inv s \<Longrightarrow>
      g s ps = Inr (map (\<lambda>p. case content s p of None \<Rightarrow> PNone | Some v \<Rightarrow> v) ps)"
    and contains_law: "inv s \<Longrightarrow> op_contains ops s ns k \<longleftrightarrow> content s (ns, k) \<noteq> None"
    and delete_law: "inv s \<Longrightarrow> op_delete ops s ns k = (b, s') \<Longrightarrow>
      inv s' \<and> content s' = (content s)((ns, k) := None) \<and> (b \<longleftrightarrow> content s (ns, k) \<noteq> None)"
    and delete_many_law: "op_delete_many ops = Some h \<Longrightarrow> inv s \<Longrightarrow> h s ps = (n, s') \<Longrightarrow>
      inv s' \<and> content s' = del_all (set ps) (content s) \<and> n = card (set ps \<inter> dom (content s))"
    and delete_namespace_law: "op_delete_namespace ops = Some i \<Longrightarrow> inv s \<Longrightarrow>
      i s ns = (n, s') \<Longrightarrow>
      inv s' \<and> content s' = del_all {p. fst p = ns} (content s) \<and> n = card (ns_keys (content s) ns)"
    and keys_law: "inv s \<Longrightarrow>
      distinct (op_keys ops s ns) \<and> set (op_keys ops s ns) = ns_keys (content s) ns"
    and keys_prefix_law: "inv s \<Longrightarrow> okt p \<Longrightarrow> op_keys_prefix ops s ns p = Inr ks \<Longrightarrow>
      distinct ks \<and> set ks = {k \<in> ns_keys (content s) ns. startswith k p}"
    and keys_prefix_exc: "op_keys_prefix ops s ns p = Inl e \<Longrightarrow> e = TypeError"
    and max_key_law: "inv s \<Longrightarrow> op_max_key ops s ns =
      (if ns_keys (content s) ns = {} then None else Some (Max (ns_keys (content s) ns)))"
    and namespaces_law: "inv s \<Longrightarrow>
      distinct (op_namespaces ops s) \<and> set (op_namespaces ops s) = ns_names (content s)"
    and namespaces_prefix_law: "inv s \<Longrightarrow> okt p \<Longrightarrow> op_namespaces_prefix ops s p = Inr nss \<Longrightarrow>
      distinct nss \<and> set nss = {ns \<in> ns_names (content s). startswith ns p}"
    and namespaces_prefix_exc: "op_namespaces_prefix ops s p = Inl e \<Longrightarrow> e = TypeError"
    and clear_law: "inv s \<Longrightarrow> inv (op_clear ops s) \<and> content (op_clear ops s) = Map.empty"
    and len_law: "inv s \<Longrightarrow> op_len ops s = card (dom (content s))"
    and has_namespace_law: "inv s \<Longrightarrow> op_has_namespace ops s ns \<longleftrightarrow> ns \<in> ns_names (content s)"
    and text_law: "inv s \<Longrightarrow> (ns, k) \<in> dom (content s) \<Longrightarrow> okt ns \<and> okt k"
    and okt_append: "okt (x @ y) \<longleftrightarrow> okt x \<and> okt y"
    and okt_ascii: "(\<And>c. c \<in> set x \<Longrightarrow> 0 < c \<and> c < 128) \<Longrightarrow> okt x"
begin

lemma okt_simps [simp]: "okt []" "okt (a @ b) \<longleftrightarrow> okt a \<and> okt b"
  by (rule okt_ascii, simp) (rule okt_append)

lemma okt_Cons: "okt (c # a) \<longleftrightarrow> okt [c] \<and> okt a"
  using okt_append [of "[c]" a] by simp

lemma max_key_keys: "inv s \<Longrightarrow> op_max_key ops s ns = max_str (op_keys ops s ns)"
  using keys_law [of s ns] max_key_law [of s ns]
  by (cases "op_keys ops s ns = []") (auto simp: max_str_Max)

lemma do_wop_law:
  assumes "inv s" "has_batch ops" "wop_ok okt okv w"
  shows "\<exists>s'. do_wop ops w s = Inr s' \<and> inv s' \<and> content s' = spec_wop w (content s)"
proof (cases w)
  case (WSet ns k v)
  with assms set_law show ?thesis by simp
next
  case (WSetMany es)
  with assms obtain f where f: "op_set_many ops = Some f" by (auto simp: has_batch_def)
  have "okt ns \<and> okt k \<and> okv v" if "(ns, k, v) \<in> set es" for ns k v
    using assms(3) that WSetMany by auto
  from set_many_law [OF f assms(1) this] WSetMany f show ?thesis by simp
next
  case (WDelete ns k)
  with delete_law [OF assms(1) surjective_pairing] show ?thesis by simp
next
  case (WDeleteMany ps)
  with assms obtain f where f: "op_delete_many ops = Some f" by (auto simp: has_batch_def)
  with WDeleteMany delete_many_law [OF f assms(1) surjective_pairing] show ?thesis by simp
next
  case (WDeleteNamespace ns)
  with assms obtain f where f: "op_delete_namespace ops = Some f" by (auto simp: has_batch_def)
  with WDeleteNamespace delete_namespace_law [OF f assms(1) surjective_pairing]
  show ?thesis by simp
next
  case WClear
  with clear_law [OF assms(1)] show ?thesis by simp
qed

lemma do_wops_law:
  assumes "inv s" "has_batch ops" "\<forall>w \<in> set ws. wop_ok okt okv w"
  shows "\<exists>s'. do_wops ops ws s = Inr s' \<and> inv s' \<and> content s' = fold spec_wop ws (content s)"
  using assms
proof (induction ws arbitrary: s)
  case (Cons w ws)
  obtain s1 where s1: "do_wop ops w s = Inr s1" "inv s1" "content s1 = spec_wop w (content s)"
    using do_wop_law [of s w] Cons.prems by auto
  with Cons.IH [of s1] Cons.prems show ?case by simp
qed simp

lemma keys_empty_iff: "inv s \<Longrightarrow> op_keys ops s ns = [] \<longleftrightarrow> ns_keys (content s) ns = {}"
  using keys_law [of s ns] by auto

end

section \<open>Snapshots\<close>

text \<open>
  \<open>SnapshotLike\<close>: what every store's snapshots promise about \<open>diff\<close>, over the stored bytes a
  snapshot shows for each key.
\<close>

record snap_diff =
  diff_added :: "(pystr \<times> pystr) list"
  diff_removed :: "(pystr \<times> pystr) list"
  diff_changed :: "(pystr \<times> pystr) list"

locale snapshot_like =
  fixes view :: "'n \<Rightarrow> pystr \<times> pystr \<Rightarrow> bytes option"
    and snap_valid :: "'n \<Rightarrow> bool"
    and diff :: "'n \<Rightarrow> 'n \<Rightarrow> snap_diff"
  assumes added_law: "snap_valid a \<Longrightarrow> snap_valid b \<Longrightarrow> set (diff_added (diff a b)) = dom (view a) - dom (view b)"
    and removed_law: "snap_valid a \<Longrightarrow> snap_valid b \<Longrightarrow> set (diff_removed (diff a b)) = dom (view b) - dom (view a)"
    and changed_law: "snap_valid a \<Longrightarrow> snap_valid b \<Longrightarrow> set (diff_changed (diff a b)) =
      {p \<in> dom (view a) \<inter> dom (view b). view a p \<noteq> view b p}"
begin

text \<open>The three lists account for every difference, and for each one once.\<close>

lemma diff_complete:
  assumes "snap_valid a" "snap_valid b"
  shows "{p. view a p \<noteq> view b p} =
    set (diff_added (diff a b)) \<union> set (diff_removed (diff a b)) \<union> set (diff_changed (diff a b))"
  unfolding added_law [OF assms] removed_law [OF assms] changed_law [OF assms]
proof (rule set_eqI)
  fix p
  show "p \<in> {p. view a p \<noteq> view b p} \<longleftrightarrow> p \<in> dom (view a) - dom (view b) \<union> (dom (view b) - dom (view a)) \<union>
    {p \<in> dom (view a) \<inter> dom (view b). view a p \<noteq> view b p}"
    by (cases "view a p"; cases "view b p") (simp_all add: domIff)
qed

lemma diff_empty_iff:
  assumes "snap_valid a" "snap_valid b"
  shows "diff_added (diff a b) = [] \<and> diff_removed (diff a b) = [] \<and> diff_changed (diff a b) = [] \<longleftrightarrow> view a = view b"
proof -
  have "view a = view b \<longleftrightarrow> {p. view a p \<noteq> view b p} = {}" by auto
  then show ?thesis unfolding diff_complete [OF assms] by simp
qed

lemma diff_reverse:
  assumes "snap_valid a" "snap_valid b"
  shows "set (diff_added (diff b a)) = set (diff_removed (diff a b))"
    "set (diff_changed (diff b a)) = set (diff_changed (diff a b))"
  using added_law [OF assms(2,1)] removed_law [OF assms] changed_law [OF assms]
    changed_law [OF assms(2,1)] by auto

text \<open>Going from the base to the newer snapshot as the diff describes.\<close>

lemma diff_applies:
  assumes "snap_valid a" "snap_valid b"
  shows "view a = (\<lambda>p. if p \<in> set (diff_removed (diff a b)) then None
    else if p \<in> set (diff_added (diff a b)) \<union> set (diff_changed (diff a b)) then view a p else view b p)"
  unfolding added_law [OF assms] removed_law [OF assms] changed_law [OF assms]
proof
  fix p
  show "view a p = (if p \<in> dom (view b) - dom (view a) then None
    else if p \<in> dom (view a) - dom (view b) \<union> {p \<in> dom (view a) \<inter> dom (view b). view a p \<noteq> view b p}
    then view a p else view b p)"
    by (cases "view a p"; cases "view b p") (simp_all add: domIff)
qed

end

end
