(* ===== verification/Saver.thy ===== *)
theory Saver
  imports Store_Contract "HOL-Library.Product_Lexorder"
begin

text \<open>
  The LangGraph checkpointer of \<^verbatim>\<open>src/python/swarmstate/integrations/langgraph.py\<close>: keys and
  namespaces, the saver's state, and the writing and reading operations. The store is any record
  of store operations \<open>ops\<close>; LangGraph's own functions (serializer, \<open>WRITES_IDX_MAP\<close>,
  \<open>get_checkpoint_id\<close>, \<open>get_checkpoint_metadata\<close>), the comparison and the formatting of arbitrary
  Python objects are the fields of \<open>lg_env\<close>. Checkpoints, metadata and stored records are Python
  values; a method that raises returns the exception and the state reached.
\<close>

section \<open>Environment and data\<close>

text \<open>
  A \<open>RunnableConfig\<close>: the entries of \<open>config["configurable"]\<close> the adapter reads (\<open>None\<close> for a
  missing key) and everything else.
\<close>

record config =
  cfg_thread_id :: "pystr option"
  cfg_checkpoint_ns :: "pystr option"
  cfg_checkpoint_id :: "pyval option"
  cfg_rest :: pyval

record lg_env =
  dumps_typed :: "pyval \<Rightarrow> exc + pystr \<times> bytes"
  loads_typed :: "pyval list \<Rightarrow> exc + pyval"
  WRITES_IDX_MAP :: "pystr \<Rightarrow> int option"
  get_checkpoint_id :: "config \<Rightarrow> pyval"
  get_checkpoint_metadata :: "config \<Rightarrow> pyval \<Rightarrow> exc + pyval"
  py_eq :: "pyval \<Rightarrow> pyval \<Rightarrow> bool"
  other_str :: "pyval \<Rightarrow> pystr"
  walk_fuel :: nat

record ckpt_tuple =
  t_config :: config
  t_checkpoint :: pyval
  t_metadata :: pyval
  t_parent_config :: "config option"
  t_pending_writes :: "(pyval \<times> pyval \<times> pyval) list"

record 's saver =
  sv_store :: 's
  incremental :: bool
  max_checkpoints_per_thread :: "int option"
  max_seen :: "(pystr \<times> pystr, pystr) dict"
  prune_floor :: "(pystr \<times> pystr, int) dict"
  store_takes_prefix :: bool
  store_indexes_max_key :: bool

definition saver_init ::
  "'s store_ops \<Rightarrow> 's \<Rightarrow> bool \<Rightarrow> int option \<Rightarrow> exc + 's saver" where
  "saver_init ops store incr mx =
     (case mx of
        Some m \<Rightarrow> if m < 1 then Inl (ValueError ''max_checkpoints_per_thread must be >= 1'')
                  else Inr \<lparr>sv_store = store, incremental = incr, max_checkpoints_per_thread = mx,
                    max_seen = [], prune_floor = [], store_takes_prefix = True,
                    store_indexes_max_key = op_indexed_max_key ops\<rparr>
      | None \<Rightarrow> Inr \<lparr>sv_store = store, incremental = incr, max_checkpoints_per_thread = mx,
                    max_seen = [], prune_floor = [], store_takes_prefix = True,
                    store_indexes_max_key = op_indexed_max_key ops\<rparr>)"

section \<open>Keys and namespaces\<close>

definition SEP :: nat where "SEP = 31"

definition LATEST_NS :: pystr where "LATEST_NS = lit ''lt''"

definition MAX_HINTS :: nat where "MAX_HINTS = 4096"

definition PRUNE_SLACK :: int where "PRUNE_SLACK = 8"

definition DELTA_COUNTERS :: pystr where "DELTA_COUNTERS = lit ''counters_since_delta_snapshot''"

definition ckpt_ns :: "pystr \<Rightarrow> pystr \<Rightarrow> pystr" where
  "ckpt_ns thread_id checkpoint_ns = lit ''ck'' @ SEP # thread_id @ SEP # checkpoint_ns"

definition writes_ns :: "pystr \<Rightarrow> pystr \<Rightarrow> pystr \<Rightarrow> pystr" where
  "writes_ns thread_id checkpoint_ns checkpoint_id =
     lit ''wr'' @ SEP # thread_id @ SEP # checkpoint_ns @ SEP # checkpoint_id"

definition blobs_ns :: "pystr \<Rightarrow> pystr \<Rightarrow> pystr" where
  "blobs_ns thread_id checkpoint_ns = lit ''bl'' @ SEP # thread_id @ SEP # checkpoint_ns"

definition latest_key :: "pystr \<Rightarrow> pystr \<Rightarrow> pystr" where
  "latest_key thread_id checkpoint_ns = thread_id @ SEP # checkpoint_ns"

definition write_order :: "pystr \<Rightarrow> exc + pystr \<times> int" where
  "write_order key =
     (let (task_id, idx) = rpartition SEP key in bindE (parse_int idx) (\<lambda>i. Inr (task_id, i)))"

definition mk_config :: "pystr \<Rightarrow> pystr \<Rightarrow> pyval \<Rightarrow> config" where
  "mk_config thread_id checkpoint_ns checkpoint_id =
     \<lparr>cfg_thread_id = Some thread_id, cfg_checkpoint_ns = Some checkpoint_ns,
      cfg_checkpoint_id = Some checkpoint_id, cfg_rest = PNone\<rparr>"

definition bounded_set :: "('k, 'v) dict \<Rightarrow> 'k \<Rightarrow> 'v \<Rightarrow> ('k, 'v) dict" where
  "bounded_set hints key value =
     dset key value (if length hints \<ge> MAX_HINTS then [] else hints)"

section \<open>Python values\<close>

text \<open>\<open>d[key]\<close> on a missing entry; \<open>tuple(v)\<close>;
  \<open>key in v\<close>; \<open>v.get(key, default)\<close>; \<open>v.items()\<close>; \<open>str(v)\<close> in an f-string.\<close>

definition need :: "'a option \<Rightarrow> exc + 'a" where
  "need r = (case r of None \<Rightarrow> Inl KeyError | Some x \<Rightarrow> Inr x)"

fun tuple_of :: "pyval \<Rightarrow> exc + pyval list" where
  "tuple_of (PList xs) = Inr xs"
| "tuple_of (PTuple xs) = Inr xs"
| "tuple_of (PStr s) = Inr (map (\<lambda>c. PStr [c]) s)"
| "tuple_of (PBytes b) = Inr (map (\<lambda>w. PInt (uint w)) b)"
| "tuple_of (PDict d) = Inr (dkeys d)"
| "tuple_of _ = Inl TypeError"

fun py_in :: "pyval \<Rightarrow> pyval \<Rightarrow> exc + bool" where
  "py_in key (PDict d) = Inr (dget d key \<noteq> None)"
| "py_in _ _ = Inl TypeError"

fun getitem_val :: "pyval \<Rightarrow> pyval \<Rightarrow> exc + pyval" where
  "getitem_val (PDict d) key = need (dget d key)"
| "getitem_val _ _ = Inl TypeError"

fun get_default :: "pyval \<Rightarrow> pystr \<Rightarrow> pyval \<Rightarrow> exc + pyval" where
  "get_default (PDict d) key dflt = Inr (case dget d (PStr key) of None \<Rightarrow> dflt | Some v \<Rightarrow> v)"
| "get_default _ _ _ = Inl AttributeError"

fun dict_items :: "pyval \<Rightarrow> exc + (pyval \<times> pyval) list" where
  "dict_items (PDict d) = Inr d"
| "dict_items _ = Inl AttributeError"

fun py_str :: "lg_env \<Rightarrow> pyval \<Rightarrow> pystr" where
  "py_str E (PStr s) = s"
| "py_str E (PInt i) = show_int i"
| "py_str E PNone = lit ''None''"
| "py_str E (PBool b) = (if b then lit ''True'' else lit ''False'')"
| "py_str E v = other_str E v"

text \<open>\<open>f"{ch}{_SEP}{ver}"\<close>.\<close>

definition blob_key :: "lg_env \<Rightarrow> pyval \<Rightarrow> pyval \<Rightarrow> pystr" where
  "blob_key E ch ver = py_str E ch @ SEP # py_str E ver"

definition dumps_list :: "lg_env \<Rightarrow> pyval \<Rightarrow> exc + pyval" where
  "dumps_list E v = bindE (dumps_typed E v) (\<lambda>(t, b). Inr (PList [PStr t, PBytes b]))"

definition loads_item :: "lg_env \<Rightarrow> pyval \<Rightarrow> pystr \<Rightarrow> exc + pyval" where
  "loads_item E saved key = bindE (getitem saved key) (\<lambda>x. bindE (tuple_of x) (loads_typed E))"

section \<open>Store access\<close>

text \<open>Reads are functions of the saver, writes are actions on it.\<close>

definition readA :: "('s \<Rightarrow> exc + 'a) \<Rightarrow> ('s, 'a) act" where
  "readA f = (\<lambda>s. (f s, s))"

definition store_get :: "'s store_ops \<Rightarrow> pystr \<Rightarrow> pystr \<Rightarrow> 's saver \<Rightarrow> exc + pyval" where
  "store_get ops ns k sv = op_get ops (sv_store sv) ns k PNone"

definition store_keys :: "'s store_ops \<Rightarrow> pystr \<Rightarrow> 's saver \<Rightarrow> pystr list" where
  "store_keys ops ns sv = op_keys ops (sv_store sv) ns"

definition store_contains :: "'s store_ops \<Rightarrow> pystr \<Rightarrow> pystr \<Rightarrow> 's saver \<Rightarrow> bool" where
  "store_contains ops ns k sv = op_contains ops (sv_store sv) ns k"

definition store_set :: "'s store_ops \<Rightarrow> pystr \<Rightarrow> pystr \<Rightarrow> pyval \<Rightarrow> ('s saver, unit) act" where
  "store_set ops ns k v sv =
     (case op_set ops (sv_store sv) ns k v of
        Inl e \<Rightarrow> (Inl e, sv) | Inr s \<Rightarrow> (Inr (), sv\<lparr>sv_store := s\<rparr>))"

definition store_delete :: "'s store_ops \<Rightarrow> pystr \<Rightarrow> pystr \<Rightarrow> ('s saver, unit) act" where
  "store_delete ops ns k sv = (Inr (), sv\<lparr>sv_store := snd (op_delete ops (sv_store sv) ns k)\<rparr>)"

definition get_many :: "'s store_ops \<Rightarrow> pystr \<Rightarrow> pystr list \<Rightarrow> 's saver \<Rightarrow> exc + pyval list" where
  "get_many ops ns ks sv =
     (case op_get_many ops of
        Some getter \<Rightarrow> getter (sv_store sv) (map (\<lambda>k. (ns, k)) ks)
      | None \<Rightarrow> mapE (\<lambda>k. store_get ops ns k sv) ks)"

definition set_many :: "'s store_ops \<Rightarrow> entry list \<Rightarrow> ('s saver, unit) act" where
  "set_many ops items =
     (if items = [] then retA ()
      else case op_set_many ops of
             Some setter \<Rightarrow> (\<lambda>sv. case setter (sv_store sv) items of
                 Inl e \<Rightarrow> (Inl e, sv) | Inr s \<Rightarrow> (Inr (), sv\<lparr>sv_store := s\<rparr>))
           | None \<Rightarrow> forA (\<lambda>(ns, k, v). store_set ops ns k v) items)"

definition delete_many :: "'s store_ops \<Rightarrow> (pystr \<times> pystr) list \<Rightarrow> ('s saver, unit) act" where
  "delete_many ops pairs =
     (if pairs = [] then retA ()
      else case op_delete_many ops of
             Some deleter \<Rightarrow> updA (\<lambda>sv. sv\<lparr>sv_store := snd (deleter (sv_store sv) pairs)\<rparr>)
           | None \<Rightarrow> forA (\<lambda>(ns, k). store_delete ops ns k) pairs)"

definition delete_namespace :: "'s store_ops \<Rightarrow> pystr \<Rightarrow> ('s saver, unit) act" where
  "delete_namespace ops ns =
     (case op_delete_namespace ops of
        Some deleter \<Rightarrow> updA (\<lambda>sv. sv\<lparr>sv_store := snd (deleter (sv_store sv) ns)\<rparr>)
      | None \<Rightarrow> bindA (askA (store_keys ops ns)) (\<lambda>ks. delete_many ops (map (\<lambda>k. (ns, k)) ks)))"

text \<open>\<open>_namespaces\<close> and \<open>_keys\<close>: the \<open>prefix\<close> argument is tried until a store rejects it.\<close>

definition namespaces :: "'s store_ops \<Rightarrow> pystr \<Rightarrow> ('s saver, pystr list) act" where
  "namespaces ops pre sv =
     (let filtered = filter (\<lambda>ns. startswith ns pre) (op_namespaces ops (sv_store sv))
      in if store_takes_prefix sv then
           (case op_namespaces_prefix ops (sv_store sv) pre of
              Inr matched \<Rightarrow> (Inr matched, sv)
            | Inl e \<Rightarrow> if e = TypeError then (Inr filtered, sv\<lparr>store_takes_prefix := False\<rparr>)
                       else (Inl e, sv))
         else (Inr filtered, sv))"

definition keys_with_prefix :: "'s store_ops \<Rightarrow> pystr \<Rightarrow> pystr \<Rightarrow> ('s saver, pystr list) act" where
  "keys_with_prefix ops ns pre sv =
     (let filtered = filter (\<lambda>k. startswith k pre) (op_keys ops (sv_store sv) ns)
      in if store_takes_prefix sv then
           (case op_keys_prefix ops (sv_store sv) ns pre of
              Inr matched \<Rightarrow> (Inr matched, sv)
            | Inl e \<Rightarrow> if e = TypeError then (Inr filtered, sv\<lparr>store_takes_prefix := False\<rparr>)
                       else (Inl e, sv))
         else (Inr filtered, sv))"

definition thread_namespaces :: "'s store_ops \<Rightarrow> string \<Rightarrow> pystr \<Rightarrow> ('s saver, pystr list) act" where
  "thread_namespaces ops kind thread_id =
     bindA (namespaces ops (lit kind @ SEP # thread_id @ [SEP])) (\<lambda>nss.
       retA (filter (\<lambda>ns. take 1 (drop 1 (split_on SEP ns)) = [thread_id]) nss))"

end
