(* ===== verification/Saver_Ops.thy ===== *)
theory Saver_Ops
  imports Saver
begin

text \<open>
  The checkpoint operations of \<^verbatim>\<open>src/python/swarmstate/integrations/langgraph.py\<close>: \<open>put\<close>,
  \<open>put_writes\<close>, \<open>get_tuple\<close> and \<open>list\<close> with their helpers, and the retention run \<open>put\<close> ends with.
  \<open>list\<close> is a generator in the source; here it is the list of everything it yields.
\<close>

section \<open>Reading\<close>

text \<open>The value of a channel blob, \<open>["v", type, bytes]\<close> or \<open>["empty"]\<close>.\<close>

definition blob_value :: "lg_env \<Rightarrow> pyval \<Rightarrow> exc + pyval option" where
  "blob_value E blob =
     (if \<not> truthy blob then Inr None
      else case blob of
             PList (x # rest) \<Rightarrow>
               if x = PStr (lit ''v'')
               then (case rest of a # b # _ \<Rightarrow> bindE (loads_typed E [a, b]) (\<lambda>v. Inr (Some v))
                     | _ \<Rightarrow> Inl IndexError)
               else Inr None
           | _ \<Rightarrow> Inl TypeError)"

text \<open>\<open>{ch: value for (ch, _), blob in zip(versions, blobs) if blob and blob[0] == "v"}\<close>.\<close>

definition blob_values ::
  "lg_env \<Rightarrow> (pyval \<times> pyval) list \<Rightarrow> pyval list \<Rightarrow> exc + (pyval, pyval) dict" where
  "blob_values E versions blobs =
     bindE (mapE (\<lambda>((ch, _), blob). bindE (blob_value E blob) (\<lambda>r. Inr (ch, r))) (zip versions blobs))
       (\<lambda>rs. Inr (dict_of (List.map_filter (\<lambda>(ch, r). case r of None \<Rightarrow> None | Some v \<Rightarrow> Some (ch, v)) rs)))"

definition attach_values ::
  "lg_env \<Rightarrow> pyval \<Rightarrow> (pyval \<times> pyval) list \<Rightarrow> pyval list \<Rightarrow> exc + pyval" where
  "attach_values E checkpoint versions blobs =
     bindE (blob_values E versions blobs) (\<lambda>values.
       Inr (with_key checkpoint (lit ''channel_values'') (PDict values)))"

definition channel_versions :: "pyval \<Rightarrow> exc + (pyval \<times> pyval) list" where
  "channel_versions checkpoint =
     bindE (get_default checkpoint (lit ''channel_versions'') (PDict [])) dict_items"

definition read_blobs ::
  "'s store_ops \<Rightarrow> lg_env \<Rightarrow> pystr \<Rightarrow> pystr \<Rightarrow> (pyval \<times> pyval) list \<Rightarrow> 's saver \<Rightarrow> exc + pyval list" where
  "read_blobs ops E thread_id checkpoint_ns versions =
     get_many ops (blobs_ns thread_id checkpoint_ns) (map (\<lambda>(ch, ver). blob_key E ch ver) versions)"

text \<open>\<open>keys.sort(key=_write_order)\<close>.\<close>

definition sort_writes :: "pystr list \<Rightarrow> exc + pystr list" where
  "sort_writes ks = bindE (mapE write_order ks) (\<lambda>os. Inr (map snd (sort_key fst (zip os ks))))"

text \<open>\<open>_decode_writes\<close>; \<open>channels\<close> is a set, \<open>None\<close> for all of them.\<close>

fun decode_writes ::
  "lg_env \<Rightarrow> pyval list option \<Rightarrow> pyval list \<Rightarrow> exc + (pyval \<times> pyval \<times> pyval) list" where
  "decode_writes E channels [] = Inr []"
| "decode_writes E channels (saved_write # raw) =
     (if saved_write = PNone then decode_writes E channels raw
      else bindE (tuple_of saved_write) (\<lambda>parts.
        case parts of
          [task_id, channel, tv, task_path] \<Rightarrow>
            if (case channels of None \<Rightarrow> False | Some cs \<Rightarrow> channel \<notin> set cs)
            then decode_writes E channels raw
            else bindE (bindE (tuple_of tv) (loads_typed E)) (\<lambda>v.
                   bindE (decode_writes E channels raw) (\<lambda>ws. Inr ((task_id, channel, v) # ws)))
        | _ \<Rightarrow> Inl (ValueError ''unpack'')))"

definition parent_config :: "pystr \<Rightarrow> pystr \<Rightarrow> pyval \<Rightarrow> config option" where
  "parent_config thread_id checkpoint_ns parent_id =
     (if truthy parent_id then Some (mk_config thread_id checkpoint_ns parent_id) else None)"

definition build_tuple ::
  "'s store_ops \<Rightarrow> lg_env \<Rightarrow> pystr \<Rightarrow> pystr \<Rightarrow> pystr \<Rightarrow> pyval \<Rightarrow> pyval \<Rightarrow> 's saver \<Rightarrow> exc + ckpt_tuple" where
  "build_tuple ops E thread_id checkpoint_ns checkpoint_id saved metadata sv =
     bindE (loads_item E saved (lit ''cp'')) (\<lambda>cp0.
     bindE (if incremental sv
            then bindE (py_in (PStr (lit ''channel_values'')) cp0) (\<lambda>has.
                   if has then Inr cp0
                   else bindE (channel_versions cp0) (\<lambda>versions.
                        bindE (read_blobs ops E thread_id checkpoint_ns versions sv) (\<lambda>blobs.
                          attach_values E cp0 versions blobs)))
            else Inr cp0) (\<lambda>checkpoint.
     bindE (if metadata = PNone then loads_item E saved (lit ''md'') else Inr metadata) (\<lambda>md.
     let wns = writes_ns thread_id checkpoint_ns checkpoint_id;
         ks = store_keys ops wns sv
     in bindE (if length ks > 1 then sort_writes ks else Inr ks) (\<lambda>sorted_ks.
        bindE (get_many ops wns sorted_ks sv) (\<lambda>raw.
        bindE (decode_writes E None raw) (\<lambda>pending.
        bindE (get_key saved (lit ''parent'')) (\<lambda>parent_id.
          Inr \<lparr>t_config = mk_config thread_id checkpoint_ns (PStr checkpoint_id),
               t_checkpoint = checkpoint, t_metadata = md,
               t_parent_config = parent_config thread_id checkpoint_ns parent_id,
               t_pending_writes = pending\<rparr>)))))))"

text \<open>\<open>_resolve\<close>: the requested or the latest checkpoint; a missing or dangling latest pointer is
  replaced by the greatest id found in the store.\<close>

definition cfg_ns :: "config \<Rightarrow> pystr" where
  "cfg_ns config = (case cfg_checkpoint_ns config of None \<Rightarrow> [] | Some n \<Rightarrow> n)"

definition cfg_id :: "config \<Rightarrow> pyval" where
  "cfg_id config = (case cfg_checkpoint_id config of None \<Rightarrow> PNone | Some v \<Rightarrow> v)"

definition resolve_latest ::
  "'s store_ops \<Rightarrow> pystr \<Rightarrow> pystr \<Rightarrow> ('s saver, (pystr \<times> pyval) option) act" where
  "resolve_latest ops thread_id checkpoint_ns =
     (let ns = ckpt_ns thread_id checkpoint_ns; lkey = latest_key thread_id checkpoint_ns
      in bindA (readA (store_get ops LATEST_NS lkey)) (\<lambda>ptr.
         bindA (if truthy ptr
                then bindA (liftE (as_str ptr)) (\<lambda>cid.
                       bindA (readA (store_get ops ns cid)) (\<lambda>saved. retA (cid, saved)))
                else retA ([], PNone)) (\<lambda>(cid, saved).
         if saved \<noteq> PNone then retA (Some (cid, saved))
         else bindA (askA (store_keys ops ns)) (\<lambda>ks.
                case max_str ks of
                  None \<Rightarrow> retA None
                | Some newest \<Rightarrow>
                    thenA (store_set ops LATEST_NS lkey (PStr newest)) (retA (Some (newest, PNone)))))))"

definition resolve ::
  "'s store_ops \<Rightarrow> lg_env \<Rightarrow> config \<Rightarrow> ('s saver, (pystr \<times> pystr \<times> pystr \<times> pyval) option) act" where
  "resolve ops E config =
     bindA (liftE (need (cfg_thread_id config))) (\<lambda>thread_id.
     let checkpoint_ns = cfg_ns config; ns = ckpt_ns thread_id checkpoint_ns;
         wanted = get_checkpoint_id E config
     in bindA (if truthy wanted then bindA (liftE (as_str wanted)) (\<lambda>cid. retA (Some (cid, PNone)))
               else bindA (askA store_indexes_max_key) (\<lambda>indexed.
                 if indexed
                 then bindA (askA (\<lambda>sv. op_max_key ops (sv_store sv) ns)) (\<lambda>newest.
                        case newest of
                          None \<Rightarrow> retA None
                        | Some cid \<Rightarrow> if cid = [] then retA None else retA (Some (cid, PNone)))
                 else resolve_latest ops thread_id checkpoint_ns)) (\<lambda>r.
        case r of
          None \<Rightarrow> retA None
        | Some (cid, saved0) \<Rightarrow>
            bindA (if saved0 = PNone then readA (store_get ops ns cid) else retA saved0) (\<lambda>saved.
              retA (if saved = PNone then None else Some (thread_id, checkpoint_ns, cid, saved)))))"

definition get_tuple ::
  "'s store_ops \<Rightarrow> lg_env \<Rightarrow> config \<Rightarrow> ('s saver, ckpt_tuple option) act" where
  "get_tuple ops E config =
     bindA (resolve ops E config) (\<lambda>r.
       case r of
         None \<Rightarrow> retA None
       | Some (thread_id, checkpoint_ns, checkpoint_id, saved) \<Rightarrow>
           bindA (readA (build_tuple ops E thread_id checkpoint_ns checkpoint_id saved PNone)) (\<lambda>t.
             retA (Some t)))"

section \<open>Listing\<close>

definition list_targets ::
  "'s store_ops \<Rightarrow> config option \<Rightarrow> ('s saver, (pystr \<times> pystr \<times> pystr) list) act" where
  "list_targets ops config =
     (case config of
        None \<Rightarrow>
          bindA (namespaces ops (lit ''ck'' @ [SEP])) (\<lambda>nss.
            retA (List.map_filter (\<lambda>ns. case split_on SEP ns of
                      [_, t, c] \<Rightarrow> Some (t, c, ns) | _ \<Rightarrow> None) nss))
      | Some cfg \<Rightarrow>
          bindA (liftE (need (cfg_thread_id cfg))) (\<lambda>thread_id.
          bindA (namespaces ops (lit ''ck'' @ SEP # thread_id @ [SEP])) (\<lambda>nss.
            retA (List.map_filter (\<lambda>ns. case split_on SEP ns of
                      [_, t, c] \<Rightarrow>
                        if t \<noteq> thread_id then None
                        else if (case cfg_checkpoint_ns cfg of None \<Rightarrow> False | Some want \<Rightarrow> c \<noteq> want) then None
                        else Some (t, c, ns)
                    | _ \<Rightarrow> None) nss))))"

text \<open>\<open>_metadata_if_matching\<close>; the result \<open>None\<close> (a Python value) drops the entry.\<close>

fun all_match :: "lg_env \<Rightarrow> pyval \<Rightarrow> (pystr \<times> pyval) list \<Rightarrow> exc + bool" where
  "all_match E md [] = Inr True"
| "all_match E md ((k, v) # fs) =
     bindE (get_key md k) (\<lambda>x. if py_eq E x v then all_match E md fs else Inr False)"

definition metadata_if_matching ::
  "lg_env \<Rightarrow> pyval \<Rightarrow> (pystr, pyval) dict option \<Rightarrow> exc + pyval" where
  "metadata_if_matching E saved flt =
     (if saved = PNone then Inr PNone
      else bindE (loads_item E saved (lit ''md'')) (\<lambda>md.
        case flt of
          None \<Rightarrow> Inr md
        | Some fs \<Rightarrow> bindE (all_match E md fs) (\<lambda>ok. Inr (if ok then md else PNone))))"

text \<open>The inner loop: the tuples yielded, the running count, and whether the limit stopped it.\<close>

fun list_ids ::
  "'s store_ops \<Rightarrow> lg_env \<Rightarrow> (pystr, pyval) dict option \<Rightarrow> pyval \<Rightarrow> int option \<Rightarrow>
   pystr \<Rightarrow> pystr \<Rightarrow> pystr \<Rightarrow> pystr list \<Rightarrow> int \<Rightarrow> 's saver \<Rightarrow> exc + (ckpt_tuple list \<times> int \<times> bool)" where
  "list_ids ops E flt before lim t c ns [] n sv = Inr ([], n, False)"
| "list_ids ops E flt before lim t c ns (cid # ids) n sv =
     bindE (if truthy before then bindE (as_str before) (\<lambda>b. Inr (b \<le> cid)) else Inr False) (\<lambda>skip.
     if skip then list_ids ops E flt before lim t c ns ids n sv
     else
       bindE (store_get ops ns cid sv) (\<lambda>saved.
       bindE (metadata_if_matching E saved flt) (\<lambda>md.
       if md = PNone then list_ids ops E flt before lim t c ns ids n sv
       else
         bindE (build_tuple ops E t c cid saved md sv) (\<lambda>tup.
         if (case lim of None \<Rightarrow> False | Some l \<Rightarrow> n + 1 \<ge> l) then Inr ([tup], n + 1, True)
         else bindE (list_ids ops E flt before lim t c ns ids (n + 1) sv) (\<lambda>(ts, m, stop).
                Inr (tup # ts, m, stop))))))"

fun list_loop ::
  "'s store_ops \<Rightarrow> lg_env \<Rightarrow> (pystr, pyval) dict option \<Rightarrow> pyval \<Rightarrow> pyval \<Rightarrow> int option \<Rightarrow>
   (pystr \<times> pystr \<times> pystr) list \<Rightarrow> int \<Rightarrow> 's saver \<Rightarrow> exc + ckpt_tuple list" where
  "list_loop ops E flt want before lim [] n sv = Inr []"
| "list_loop ops E flt want before lim ((t, c, ns) # targets) n sv =
     bindE (if truthy want then bindE (as_str want) (\<lambda>w. Inr [w])
            else Inr (rev (sort (store_keys ops ns sv)))) (\<lambda>ids.
     bindE (list_ids ops E flt before lim t c ns ids n sv) (\<lambda>(ts, m, stop).
       if stop then Inr ts
       else bindE (list_loop ops E flt want before lim targets m sv) (\<lambda>us. Inr (ts @ us))))"

definition list_checkpoints ::
  "'s store_ops \<Rightarrow> lg_env \<Rightarrow> config option \<Rightarrow> (pystr, pyval) dict option \<Rightarrow> config option \<Rightarrow> int option \<Rightarrow>
   ('s saver, ckpt_tuple list) act" where
  "list_checkpoints ops E config flt before lim =
     (let want_id = (case config of None \<Rightarrow> PNone | Some c \<Rightarrow> get_checkpoint_id E c);
          before_id = (case before of None \<Rightarrow> PNone | Some c \<Rightarrow> get_checkpoint_id E c)
      in bindA (list_targets ops config) (\<lambda>targets.
           readA (list_loop ops E flt want_id before_id lim targets 0)))"

section \<open>Retention\<close>

text \<open>\<open>_channel_values\<close>: the values a stored checkpoint holds for a set of channels.\<close>

definition channel_values ::
  "'s store_ops \<Rightarrow> lg_env \<Rightarrow> pystr \<Rightarrow> pystr \<Rightarrow> pyval \<Rightarrow> pyval list \<Rightarrow> 's saver \<Rightarrow> exc + (pyval, pyval) dict" where
  "channel_values ops E thread_id checkpoint_ns saved channels sv =
     bindE (loads_item E saved (lit ''cp'')) (\<lambda>checkpoint.
     bindE (py_in (PStr (lit ''channel_values'')) checkpoint) (\<lambda>has.
     if has then
       bindE (getitem checkpoint (lit ''channel_values'')) (\<lambda>stored.
       bindE (mapE (\<lambda>ch. bindE (py_in ch stored) (\<lambda>b.
                if b then bindE (getitem_val stored ch) (\<lambda>v. Inr (Some (ch, v))) else Inr None)) channels)
         (\<lambda>found. Inr (dict_of (List.map_filter id found))))
     else
       bindE (channel_versions checkpoint) (\<lambda>all_versions.
       let versions = filter (\<lambda>(ch, ver). ch \<in> set channels) all_versions
       in bindE (read_blobs ops E thread_id checkpoint_ns versions sv) (\<lambda>blobs.
            blob_values E versions blobs))))"

text \<open>
  The walk of \<open>_delta_ancestors\<close> from one survivor towards its ancestors. \<open>records\<close> is the cache of
  stored rows, \<open>needed\<close> what has been collected. The chain of parents in a store may be cyclic, and
  then the source does not return: the walk takes \<open>walk_fuel\<close> steps at most, and \<open>Diverged\<close> (no
  Python exception) is the outcome when they do not suffice.
\<close>

fun delta_walk ::
  "nat \<Rightarrow> 's store_ops \<Rightarrow> lg_env \<Rightarrow> pystr \<Rightarrow> pystr \<Rightarrow> pyval list \<Rightarrow> pyval \<Rightarrow> pystr list \<Rightarrow>
   (pystr, pyval) dict \<Rightarrow> 's saver \<Rightarrow> exc + (pystr list \<times> (pystr, pyval) dict)" where
  "delta_walk 0 ops E t c missing cursor needed records sv =
     (if missing \<noteq> [] \<and> truthy cursor then Inl Diverged else Inr (needed, records))"
| "delta_walk (Suc n) ops E t c missing cursor needed records sv =
     (if missing = [] \<or> \<not> truthy cursor then Inr (needed, records)
      else bindE (as_str cursor) (\<lambda>cur.
        bindE (case dget records cur of
                 None \<Rightarrow> bindE (store_get ops (ckpt_ns t c) cur sv) (\<lambda>r. Inr (dset cur r records))
               | Some _ \<Rightarrow> Inr records) (\<lambda>records'.
        let ancestor = the_default PNone (dget records' cur)
        in if ancestor = PNone then Inr (needed, records')
           else
             bindE (channel_values ops E t c ancestor missing sv) (\<lambda>present.
             bindE (get_key ancestor (lit ''parent'')) (\<lambda>parent.
               delta_walk n ops E t c (filter (\<lambda>ch. ch \<notin> set (dkeys present)) missing) parent
                 (List.insert cur needed) records' sv)))))"

fun delta_ancestors ::
  "'s store_ops \<Rightarrow> lg_env \<Rightarrow> pystr \<Rightarrow> pystr \<Rightarrow> pystr list \<Rightarrow> pystr list \<Rightarrow> (pystr, pyval) dict \<Rightarrow>
   's saver \<Rightarrow> exc + (pystr list \<times> (pystr, pyval) dict)" where
  "delta_ancestors ops E t c [] needed records sv = Inr (needed, records)"
| "delta_ancestors ops E t c (cid # survivors) needed records sv =
     (let saved = the_default PNone (dget records cid)
      in if saved = PNone then delta_ancestors ops E t c survivors needed records sv
         else
           bindE (loads_item E saved (lit ''md'')) (\<lambda>md.
           bindE (if is_dict md then get_key md DELTA_COUNTERS else Inr PNone) (\<lambda>delta.
           if \<not> truthy delta then delta_ancestors ops E t c survivors needed records sv
           else
             bindE (tuple_of delta) (\<lambda>chs.
             bindE (channel_values ops E t c saved (remdups chs) sv) (\<lambda>present.
             bindE (get_key saved (lit ''parent'')) (\<lambda>parent.
             bindE (delta_walk (walk_fuel E) ops E t c
                      (filter (\<lambda>ch. ch \<notin> set (dkeys present)) (remdups chs)) parent needed records sv)
               (\<lambda>(needed', records'). delta_ancestors ops E t c survivors needed' records' sv)))))))"

definition referenced_blobs ::
  "'s store_ops \<Rightarrow> lg_env \<Rightarrow> pystr \<Rightarrow> pystr \<Rightarrow> pystr list \<Rightarrow> (pystr, pyval) dict \<Rightarrow> 's saver \<Rightarrow>
   exc + pystr list" where
  "referenced_blobs ops E t c ids records sv =
     (let missing = filter (\<lambda>i. dget records i = None) ids
      in bindE (if missing = [] then Inr records
                else bindE (get_many ops (ckpt_ns t c) missing sv) (\<lambda>rs.
                       Inr (fold (\<lambda>(k, v). dset k v) (zip missing rs) records))) (\<lambda>all_records.
         bindE (mapE (\<lambda>i. let saved = the_default PNone (dget all_records i) in
                  if saved = PNone then Inr []
                  else bindE (loads_item E saved (lit ''cp'')) (\<lambda>checkpoint.
                       bindE (channel_versions checkpoint) (\<lambda>versions.
                         Inr (map (\<lambda>(ch, ver). blob_key E ch ver) versions)))) ids)
           (\<lambda>kss. Inr (concat kss))))"

text \<open>\<open>v in set(ids)\<close> for a stored value; lists and dictionaries are unhashable.\<close>

fun in_str_set :: "pyval \<Rightarrow> pystr list \<Rightarrow> exc + bool" where
  "in_str_set (PStr s) ids = Inr (s \<in> set ids)"
| "in_str_set (PList _) ids = Inl TypeError"
| "in_str_set (PDict _) ids = Inl TypeError"
| "in_str_set _ ids = Inr False"

definition drop_checkpoints ::
  "'s store_ops \<Rightarrow> lg_env \<Rightarrow> pystr \<Rightarrow> pystr \<Rightarrow> pystr list \<Rightarrow> pystr list \<Rightarrow> (pystr, pyval) dict \<Rightarrow>
   ('s saver, unit) act" where
  "drop_checkpoints ops E t c doomed kept records =
     (let cns = ckpt_ns t c; bns = blobs_ns t c; lkey = latest_key t c
      in thenA (bindA (askA incremental) (\<lambda>incr.
           if incr then
             bindA (readA (referenced_blobs ops E t c kept records)) (\<lambda>keep.
             bindA (askA (store_keys ops bns)) (\<lambda>bs.
               delete_many ops (map (\<lambda>b. (bns, b)) (filter (\<lambda>b. b \<notin> set keep) bs))))
           else retA ()))
         (thenA (forA (\<lambda>cid. delete_namespace ops (writes_ns t c cid)) doomed)
         (thenA (delete_many ops (map (\<lambda>cid. (cns, cid)) doomed))
         (bindA (askA store_indexes_max_key) (\<lambda>indexed.
           if indexed then retA ()
           else
             bindA (readA (store_get ops LATEST_NS lkey)) (\<lambda>ptr.
             bindA (liftE (in_str_set ptr doomed)) (\<lambda>dangling.
             if dangling then
               thenA (case max_str kept of
                        Some newest \<Rightarrow> store_set ops LATEST_NS lkey (PStr newest)
                      | None \<Rightarrow> store_delete ops LATEST_NS lkey)
                 (updA (\<lambda>sv. sv\<lparr>max_seen := ddel (t, c) (max_seen sv)\<rparr>))
             else retA ())))))))"

text \<open>\<open>ids[-keep:]\<close>.\<close>

definition last_ids :: "int \<Rightarrow> 'a list \<Rightarrow> 'a list" where
  "last_ids keep ids =
     (if keep \<le> 0 then drop (nat (- keep)) ids else drop (length ids - nat keep) ids)"

definition trim ::
  "'s store_ops \<Rightarrow> lg_env \<Rightarrow> pystr \<Rightarrow> pystr \<Rightarrow> pystr list \<Rightarrow> int \<Rightarrow> ('s saver, int) act" where
  "trim ops E t c ids keep =
     (let survivors = last_ids keep ids
      in bindA (readA (get_many ops (ckpt_ns t c) survivors)) (\<lambda>rs.
         bindA (readA (delta_ancestors ops E t c survivors [] (dict_of (zip survivors rs))))
           (\<lambda>(needed, records).
         let kept = remdups (survivors @ needed);
             doomed = filter (\<lambda>i. i \<notin> set kept) ids
         in thenA (if doomed \<noteq> [] then drop_checkpoints ops E t c doomed (sort kept) records else retA ())
              (retA (int (length kept))))))"

definition prune_thread ::
  "'s store_ops \<Rightarrow> lg_env \<Rightarrow> pystr \<Rightarrow> pystr \<Rightarrow> ('s saver, unit) act" where
  "prune_thread ops E t c =
     bindA (askA max_checkpoints_per_thread) (\<lambda>mx.
       case mx of
         None \<Rightarrow> retA ()
       | Some limit \<Rightarrow>
           bindA (askA (\<lambda>sv. max limit (the_default limit (dget (prune_floor sv) (t, c))))) (\<lambda>floor.
           bindA (askA (store_keys ops (ckpt_ns t c))) (\<lambda>ids.
           if int (length ids) \<le> floor + max PRUNE_SLACK (floor div 4) then retA ()
           else bindA (trim ops E t c (sort ids) limit) (\<lambda>kept.
                  updA (\<lambda>sv. sv\<lparr>prune_floor := bounded_set (prune_floor sv) (t, c) kept\<rparr>)))))"

section \<open>Writing\<close>

definition encode_blob ::
  "lg_env \<Rightarrow> pyval \<Rightarrow> pystr \<times> pyval \<Rightarrow> exc + pystr \<times> pyval" where
  "encode_blob E values = (\<lambda>(ch, ver).
     bindE (py_in (PStr ch) values) (\<lambda>has.
     if has then bindE (getitem values ch) (\<lambda>v. bindE (dumps_typed E v) (\<lambda>(vt, vb).
            Inr (blob_key E (PStr ch) ver, PList [PStr (lit ''v''), PStr vt, PBytes vb])))
     else Inr (blob_key E (PStr ch) ver, PList [PStr (lit ''empty'')])))"

text \<open>\<open>{**checkpoint}\<close> requires a mapping.\<close>

definition copy_dict :: "pyval \<Rightarrow> exc + pyval" where
  "copy_dict v = (if is_dict v then Inr v else Inl TypeError)"

definition encode_put ::
  "lg_env \<Rightarrow> bool \<Rightarrow> config \<Rightarrow> pyval \<Rightarrow> pyval \<Rightarrow> (pystr, pyval) dict \<Rightarrow>
   exc + (pystr \<times> pystr \<times> pystr \<times> pyval \<times> (pystr \<times> pyval) list)" where
  "encode_put E incr config checkpoint metadata new_versions =
     bindE (need (cfg_thread_id config)) (\<lambda>thread_id.
     bindE (bindE (getitem checkpoint (lit ''id'')) as_str) (\<lambda>cid.
     bindE (if incr then
              bindE (copy_dict checkpoint) (\<lambda>cp.
              bindE (get_default cp (lit ''channel_values'') (PDict [])) (\<lambda>values.
              bindE (mapE (encode_blob E values) new_versions) (\<lambda>blobs.
                Inr (without_key cp (lit ''channel_values''), blobs))))
            else Inr (checkpoint, [])) (\<lambda>(cp, blobs).
     bindE (dumps_list E cp) (\<lambda>cp_enc.
     bindE (bindE (get_checkpoint_metadata E config metadata) (dumps_list E)) (\<lambda>md_enc.
       Inr (thread_id, cfg_ns config, cid,
            PDict [(PStr (lit ''cp''), cp_enc), (PStr (lit ''md''), md_enc),
                   (PStr (lit ''parent''), cfg_id config)], blobs))))))"

text \<open>\<open>_put_rows\<close>: the rows of a put and its channel blobs; the hint decides whether the latest
  pointer is published with them.\<close>

definition put_rows ::
  "lg_env \<Rightarrow> config \<Rightarrow> pyval \<Rightarrow> pyval \<Rightarrow> (pystr, pyval) dict \<Rightarrow>
   ('s saver, pystr \<times> pystr \<times> pystr \<times> entry list \<times> (pystr \<times> pyval) list) act" where
  "put_rows E config checkpoint metadata new_versions =
     bindA (askA incremental) (\<lambda>incr.
     bindA (liftE (encode_put E incr config checkpoint metadata new_versions))
       (\<lambda>(t, c, cid, rec, blobs).
     let row = (ckpt_ns t c, cid, rec)
     in bindA (askA store_indexes_max_key) (\<lambda>indexed.
        bindA (askA (\<lambda>sv. dget (max_seen sv) (t, c))) (\<lambda>seen.
        if \<not> indexed \<and> (case seen of None \<Rightarrow> True | Some s \<Rightarrow> cid > s) then
          thenA (updA (\<lambda>sv. sv\<lparr>max_seen := bounded_set (max_seen sv) (t, c) cid\<rparr>))
            (retA (t, c, cid, [row, (LATEST_NS, latest_key t c, PStr cid)], blobs))
        else retA (t, c, cid, [row], blobs)))))"

definition put ::
  "'s store_ops \<Rightarrow> lg_env \<Rightarrow> config \<Rightarrow> pyval \<Rightarrow> pyval \<Rightarrow> (pystr, pyval) dict \<Rightarrow> ('s saver, config) act" where
  "put ops E config checkpoint metadata new_versions =
     bindA (put_rows E config checkpoint metadata new_versions) (\<lambda>(t, c, cid, rows, blobs).
       thenA (if blobs \<noteq> [] then
                bindA (askA (\<lambda>sv. filter (\<lambda>(k, v). \<not> store_contains ops (blobs_ns t c) k sv) blobs)) (\<lambda>fresh.
                  set_many ops (map (\<lambda>(k, v). (blobs_ns t c, k, v)) fresh))
              else retA ())
      (thenA (set_many ops rows)
      (bindA (askA max_checkpoints_per_thread) (\<lambda>mx.
        thenA (if mx \<noteq> None then prune_thread ops E t c else retA ())
          (retA (mk_config t c (PStr cid)))))))"

text \<open>\<open>put_writes\<close>: positional writes are write-once, special (negative) indices overwrite.\<close>

definition write_entry ::
  "lg_env \<Rightarrow> pystr \<Rightarrow> pystr \<Rightarrow> pystr \<Rightarrow> pyval \<Rightarrow> exc + pyval" where
  "write_entry E task_id task_path channel value =
     bindE (dumps_list E value) (\<lambda>tv. Inr (PList [PStr task_id, PStr channel, tv, PStr task_path]))"

definition write_index :: "lg_env \<Rightarrow> nat \<Rightarrow> pystr \<Rightarrow> int" where
  "write_index E idx channel = the_default (int idx) (WRITES_IDX_MAP E channel)"

definition write_key :: "pystr \<Rightarrow> int \<Rightarrow> pystr" where
  "write_key task_id widx = task_id @ SEP # show_int widx"

fun write_batch ::
  "'s store_ops \<Rightarrow> lg_env \<Rightarrow> pystr \<Rightarrow> pystr \<Rightarrow> pystr \<Rightarrow> nat \<Rightarrow> (pystr \<times> pyval) list \<Rightarrow> 's saver \<Rightarrow> exc + entry list" where
  "write_batch ops E ns task_id task_path idx [] sv = Inr []"
| "write_batch ops E ns task_id task_path idx ((channel, value) # ws) sv =
     (let widx = write_index E idx channel; key = write_key task_id widx
      in if widx \<ge> 0 \<and> store_contains ops ns key sv
         then write_batch ops E ns task_id task_path (Suc idx) ws sv
         else bindE (write_entry E task_id task_path channel value) (\<lambda>v.
              bindE (write_batch ops E ns task_id task_path (Suc idx) ws sv) (\<lambda>rows.
                Inr ((ns, key, v) # rows))))"

definition put_writes ::
  "'s store_ops \<Rightarrow> lg_env \<Rightarrow> config \<Rightarrow> (pystr \<times> pyval) list \<Rightarrow> pystr \<Rightarrow> pystr \<Rightarrow> ('s saver, unit) act" where
  "put_writes ops E config writes task_id task_path =
     bindA (liftE (need (cfg_thread_id config))) (\<lambda>t.
     bindA (liftE (need (cfg_checkpoint_id config))) (\<lambda>cid.
     let ns = writes_ns t (cfg_ns config) (py_str E cid)
     in bindA (readA (write_batch ops E ns task_id task_path 0 writes)) (set_many ops)))"

end
