(* ===== verification/Saver_Threads.thy ===== *)
theory Saver_Threads
  imports Saver_Ops
begin

text \<open>
  Thread management of \<^verbatim>\<open>src/python/swarmstate/integrations/langgraph.py\<close>: \<open>delete_thread\<close>,
  \<open>copy_thread\<close>, \<open>delete_for_runs\<close>, \<open>prune\<close>, \<open>get_delta_channel_history\<close>, and the native async
  paths, whose store calls are the \<open>a\<close> twins of the store's operations and are awaited in order
  (no other task runs in between).
\<close>

section \<open>Deleting\<close>

definition delete_thread :: "'s store_ops \<Rightarrow> pystr \<Rightarrow> ('s saver, unit) act" where
  "delete_thread ops thread_id =
     thenA (forA (\<lambda>kind. bindA (thread_namespaces ops kind thread_id) (forA (delete_namespace ops)))
              [''ck'', ''wr'', ''bl''])
    (thenA (bindA (askA store_indexes_max_key) (\<lambda>indexed.
              if indexed then retA ()
              else bindA (keys_with_prefix ops LATEST_NS (thread_id @ [SEP])) (\<lambda>ks.
                     delete_many ops (map (\<lambda>k. (LATEST_NS, k)) ks))))
      (updA (\<lambda>sv. sv\<lparr>max_seen := filter (\<lambda>(k, v). fst k \<noteq> thread_id) (max_seen sv),
                     prune_floor := filter (\<lambda>(k, v). fst k \<noteq> thread_id) (prune_floor sv)\<rparr>)))"

section \<open>Copying\<close>

definition retarget :: "lg_env \<Rightarrow> pyval \<Rightarrow> pystr \<Rightarrow> pystr \<Rightarrow> exc + pyval" where
  "retarget E saved source target =
     bindE (loads_item E saved (lit ''md'')) (\<lambda>md.
       if \<not> is_dict md then Inr saved
       else bindE (get_key md (lit ''thread_id'')) (\<lambda>t.
         if t \<noteq> PStr source then Inr saved
         else bindE (dumps_list E (with_key md (lit ''thread_id'') (PStr target))) (\<lambda>md_enc.
                Inr (with_key saved (lit ''md'') md_enc))))"

fun copy_rows ::
  "lg_env \<Rightarrow> bool \<Rightarrow> pystr \<Rightarrow> pystr \<Rightarrow> pystr \<Rightarrow> (pystr \<times> pyval) list \<Rightarrow> exc + entry list" where
  "copy_rows E is_ck source target target_ns [] = Inr []"
| "copy_rows E is_ck source target target_ns ((key, value) # rest) =
     (if value = PNone then copy_rows E is_ck source target target_ns rest
      else bindE (if is_ck then retarget E value source target else Inr value) (\<lambda>v.
           bindE (copy_rows E is_ck source target target_ns rest) (\<lambda>rows.
             Inr ((target_ns, key, v) # rows))))"

definition copy_namespace ::
  "'s store_ops \<Rightarrow> lg_env \<Rightarrow> string \<Rightarrow> pystr \<Rightarrow> pystr \<Rightarrow> pystr \<Rightarrow> ('s saver, unit) act" where
  "copy_namespace ops E kind source target ns =
     (let target_ns = join_with SEP ((split_on SEP ns)[1 := target])
      in bindA (askA (store_keys ops ns)) (\<lambda>ks.
         bindA (readA (get_many ops ns ks)) (\<lambda>values.
         bindA (liftE (copy_rows E (kind = ''ck'') source target target_ns (zip ks values))) (set_many ops))))"

definition publish_newest :: "'s store_ops \<Rightarrow> pystr \<Rightarrow> pystr \<Rightarrow> ('s saver, unit) act" where
  "publish_newest ops target ns =
     bindA (askA (\<lambda>sv. op_max_key ops (sv_store sv) ns)) (\<lambda>newest.
       case newest of
         None \<Rightarrow> retA ()
       | Some cid \<Rightarrow>
           if cid = [] then retA ()
           else
             (case drop 2 (split_on SEP ns) of
                [] \<Rightarrow> raiseA IndexError
              | c # _ \<Rightarrow>
                  thenA (store_set ops LATEST_NS (latest_key target c) (PStr cid))
                    (updA (\<lambda>sv. sv\<lparr>max_seen := bounded_set (max_seen sv) (target, c) cid\<rparr>))))"

definition copy_thread :: "'s store_ops \<Rightarrow> lg_env \<Rightarrow> pystr \<Rightarrow> pystr \<Rightarrow> ('s saver, unit) act" where
  "copy_thread ops E source target =
     (if source = target then retA ()
      else
        thenA (forA (\<lambda>kind. bindA (thread_namespaces ops kind source)
                       (forA (copy_namespace ops E kind source target))) [''ck'', ''wr'', ''bl''])
          (bindA (askA store_indexes_max_key) (\<lambda>indexed.
            if indexed then retA ()
            else bindA (thread_namespaces ops ''ck'' target) (forA (publish_newest ops target)))))"

section \<open>Runs and pruning\<close>

text \<open>The ids of a target whose metadata names one of the runs.\<close>

fun doomed_ids ::
  "lg_env \<Rightarrow> pystr list \<Rightarrow> (pystr \<times> pyval) list \<Rightarrow> exc + pystr list" where
  "doomed_ids E wanted [] = Inr []"
| "doomed_ids E wanted ((cid, saved) # rest) =
     (if saved = PNone then doomed_ids E wanted rest
      else bindE (loads_item E saved (lit ''md'')) (\<lambda>md.
           bindE (if is_dict md then bindE (get_key md (lit ''run_id'')) (\<lambda>r. in_str_set r wanted)
                  else Inr False) (\<lambda>hit.
           bindE (doomed_ids E wanted rest) (\<lambda>ds. Inr (if hit then List.insert cid ds else ds)))))"

definition delete_runs_in ::
  "'s store_ops \<Rightarrow> lg_env \<Rightarrow> pystr list \<Rightarrow> pystr \<times> pystr \<times> pystr \<Rightarrow> ('s saver, unit) act" where
  "delete_runs_in ops E wanted = (\<lambda>(t, c, ns).
     bindA (askA (store_keys ops ns)) (\<lambda>ids.
     bindA (readA (get_many ops ns ids)) (\<lambda>saveds.
     bindA (liftE (doomed_ids E wanted (zip ids saveds))) (\<lambda>doomed.
       if doomed = [] then retA ()
       else drop_checkpoints ops E t c (sort doomed) (filter (\<lambda>i. i \<notin> set doomed) ids) []))))"

definition delete_for_runs :: "'s store_ops \<Rightarrow> lg_env \<Rightarrow> pystr list \<Rightarrow> ('s saver, unit) act" where
  "delete_for_runs ops E run_ids =
     (if run_ids = [] then retA ()
      else bindA (list_targets ops None) (forA (delete_runs_in ops E run_ids)))"

definition prune_ns :: "'s store_ops \<Rightarrow> lg_env \<Rightarrow> pystr \<Rightarrow> pystr \<Rightarrow> ('s saver, unit) act" where
  "prune_ns ops E thread_id ns =
     (case drop 2 (split_on SEP ns) of
        [] \<Rightarrow> raiseA IndexError
      | c # _ \<Rightarrow> bindA (askA (store_keys ops ns)) (\<lambda>ids.
                  thenA (trim ops E thread_id c (sort ids) 1) (retA ())))"

definition prune :: "'s store_ops \<Rightarrow> lg_env \<Rightarrow> pystr list \<Rightarrow> pystr \<Rightarrow> ('s saver, unit) act" where
  "prune ops E thread_ids strategy =
     (if strategy \<notin> {lit ''keep_latest'', lit ''delete''} then raiseA (ValueError ''strategy'')
      else forA (\<lambda>t. if strategy = lit ''delete'' then delete_thread ops t
                     else bindA (thread_namespaces ops ''ck'' t) (forA (prune_ns ops E t))) thread_ids)"

section \<open>Delta channel history\<close>

definition pending_writes ::
  "'s store_ops \<Rightarrow> lg_env \<Rightarrow> pystr \<Rightarrow> pystr \<Rightarrow> pystr \<Rightarrow> pyval list option \<Rightarrow> 's saver \<Rightarrow>
   exc + (pyval \<times> pyval \<times> pyval) list" where
  "pending_writes ops E t c cid channels sv =
     (let wns = writes_ns t c cid
      in bindE (sort_writes (store_keys ops wns sv)) (\<lambda>ks.
         bindE (get_many ops wns ks sv) (decode_writes E channels)))"

text \<open>
  The loop of \<open>get_delta_channel_history\<close>: what each ancestor adds in front of the writes
  collected so far, and the seeds found. Fuel as in \<open>delta_walk\<close>.
\<close>

fun history_walk ::
  "nat \<Rightarrow> 's store_ops \<Rightarrow> lg_env \<Rightarrow> pystr \<Rightarrow> pystr \<Rightarrow> pyval list \<Rightarrow> pyval \<Rightarrow>
   (pyval \<times> pyval \<times> pyval) list \<Rightarrow> (pyval, pyval) dict \<Rightarrow> 's saver \<Rightarrow>
   exc + ((pyval \<times> pyval \<times> pyval) list \<times> (pyval, pyval) dict)" where
  "history_walk 0 ops E t c remaining cursor collected seeds sv =
     (if truthy cursor \<and> remaining \<noteq> [] then Inl Diverged else Inr (collected, seeds))"
| "history_walk (Suc n) ops E t c remaining cursor collected seeds sv =
     (if \<not> truthy cursor \<or> remaining = [] then Inr (collected, seeds)
      else bindE (as_str cursor) (\<lambda>cur.
        bindE (store_get ops (ckpt_ns t c) cur sv) (\<lambda>saved.
        if saved = PNone then Inr (collected, seeds)
        else
          bindE (pending_writes ops E t c cur (Some remaining) sv) (\<lambda>ws.
          bindE (channel_values ops E t c saved remaining sv) (\<lambda>present.
          bindE (get_key saved (lit ''parent'')) (\<lambda>parent.
            history_walk n ops E t c (filter (\<lambda>ch. ch \<notin> set (dkeys present)) remaining) parent
              (ws @ collected) (fold (\<lambda>(k, v). dset k v) present seeds) sv))))))"

text \<open>Per channel: the writes, oldest first, and the seed if one was found.\<close>

definition get_delta_channel_history ::
  "'s store_ops \<Rightarrow> lg_env \<Rightarrow> config \<Rightarrow> pystr list \<Rightarrow>
   ('s saver, (pystr, (pyval \<times> pyval \<times> pyval) list \<times> pyval option) dict) act" where
  "get_delta_channel_history ops E config channels =
     (if channels = [] then retA []
      else bindA (resolve ops E config) (\<lambda>r.
        case r of
          None \<Rightarrow> retA (dict_of (map (\<lambda>ch. (ch, ([], None))) channels))
        | Some (t, c, cid, target) \<Rightarrow>
            bindA (liftE (get_key target (lit ''parent''))) (\<lambda>cursor.
            bindA (readA (history_walk (walk_fuel E) ops E t c (remdups (map PStr channels)) cursor [] []))
              (\<lambda>(collected, seeds).
              retA (dict_of (map (\<lambda>ch. (ch, (filter (\<lambda>(_, wch, _). wch = PStr ch) collected,
                                          dget seeds (PStr ch)))) channels))))))"

text \<open>The administrative async methods run the sync ones in a worker thread.\<close>

definition adelete_thread :: "'s store_ops \<Rightarrow> pystr \<Rightarrow> ('s saver, unit) act" where
  "adelete_thread ops thread_id = delete_thread ops thread_id"

definition acopy_thread :: "'s store_ops \<Rightarrow> lg_env \<Rightarrow> pystr \<Rightarrow> pystr \<Rightarrow> ('s saver, unit) act" where
  "acopy_thread ops E source target = copy_thread ops E source target"

definition adelete_for_runs :: "'s store_ops \<Rightarrow> lg_env \<Rightarrow> pystr list \<Rightarrow> ('s saver, unit) act" where
  "adelete_for_runs ops E run_ids = delete_for_runs ops E run_ids"

definition aprune :: "'s store_ops \<Rightarrow> lg_env \<Rightarrow> pystr list \<Rightarrow> pystr \<Rightarrow> ('s saver, unit) act" where
  "aprune ops E thread_ids strategy = prune ops E thread_ids strategy"

definition aget_delta_channel_history ::
  "'s store_ops \<Rightarrow> lg_env \<Rightarrow> config \<Rightarrow> pystr list \<Rightarrow>
   ('s saver, (pystr, (pyval \<times> pyval \<times> pyval) list \<times> pyval option) dict) act" where
  "aget_delta_channel_history ops E config channels = get_delta_channel_history ops E config channels"

section \<open>Native async paths\<close>

text \<open>The store's own batch coroutines, called without the fallbacks of the sync helpers.\<close>

definition aset_many :: "'s store_ops \<Rightarrow> entry list \<Rightarrow> ('s saver, unit) act" where
  "aset_many ops items =
     (case op_set_many ops of
        None \<Rightarrow> raiseA AttributeError
      | Some setter \<Rightarrow> (\<lambda>sv. case setter (sv_store sv) items of
            Inl e \<Rightarrow> (Inl e, sv) | Inr s \<Rightarrow> (Inr (), sv\<lparr>sv_store := s\<rparr>)))"

definition aget_many :: "'s store_ops \<Rightarrow> (pystr \<times> pystr) list \<Rightarrow> 's saver \<Rightarrow> exc + pyval list" where
  "aget_many ops pairs sv =
     (case op_get_many ops of None \<Rightarrow> Inl AttributeError | Some getter \<Rightarrow> getter (sv_store sv) pairs)"

definition aput ::
  "'s store_ops \<Rightarrow> lg_env \<Rightarrow> config \<Rightarrow> pyval \<Rightarrow> pyval \<Rightarrow> (pystr, pyval) dict \<Rightarrow> ('s saver, config) act" where
  "aput ops E config checkpoint metadata new_versions =
     bindA (put_rows E config checkpoint metadata new_versions) (\<lambda>(t, c, cid, rows, blobs).
       thenA (if blobs \<noteq> [] then
                bindA (askA (\<lambda>sv. map (\<lambda>(k, _). store_contains ops (blobs_ns t c) k sv) blobs)) (\<lambda>stored.
                  let new_blobs = map (\<lambda>((k, v), _). (blobs_ns t c, k, v))
                                    (filter (\<lambda>(_, done). \<not> done) (zip blobs stored))
                  in if new_blobs \<noteq> [] then aset_many ops new_blobs else retA ())
              else retA ())
      (thenA (aset_many ops rows)
      (bindA (askA max_checkpoints_per_thread) (\<lambda>mx.
        thenA (if mx \<noteq> None then prune_thread ops E t c else retA ())
          (retA (mk_config t c (PStr cid)))))))"

text \<open>\<open>_write_rows\<close>: every write is encoded, with a flag for the positional ones.\<close>

fun write_rows ::
  "lg_env \<Rightarrow> pystr \<Rightarrow> pystr \<Rightarrow> nat \<Rightarrow> (pystr \<times> pyval) list \<Rightarrow> exc + (pystr \<times> pyval \<times> bool) list" where
  "write_rows E task_id task_path idx [] = Inr []"
| "write_rows E task_id task_path idx ((channel, value) # ws) =
     (let widx = write_index E idx channel
      in bindE (write_entry E task_id task_path channel value) (\<lambda>v.
         bindE (write_rows E task_id task_path (Suc idx) ws) (\<lambda>rows.
           Inr ((write_key task_id widx, v, widx \<ge> 0) # rows))))"

definition aput_writes ::
  "'s store_ops \<Rightarrow> lg_env \<Rightarrow> config \<Rightarrow> (pystr \<times> pyval) list \<Rightarrow> pystr \<Rightarrow> pystr \<Rightarrow> ('s saver, unit) act" where
  "aput_writes ops E config writes task_id task_path =
     bindA (liftE (need (cfg_thread_id config))) (\<lambda>t.
     bindA (liftE (need (cfg_checkpoint_id config))) (\<lambda>cid.
     let ns = writes_ns t (cfg_ns config) (py_str E cid)
     in bindA (liftE (write_rows E task_id task_path 0 writes)) (\<lambda>rows.
        bindA (if list_ex (\<lambda>(_, _, positional). positional) rows
               then readA (\<lambda>sv. op_keys_prefix ops (sv_store sv) ns (task_id @ [SEP]))
               else retA []) (\<lambda>existing.
        let batch = map (\<lambda>(k, v, _). (ns, k, v))
                      (filter (\<lambda>(k, _, positional). \<not> (positional \<and> k \<in> set existing)) rows)
        in if batch \<noteq> [] then aset_many ops batch else retA ()))))"

definition decode_checkpoint ::
  "lg_env \<Rightarrow> pyval \<Rightarrow> 's saver \<Rightarrow> exc + (pyval \<times> (pyval \<times> pyval) list)" where
  "decode_checkpoint E saved sv =
     bindE (loads_item E saved (lit ''cp'')) (\<lambda>checkpoint.
       if incremental sv
       then bindE (py_in (PStr (lit ''channel_values'')) checkpoint) (\<lambda>has.
              if has then Inr (checkpoint, [])
              else bindE (channel_versions checkpoint) (\<lambda>versions. Inr (checkpoint, versions)))
       else Inr (checkpoint, []))"

definition tuple_of_parts ::
  "pystr \<Rightarrow> pystr \<Rightarrow> pystr \<Rightarrow> pyval \<Rightarrow> pyval \<Rightarrow> pyval \<Rightarrow> (pyval \<times> pyval \<times> pyval) list \<Rightarrow> exc + ckpt_tuple" where
  "tuple_of_parts t c cid saved checkpoint metadata pending =
     bindE (get_key saved (lit ''parent'')) (\<lambda>parent_id.
       Inr \<lparr>t_config = mk_config t c (PStr cid), t_checkpoint = checkpoint, t_metadata = metadata,
            t_parent_config = parent_config t c parent_id, t_pending_writes = pending\<rparr>)"

definition abuild_tuple ::
  "'s store_ops \<Rightarrow> lg_env \<Rightarrow> pystr \<Rightarrow> pystr \<Rightarrow> pystr \<Rightarrow> pyval \<Rightarrow> pyval \<Rightarrow> 's saver \<Rightarrow> exc + ckpt_tuple" where
  "abuild_tuple ops E t c cid saved metadata sv =
     bindE (decode_checkpoint E saved sv) (\<lambda>(cp0, versions).
     let wns = writes_ns t c cid
     in bindE (if versions \<noteq> []
               then bindE (aget_many ops (map (\<lambda>(ch, ver). (blobs_ns t c, blob_key E ch ver)) versions) sv)
                      (\<lambda>blobs. attach_values E cp0 versions blobs)
               else Inr cp0) (\<lambda>checkpoint.
        bindE (if metadata = PNone then loads_item E saved (lit ''md'') else Inr metadata) (\<lambda>md.
        bindE (sort_writes (store_keys ops wns sv)) (\<lambda>ks.
        bindE (if ks \<noteq> [] then aget_many ops (map (\<lambda>k. (wns, k)) ks) sv else Inr []) (\<lambda>raw.
        bindE (decode_writes E None raw) (\<lambda>pending.
          tuple_of_parts t c cid saved checkpoint md pending))))))"

definition aresolve ::
  "'s store_ops \<Rightarrow> lg_env \<Rightarrow> config \<Rightarrow> ('s saver, (pystr \<times> pystr \<times> pystr \<times> pyval) option) act" where
  "aresolve ops E config =
     bindA (liftE (need (cfg_thread_id config))) (\<lambda>thread_id.
     let checkpoint_ns = cfg_ns config; ns = ckpt_ns thread_id checkpoint_ns;
         lkey = latest_key thread_id checkpoint_ns; wanted = get_checkpoint_id E config;
         finish = (\<lambda>cid saved0.
           bindA (if saved0 = PNone then readA (store_get ops ns cid) else retA saved0) (\<lambda>saved.
             retA (if saved = PNone then None else Some (thread_id, checkpoint_ns, cid, saved))))
     in bindA (askA store_indexes_max_key) (\<lambda>indexed.
        if \<not> truthy wanted \<and> indexed then
          bindA (askA (\<lambda>sv. op_max_key ops (sv_store sv) ns)) (\<lambda>newest.
            case newest of
              None \<Rightarrow> retA None
            | Some cid \<Rightarrow> if cid = [] then retA None else finish cid PNone)
        else if \<not> truthy wanted then
          bindA (readA (store_get ops LATEST_NS lkey)) (\<lambda>ptr.
          bindA (if truthy ptr
                 then bindA (liftE (as_str ptr)) (\<lambda>cid.
                        bindA (readA (store_get ops ns cid)) (\<lambda>saved. retA (cid, saved)))
                 else retA ([], PNone)) (\<lambda>(cid, saved).
          if saved \<noteq> PNone then finish cid saved
          else bindA (askA (store_keys ops ns)) (\<lambda>ks.
                 case max_str ks of
                   None \<Rightarrow> retA None
                 | Some newest \<Rightarrow>
                     thenA (store_set ops LATEST_NS lkey (PStr newest)) (finish newest PNone))))
        else bindA (liftE (as_str wanted)) (\<lambda>cid. finish cid PNone)))"

definition aget_tuple ::
  "'s store_ops \<Rightarrow> lg_env \<Rightarrow> config \<Rightarrow> ('s saver, ckpt_tuple option) act" where
  "aget_tuple ops E config =
     bindA (aresolve ops E config) (\<lambda>r.
       case r of
         None \<Rightarrow> retA None
       | Some (t, c, cid, saved) \<Rightarrow>
           bindA (readA (abuild_tuple ops E t c cid saved PNone)) (\<lambda>tup. retA (Some tup)))"

text \<open>\<open>alist\<close>: like \<open>list\<close>, with the awaited reads and \<open>_abuild_tuple\<close>.\<close>

fun alist_ids ::
  "'s store_ops \<Rightarrow> lg_env \<Rightarrow> (pystr, pyval) dict option \<Rightarrow> pyval \<Rightarrow> int option \<Rightarrow>
   pystr \<Rightarrow> pystr \<Rightarrow> pystr \<Rightarrow> pystr list \<Rightarrow> int \<Rightarrow> 's saver \<Rightarrow> exc + (ckpt_tuple list \<times> int \<times> bool)" where
  "alist_ids ops E flt before lim t c ns [] n sv = Inr ([], n, False)"
| "alist_ids ops E flt before lim t c ns (cid # ids) n sv =
     bindE (if truthy before then bindE (as_str before) (\<lambda>b. Inr (b \<le> cid)) else Inr False) (\<lambda>skip.
     if skip then alist_ids ops E flt before lim t c ns ids n sv
     else
       bindE (store_get ops ns cid sv) (\<lambda>saved.
       bindE (metadata_if_matching E saved flt) (\<lambda>md.
       if md = PNone then alist_ids ops E flt before lim t c ns ids n sv
       else
         bindE (abuild_tuple ops E t c cid saved md sv) (\<lambda>tup.
         if (case lim of None \<Rightarrow> False | Some l \<Rightarrow> n + 1 \<ge> l) then Inr ([tup], n + 1, True)
         else bindE (alist_ids ops E flt before lim t c ns ids (n + 1) sv) (\<lambda>(ts, m, stop).
                Inr (tup # ts, m, stop))))))"

fun alist_loop ::
  "'s store_ops \<Rightarrow> lg_env \<Rightarrow> (pystr, pyval) dict option \<Rightarrow> pyval \<Rightarrow> pyval \<Rightarrow> int option \<Rightarrow>
   (pystr \<times> pystr \<times> pystr) list \<Rightarrow> int \<Rightarrow> 's saver \<Rightarrow> exc + ckpt_tuple list" where
  "alist_loop ops E flt want before lim [] n sv = Inr []"
| "alist_loop ops E flt want before lim ((t, c, ns) # targets) n sv =
     bindE (if truthy want then bindE (as_str want) (\<lambda>w. Inr [w])
            else Inr (rev (sort (store_keys ops ns sv)))) (\<lambda>ids.
     bindE (alist_ids ops E flt before lim t c ns ids n sv) (\<lambda>(ts, m, stop).
       if stop then Inr ts
       else bindE (alist_loop ops E flt want before lim targets m sv) (\<lambda>us. Inr (ts @ us))))"

definition alist_checkpoints ::
  "'s store_ops \<Rightarrow> lg_env \<Rightarrow> config option \<Rightarrow> (pystr, pyval) dict option \<Rightarrow> config option \<Rightarrow> int option \<Rightarrow>
   ('s saver, ckpt_tuple list) act" where
  "alist_checkpoints ops E config flt before lim =
     (let want_id = (case config of None \<Rightarrow> PNone | Some c \<Rightarrow> get_checkpoint_id E c);
          before_id = (case before of None \<Rightarrow> PNone | Some c \<Rightarrow> get_checkpoint_id E c)
      in bindA (list_targets ops config) (\<lambda>targets.
           readA (alist_loop ops E flt want_id before_id lim targets 0)))"

end
