(* ===== verification/Saver_Laws.thy ===== *)
theory Saver_Laws
  imports Saver_Threads
begin

text \<open>
  What the saver's store accesses do to the map of entries, for every store that keeps the store
  contract: the lemmas of the locale \<open>saver_lib\<close>, which every backend interprets, in the form of
  total-correctness triples for the writes and equations for the reads.
\<close>

section \<open>Keys and namespaces\<close>

lemma SEP_text [simp]: "scalar SEP"
  by (simp add: SEP_def scalar_def)

lemma lit_kinds [simp]:
  "lit ''ck'' = [99, 107]" "lit ''wr'' = [119, 114]" "lit ''bl'' = [98, 108]" "LATEST_NS = [108, 116]"
  by (simp_all add: LATEST_NS_def)

lemma scalar_ascii [simp]: "c < 128 \<Longrightarrow> scalar c"
  by (simp add: scalar_def)

lemma sep_append_inj:
  "SEP \<notin> set t \<Longrightarrow> SEP \<notin> set t' \<Longrightarrow> t @ SEP # c = t' @ SEP # c' \<longleftrightarrow> t = t' \<and> c = c'"
  using split_on_append [of SEP t c] split_on_append [of SEP t' c']
  by (metis append_same_eq list.inject same_append_eq)

lemma ckpt_ns_inj: "SEP \<notin> set t \<Longrightarrow> SEP \<notin> set t' \<Longrightarrow> ckpt_ns t c = ckpt_ns t' c' \<longleftrightarrow> t = t' \<and> c = c'"
  by (simp add: ckpt_ns_def sep_append_inj)

lemma blobs_ns_inj: "SEP \<notin> set t \<Longrightarrow> SEP \<notin> set t' \<Longrightarrow> blobs_ns t c = blobs_ns t' c' \<longleftrightarrow> t = t' \<and> c = c'"
  by (simp add: blobs_ns_def sep_append_inj)

lemma latest_key_inj: "SEP \<notin> set t \<Longrightarrow> SEP \<notin> set t' \<Longrightarrow> latest_key t c = latest_key t' c' \<longleftrightarrow> t = t' \<and> c = c'"
  by (simp add: latest_key_def sep_append_inj)

lemma writes_ns_inj:
  "SEP \<notin> set t \<Longrightarrow> SEP \<notin> set t' \<Longrightarrow> SEP \<notin> set c \<Longrightarrow> SEP \<notin> set c' \<Longrightarrow>
   writes_ns t c i = writes_ns t' c' i' \<longleftrightarrow> t = t' \<and> c = c' \<and> i = i'"
  by (simp add: writes_ns_def sep_append_inj)

lemma kinds_distinct [simp]:
  "ckpt_ns t c \<noteq> writes_ns t' c' i" "writes_ns t' c' i \<noteq> ckpt_ns t c"
  "ckpt_ns t c \<noteq> blobs_ns t' c'" "blobs_ns t' c' \<noteq> ckpt_ns t c"
  "writes_ns t c i \<noteq> blobs_ns t' c'" "blobs_ns t' c' \<noteq> writes_ns t c i"
  "ckpt_ns t c \<noteq> LATEST_NS" "LATEST_NS \<noteq> ckpt_ns t c"
  "writes_ns t c i \<noteq> LATEST_NS" "LATEST_NS \<noteq> writes_ns t c i"
  "blobs_ns t c \<noteq> LATEST_NS" "LATEST_NS \<noteq> blobs_ns t c"
  by (simp_all add: ckpt_ns_def writes_ns_def blobs_ns_def)

lemma lit_kinds_distinct:
  "ckpt_ns t c \<noteq> [108, 116]" "writes_ns t c i \<noteq> [108, 116]" "blobs_ns t c \<noteq> [108, 116]"
  by (simp_all add: ckpt_ns_def writes_ns_def blobs_ns_def)

declare lit_kinds [simp del]

section \<open>The library\<close>

lemma runs_readA [simp]: "runs (readA f) s P \<longleftrightarrow> (\<exists>x. f s = Inr x \<and> P x s)"
  by (auto simp: runs_def readA_def)

lemma readA_eval [act_simps]: "readA f s = (f s, s)"
  by (simp add: readA_def)

definition entry_ok :: "(pystr \<Rightarrow> bool) \<Rightarrow> (pyval \<Rightarrow> bool) \<Rightarrow> entry \<Rightarrow> bool" where
  "entry_ok okt okv = (\<lambda>(ns, k, v). okt ns \<and> okt k \<and> okv v)"

lemma entry_ok_simp [simp]: "entry_ok okt okv (ns, k, v) \<longleftrightarrow> okt ns \<and> okt k \<and> okv v"
  by (simp add: entry_ok_def)

locale saver_lib = store_like ops inv content okt okv
  for ops :: "'s store_ops" and inv content okt okv +
  fixes E :: lg_env
begin

lemma SEP_okt [simp]: "okt (SEP # s) \<longleftrightarrow> okt s"
proof -
  have "okt [SEP]" by (rule okt_ascii) (simp add: SEP_def)
  then show ?thesis using okt_Cons [of SEP s] by simp
qed

lemma lit_okt: "(\<And>c. c \<in> set s \<Longrightarrow> 0 < (of_char c :: nat) \<and> (of_char c :: nat) < 128) \<Longrightarrow> okt (lit s)"
  by (rule okt_ascii) (auto simp: lit_def)

lemma kinds_okt [simp]: "okt (lit ''ck'')" "okt (lit ''wr'')" "okt (lit ''bl'')" "okt LATEST_NS"
  unfolding LATEST_NS_def by (rule lit_okt; auto)+

lemma ns_okt [simp]:
  "okt (ckpt_ns t c) \<longleftrightarrow> okt t \<and> okt c"
  "okt (writes_ns t c i) \<longleftrightarrow> okt t \<and> okt c \<and> okt i"
  "okt (blobs_ns t c) \<longleftrightarrow> okt t \<and> okt c"
  "okt (latest_key t c) \<longleftrightarrow> okt t \<and> okt c"
  using kinds_okt by (simp_all add: ckpt_ns_def writes_ns_def blobs_ns_def latest_key_def del: lit_simps)

lemma read_get [simp]:
  "inv (sv_store sv) \<Longrightarrow> store_get ops ns k sv = Inr (the_default PNone (content (sv_store sv) (ns, k)))"
  by (auto simp: store_get_def get_law the_default_def)

lemma read_many:
  assumes "inv (sv_store sv)"
  shows "get_many ops ns ks sv = Inr (map (\<lambda>k. the_default PNone (content (sv_store sv) (ns, k))) ks)"
proof (cases "op_get_many ops")
  case None
  have "mapE (\<lambda>k. store_get ops ns k sv) ks =
      Inr (map (\<lambda>k. the_default PNone (content (sv_store sv) (ns, k))) ks)"
    by (rule mapE_Inr_map) (rule read_get [OF assms])
  with None show ?thesis by (simp add: get_many_def)
next
  case (Some getter)
  then show ?thesis
    using get_many_law [OF Some assms] by (simp add: get_many_def the_default_def o_def)
qed

lemma read_contains:
  "inv (sv_store sv) \<Longrightarrow> store_contains ops ns k sv \<longleftrightarrow> content (sv_store sv) (ns, k) \<noteq> None"
  by (simp add: store_contains_def contains_law)

lemma read_keys:
  "inv (sv_store sv) \<Longrightarrow> distinct (store_keys ops ns sv) \<and> set (store_keys ops ns sv) = ns_keys (content (sv_store sv)) ns"
  by (simp add: store_keys_def keys_law)

lemma do_set:
  assumes "inv (sv_store sv)" "okt ns" "okt k" "okv v"
  obtains s where "store_set ops ns k v sv = (Inr (), sv\<lparr>sv_store := s\<rparr>)" "inv s"
    "content s = (content (sv_store sv))((ns, k) \<mapsto> v)"
  using set_law [OF assms] by (auto simp: store_set_def)

lemma do_set_seq:
  assumes "inv (sv_store sv)" "\<forall>e \<in> set items. entry_ok okt okv e"
  shows "\<exists>s. forA (\<lambda>(ns, k, v). store_set ops ns k v) items sv = (Inr (), sv\<lparr>sv_store := s\<rparr>) \<and> inv s \<and>
    content s = upd_all items (content (sv_store sv))"
  using assms
proof (induction items arbitrary: sv)
  case Nil
  then show ?case by (auto simp: act_simps intro!: exI [of _ "sv_store sv"])
next
  case (Cons e items)
  obtain ns k v where e: "e = (ns, k, v)" by (cases e)
  obtain s where s: "store_set ops ns k v sv = (Inr (), sv\<lparr>sv_store := s\<rparr>)" "inv s"
      "content s = (content (sv_store sv))((ns, k) \<mapsto> v)"
    using do_set [OF Cons.prems(1), of ns k v] Cons.prems(2) e by auto
  with Cons.IH [of "sv\<lparr>sv_store := s\<rparr>"] Cons.prems(2) show ?case
    by (simp add: e act_simps del: fun_upd_apply)
qed

lemma do_set_many:
  assumes "inv (sv_store sv)" "\<forall>e \<in> set items. entry_ok okt okv e"
  obtains s where "set_many ops items sv = (Inr (), sv\<lparr>sv_store := s\<rparr>)" "inv s"
    "content s = upd_all items (content (sv_store sv))"
proof (cases "items = []")
  case True
  with assms that [of "sv_store sv"] show ?thesis by (simp add: set_many_def act_simps)
next
  case False
  show ?thesis
  proof (cases "op_set_many ops")
    case None
    with do_set_seq [OF assms] that False show ?thesis by (auto simp: set_many_def)
  next
    case (Some f)
    have "\<exists>s. f (sv_store sv) items = Inr s \<and> inv s \<and> content s = upd_all items (content (sv_store sv))"
      by (rule set_many_law [OF Some assms(1)]) (use assms(2) in auto)
    with that Some False show ?thesis by (auto simp: set_many_def)
  qed
qed

lemma do_delete_many:
  assumes "inv (sv_store sv)"
  obtains s where "delete_many ops ps sv = (Inr (), sv\<lparr>sv_store := s\<rparr>)" "inv s"
    "content s = del_all (set ps) (content (sv_store sv))"
proof -
  have seq: "\<exists>s. forA (\<lambda>(ns, k). store_delete ops ns k) ps sv = (Inr (), sv\<lparr>sv_store := s\<rparr>) \<and> inv s \<and>
      content s = del_all (set ps) (content (sv_store sv))"
    using assms
  proof (induction ps arbitrary: sv)
    case Nil
    then show ?case by (auto simp: act_simps intro!: exI [of _ "sv_store sv"])
  next
    case (Cons p ps)
    obtain ns k where p: "p = (ns, k)" by (cases p)
    let ?s = "snd (op_delete ops (sv_store sv) ns k)"
    have s: "inv ?s" "content ?s = del_all {p} (content (sv_store sv))"
      using delete_law [OF Cons.prems surjective_pairing] by (simp_all add: p del_all_single)
    with Cons.IH [of "sv\<lparr>sv_store := ?s\<rparr>"] show ?case
      by (simp add: p act_simps store_delete_def del_all_union)
  qed
  show ?thesis
  proof (cases "ps = []")
    case True
    with assms that [of "sv_store sv"] show ?thesis by (simp add: delete_many_def act_simps)
  next
    case False
    show ?thesis
    proof (cases "op_delete_many ops")
      case None
      with seq that False show ?thesis by (auto simp: delete_many_def)
    next
      case (Some f)
      with that [of "snd (f (sv_store sv) ps)"] False delete_many_law [OF Some assms surjective_pairing]
      show ?thesis by (auto simp: delete_many_def act_simps)
    qed
  qed
qed

lemma do_delete_namespace:
  assumes "inv (sv_store sv)"
  obtains s where "delete_namespace ops ns sv = (Inr (), sv\<lparr>sv_store := s\<rparr>)" "inv s"
    "content s = del_all {p. fst p = ns} (content (sv_store sv))"
proof (cases "op_delete_namespace ops")
  case None
  let ?ps = "map (\<lambda>k. (ns, k)) (store_keys ops ns sv)"
  obtain s where s: "delete_many ops ?ps sv = (Inr (), sv\<lparr>sv_store := s\<rparr>)" "inv s"
      "content s = del_all (set ?ps) (content (sv_store sv))"
    using do_delete_many [OF assms] .
  have "del_all (set ?ps) (content (sv_store sv)) = del_all {p. fst p = ns} (content (sv_store sv))"
    using read_keys [OF assms, of ns] by (auto simp: del_all_def ns_keys_def fun_eq_iff)
  with s that None show ?thesis by (simp add: delete_namespace_def act_simps)
next
  case (Some f)
  with that [of "snd (f (sv_store sv) ns)"] delete_namespace_law [OF Some assms surjective_pairing]
  show ?thesis by (simp add: delete_namespace_def act_simps)
qed

lemma do_namespaces:
  assumes "inv (sv_store sv)" "okt p"
  obtains nss b where "namespaces ops p sv = (Inr nss, sv\<lparr>store_takes_prefix := b\<rparr>)" "distinct nss"
    "set nss = {ns \<in> ns_names (content (sv_store sv)). startswith ns p}"
proof -
  have f: "distinct (filter (\<lambda>ns. startswith ns p) (op_namespaces ops (sv_store sv)))"
      "set (filter (\<lambda>ns. startswith ns p) (op_namespaces ops (sv_store sv))) =
       {ns \<in> ns_names (content (sv_store sv)). startswith ns p}"
    using namespaces_law [OF assms(1)] by auto
  show ?thesis
  proof (cases "store_takes_prefix sv")
    case False
    then have "sv\<lparr>store_takes_prefix := False\<rparr> = sv" by simp
    with f that [of _ False] False show ?thesis by (simp add: namespaces_def)
  next
    case True
    then have sv: "sv\<lparr>store_takes_prefix := True\<rparr> = sv" by simp
    show ?thesis
    proof (cases "op_namespaces_prefix ops (sv_store sv) p")
      case (Inl e)
      then have "e = TypeError" by (rule namespaces_prefix_exc)
      with f that [of _ False] True Inl show ?thesis by (simp add: namespaces_def)
    next
      case (Inr nss)
      with namespaces_prefix_law [OF assms Inr] that [of nss True] True sv show ?thesis
        by (simp add: namespaces_def)
    qed
  qed
qed

lemma do_keys_with_prefix:
  assumes "inv (sv_store sv)" "okt p"
  obtains ks b where "keys_with_prefix ops ns p sv = (Inr ks, sv\<lparr>store_takes_prefix := b\<rparr>)" "distinct ks"
    "set ks = {k \<in> ns_keys (content (sv_store sv)) ns. startswith k p}"
proof -
  have f: "distinct (filter (\<lambda>k. startswith k p) (op_keys ops (sv_store sv) ns))"
      "set (filter (\<lambda>k. startswith k p) (op_keys ops (sv_store sv) ns)) =
       {k \<in> ns_keys (content (sv_store sv)) ns. startswith k p}"
    using keys_law [OF assms(1)] by auto
  show ?thesis
  proof (cases "store_takes_prefix sv")
    case False
    then have "sv\<lparr>store_takes_prefix := False\<rparr> = sv" by simp
    with f that [of _ False] False show ?thesis by (simp add: keys_with_prefix_def)
  next
    case True
    then have sv: "sv\<lparr>store_takes_prefix := True\<rparr> = sv" by simp
    show ?thesis
    proof (cases "op_keys_prefix ops (sv_store sv) ns p")
      case (Inl e)
      then have "e = TypeError" by (rule keys_prefix_exc)
      with f that [of _ False] True Inl show ?thesis by (simp add: keys_with_prefix_def)
    next
      case (Inr ks)
      with keys_prefix_law [OF assms Inr] that [of ks True] True sv show ?thesis
        by (simp add: keys_with_prefix_def)
    qed
  qed
qed

end

end
