(* ===== verification/Saver_Put.thy ===== *)
theory Saver_Put
  imports Saver_Laws
begin

text \<open>
  \<open>put\<close> and \<open>get_tuple\<close> over any store that keeps the contract: what a put stores, which
  checkpoint a read resolves to, the decoding of a stored record, and the latest-checkpoint
  pointer.
\<close>

section \<open>Records\<close>

text \<open>The serializer restores a value it has dumped (LangGraph's contract for \<open>SerializerProtocol\<close>).\<close>

definition serde_law :: "lg_env \<Rightarrow> pyval \<Rightarrow> bool" where
  "serde_law E v \<longleftrightarrow>
     (case dumps_typed E v of Inl e \<Rightarrow> False | Inr (t, b) \<Rightarrow> loads_typed E [PStr t, PBytes b] = Inr v)"

lemma serde_law_dumps:
  assumes "serde_law E v"
  obtains t b where "dumps_typed E v = Inr (t, b)" "loads_typed E [PStr t, PBytes b] = Inr v"
    "dumps_list E v = Inr (PList [PStr t, PBytes b])"
  using assms by (auto simp: serde_law_def dumps_list_def split: sum.splits)

text \<open>The stored record of a checkpoint, and the parts it decodes to.\<close>

definition mk_record :: "pyval \<Rightarrow> pyval \<Rightarrow> pyval \<Rightarrow> pyval" where
  "mk_record cp_enc md_enc parent =
     PDict [(PStr (lit ''cp''), cp_enc), (PStr (lit ''md''), md_enc), (PStr (lit ''parent''), parent)]"

lemma mk_record_ne [simp]: "mk_record a b c \<noteq> PNone"
  by (simp add: mk_record_def)

lemma record_items [simp]:
  "getitem (mk_record a b c) (lit ''cp'') = Inr a"
  "getitem (mk_record a b c) (lit ''md'') = Inr b"
  "get_key (mk_record a b c) (lit ''parent'') = Inr c"
  by (simp_all add: mk_record_def)

definition record_of :: "lg_env \<Rightarrow> pyval \<Rightarrow> pyval \<Rightarrow> pyval \<Rightarrow> pyval \<Rightarrow> bool" where
  "record_of E rec cp md parent \<longleftrightarrow>
     (\<exists>a b. dumps_list E cp = Inr a \<and> dumps_list E md = Inr b \<and> rec = mk_record a b parent)"

lemma record_of_loads:
  assumes "record_of E rec cp md parent" "serde_law E cp" "serde_law E md"
  shows "loads_item E rec (lit ''cp'') = Inr cp" "loads_item E rec (lit ''md'') = Inr md"
    "get_key rec (lit ''parent'') = Inr parent" "rec \<noteq> PNone"
proof -
  obtain a b where r: "dumps_list E cp = Inr a" "dumps_list E md = Inr b" "rec = mk_record a b parent"
    using assms(1) by (auto simp: record_of_def)
  obtain t bs where c: "dumps_list E cp = Inr (PList [PStr t, PBytes bs])" "loads_typed E [PStr t, PBytes bs] = Inr cp"
    using serde_law_dumps [OF assms(2)] by metis
  obtain t' bs' where m: "dumps_list E md = Inr (PList [PStr t', PBytes bs'])" "loads_typed E [PStr t', PBytes bs'] = Inr md"
    using serde_law_dumps [OF assms(3)] by metis
  show "loads_item E rec (lit ''cp'') = Inr cp" "loads_item E rec (lit ''md'') = Inr md"
    "get_key rec (lit ''parent'') = Inr parent" "rec \<noteq> PNone"
    using r c m by (auto simp: loads_item_def simp del: lit_simps)
qed

lemma encode_put_whole:
  assumes "encode_put E False config cp md nv = Inr (t, c, cid, rec, blobs)"
  shows "cfg_thread_id config = Some t" "c = cfg_ns config" "getitem cp (lit ''id'') = Inr (PStr cid)"
    "blobs = []" "\<exists>md'. get_checkpoint_metadata E config md = Inr md' \<and> record_of E rec cp md' (cfg_id config)"
proof -
  from assms obtain i cpe md' mde where
    "need (cfg_thread_id config) = Inr t" "getitem cp (lit ''id'') = Inr i" "as_str i = Inr cid"
    "dumps_list E cp = Inr cpe" "get_checkpoint_metadata E config md = Inr md'" "dumps_list E md' = Inr mde"
    "c = cfg_ns config" "rec = mk_record cpe mde (cfg_id config)" "blobs = []"
    by (auto simp: encode_put_def bindE_eq_Inr mk_record_def simp del: lit_simps)
  then show "cfg_thread_id config = Some t" "c = cfg_ns config" "getitem cp (lit ''id'') = Inr (PStr cid)"
    "blobs = []" "\<exists>md'. get_checkpoint_metadata E config md = Inr md' \<and> record_of E rec cp md' (cfg_id config)"
    by (auto simp: need_def record_of_def simp del: lit_simps split: option.splits)
      (cases i; simp)
qed

section \<open>What a put stores\<close>

definition publishes :: "'s saver \<Rightarrow> pystr \<Rightarrow> pystr \<Rightarrow> pystr \<Rightarrow> bool" where
  "publishes sv t c cid \<longleftrightarrow> \<not> store_indexes_max_key sv \<and>
     (case dget (max_seen sv) (t, c) of None \<Rightarrow> True | Some s \<Rightarrow> cid > s)"

definition put_entries :: "'s saver \<Rightarrow> pystr \<Rightarrow> pystr \<Rightarrow> pystr \<Rightarrow> pyval \<Rightarrow> entry list" where
  "put_entries sv t c cid rec = (ckpt_ns t c, cid, rec) #
     (if publishes sv t c cid then [(LATEST_NS, latest_key t c, PStr cid)] else [])"

definition put_hints :: "'s saver \<Rightarrow> pystr \<Rightarrow> pystr \<Rightarrow> pystr \<Rightarrow> (pystr \<times> pystr, pystr) dict" where
  "put_hints sv t c cid =
     (if publishes sv t c cid then bounded_set (max_seen sv) (t, c) cid else max_seen sv)"

definition fresh_blobs :: "content \<Rightarrow> pystr \<Rightarrow> pystr \<Rightarrow> (pystr \<times> pyval) list \<Rightarrow> entry list" where
  "fresh_blobs m t c blobs =
     map (\<lambda>(k, v). (blobs_ns t c, k, v)) (filter (\<lambda>(k, v). m (blobs_ns t c, k) = None) blobs)"

lemma put_rows_run:
  assumes "encode_put E (incremental sv) config cp md nv = Inr (t, c, cid, rec, blobs)"
  shows "put_rows E config cp md nv sv =
    (Inr (t, c, cid, put_entries sv t c cid rec, blobs), sv\<lparr>max_seen := put_hints sv t c cid\<rparr>)"
  using assms
  by (auto simp: put_rows_def act_simps Let_def put_entries_def publishes_def put_hints_def
      split: option.splits)

lemma put_hints_seen: "publishes sv t c cid \<Longrightarrow> dget (put_hints sv t c cid) (t, c) = Some cid"
  by (simp add: put_hints_def bounded_set_def dget_dset)

text \<open>The pointer is absent, dangling, or names the greatest stored id.\<close>

definition ptr_sound :: "content \<Rightarrow> pystr \<Rightarrow> pystr \<Rightarrow> bool" where
  "ptr_sound m t c \<longleftrightarrow> (case m (LATEST_NS, latest_key t c) of None \<Rightarrow> True
     | Some v \<Rightarrow> \<exists>i. v = PStr i \<and> i \<noteq> [] \<and> (m (ckpt_ns t c, i) \<noteq> None \<longrightarrow> i = Max (ns_keys m (ckpt_ns t c))))"

text \<open>Stored records are records, and ids are not empty.\<close>

definition ckpts_ok :: "content \<Rightarrow> pystr \<Rightarrow> pystr \<Rightarrow> bool" where
  "ckpts_ok m t c \<longleftrightarrow> m (ckpt_ns t c, []) = None \<and> (\<forall>i. m (ckpt_ns t c, i) \<noteq> Some PNone)"

context saver_lib
begin

text \<open>A put up to its retention run.\<close>

lemma do_put:
  assumes "inv (sv_store sv)"
    and enc: "encode_put E (incremental sv) config cp md nv = Inr (t, c, cid, rec, blobs)"
    and ok: "okt t" "okt c" "okt cid" "okv rec" "publishes sv t c cid \<Longrightarrow> okv (PStr cid)"
      "\<And>k v. (k, v) \<in> set blobs \<Longrightarrow> okt k \<and> okv v"
  obtains s where "inv s"
    "content s = upd_all (fresh_blobs (content (sv_store sv)) t c blobs @ put_entries sv t c cid rec)
       (content (sv_store sv))"
    "put ops E config cp md nv sv =
       thenA (if max_checkpoints_per_thread sv \<noteq> None then prune_thread ops E t c else retA ())
         (retA (mk_config t c (PStr cid))) (sv\<lparr>max_seen := put_hints sv t c cid, sv_store := s\<rparr>)"
proof -
  let ?m = "content (sv_store sv)" and ?sv1 = "sv\<lparr>max_seen := put_hints sv t c cid\<rparr>"
  let ?fresh = "fresh_blobs ?m t c blobs"
  have fr: "map (\<lambda>(k, v). (blobs_ns t c, k, v))
      (filter (\<lambda>(k, v). \<not> store_contains ops (blobs_ns t c) k ?sv1) blobs) = ?fresh"
    using read_contains [of ?sv1] assms(1) by (auto simp: fresh_blobs_def intro!: arg_cong [where f = "map _"] filter_cong)
  have "\<forall>e \<in> set ?fresh. entry_ok okt okv e" using ok by (auto simp: fresh_blobs_def)
  then obtain s1 where s1: "set_many ops ?fresh ?sv1 = (Inr (), ?sv1\<lparr>sv_store := s1\<rparr>)" "inv s1"
      "content s1 = upd_all ?fresh ?m"
    using do_set_many [of ?sv1 ?fresh] assms(1) by auto
  have "\<forall>e \<in> set (put_entries sv t c cid rec). entry_ok okt okv e" using ok by (auto simp: put_entries_def)
  then obtain s2 where s2: "set_many ops (put_entries sv t c cid rec) (?sv1\<lparr>sv_store := s1\<rparr>) =
        (Inr (), ?sv1\<lparr>sv_store := s2\<rparr>)" "inv s2"
      "content s2 = upd_all (put_entries sv t c cid rec) (content s1)"
    using do_set_many [of "?sv1\<lparr>sv_store := s1\<rparr>"] s1(2) by auto
  have blobs: "(if blobs \<noteq> [] then
        bindA (askA (\<lambda>sv. filter (\<lambda>(k, v). \<not> store_contains ops (blobs_ns t c) k sv) blobs)) (\<lambda>fresh.
          set_many ops (map (\<lambda>(k, v). (blobs_ns t c, k, v)) fresh))
      else retA ()) ?sv1 = (Inr (), ?sv1\<lparr>sv_store := s1\<rparr>) \<or> (blobs = [] \<and> ?fresh = [])"
    using s1(1) fr by (auto simp: act_simps fresh_blobs_def)
  show ?thesis
  proof (cases "blobs = []")
    case True
    then have f: "?fresh = []" by (simp add: fresh_blobs_def)
    obtain s3 where s3: "set_many ops (put_entries sv t c cid rec) ?sv1 = (Inr (), ?sv1\<lparr>sv_store := s3\<rparr>)"
        "inv s3" "content s3 = upd_all (put_entries sv t c cid rec) ?m"
      using do_set_many [of ?sv1 "put_entries sv t c cid rec"] assms(1)
        \<open>\<forall>e \<in> set (put_entries sv t c cid rec). entry_ok okt okv e\<close> by auto
    show ?thesis
      by (rule that [OF s3(2)])
        (simp_all add: s3(3) f [unfolded True] put_def act_simps put_rows_run [OF enc] True s3(1))
  next
    case False
    with blobs have "(bindA (askA (\<lambda>sv. filter (\<lambda>(k, v). \<not> store_contains ops (blobs_ns t c) k sv) blobs)) (\<lambda>fresh.
          set_many ops (map (\<lambda>(k, v). (blobs_ns t c, k, v)) fresh))) ?sv1 = (Inr (), ?sv1\<lparr>sv_store := s1\<rparr>)"
      by simp
    then show ?thesis
      by (intro that [OF s2(2)])
        (simp_all add: s2(3) s1(3) upd_all_append put_def act_simps put_rows_run [OF enc] False s2(1))
  qed
qed

section \<open>Reading\<close>

lemma resolve_requested:
  assumes "inv (sv_store sv)" "cfg_thread_id config = Some t" "get_checkpoint_id E config = PStr cid" "cid \<noteq> []"
    "content (sv_store sv) (ckpt_ns t (cfg_ns config), cid) = Some saved" "saved \<noteq> PNone"
  shows "resolve ops E config sv = (Inr (Some (t, cfg_ns config, cid, saved)), sv)"
  using assms by (simp add: resolve_def need_def act_simps Let_def)

lemma resolve_missing:
  assumes "inv (sv_store sv)" "cfg_thread_id config = Some t" "get_checkpoint_id E config = PStr cid" "cid \<noteq> []"
    "content (sv_store sv) (ckpt_ns t (cfg_ns config), cid) = None"
  shows "resolve ops E config sv = (Inr None, sv)"
  using assms by (simp add: resolve_def need_def act_simps Let_def)

lemma ckpts_max:
  assumes "inv (sv_store sv)" "ns_keys (content (sv_store sv)) ns \<noteq> {}"
  shows "Max (ns_keys (content (sv_store sv)) ns) \<in> ns_keys (content (sv_store sv)) ns"
  using assms finite_ns_keys [OF finite_law] by (intro Max_in) auto

lemma resolve_latest_run:
  assumes i: "inv (sv_store sv)" and ok: "ptr_sound (content (sv_store sv)) t c" "ckpts_ok (content (sv_store sv)) t c"
    and tx: "okt t" "okt c"
  defines "m \<equiv> content (sv_store sv)"
  defines "K \<equiv> ns_keys m (ckpt_ns t c)"
  assumes v: "K \<noteq> {} \<Longrightarrow> okv (PStr (Max K))"
  shows "\<exists>s. inv s \<and> (K = {} \<longrightarrow> s = sv_store sv) \<and>
    (content s = m \<or> content s = m((LATEST_NS, latest_key t c) \<mapsto> PStr (Max K))) \<and>
    resolve_latest ops t c sv =
      (Inr (if K = {} then None
            else Some (Max K, if content s = m \<and> s = sv_store sv then the_default PNone (m (ckpt_ns t c, Max K)) else PNone)),
       sv\<lparr>sv_store := s\<rparr>)"
proof -
  let ?ptr = "m (LATEST_NS, latest_key t c)"
  have keys: "max_str (store_keys ops (ckpt_ns t c) sv) = (if K = {} then None else Some (Max K))"
    using read_keys [OF i, of "ckpt_ns t c"]
    by (cases "store_keys ops (ckpt_ns t c) sv = []") (auto simp: max_str_Max K_def m_def)
  show ?thesis
  proof (cases "\<exists>j. ?ptr = Some (PStr j) \<and> m (ckpt_ns t c, j) \<noteq> None")
    case True
    then obtain j rec where j: "?ptr = Some (PStr j)" "m (ckpt_ns t c, j) = Some rec" by auto
    have "j \<noteq> []" "j = Max K" using ok(1) j by (auto simp: ptr_sound_def m_def K_def)
    moreover have "j \<in> K" using j by (simp add: K_def ns_keys_def)
    moreover have "rec \<noteq> PNone" using ok(2) j by (auto simp: ckpts_ok_def m_def)
    ultimately show ?thesis
      using i j by (intro exI [of _ "sv_store sv"]) (auto simp: resolve_latest_def Let_def act_simps m_def)
  next
    case False
    have get: "bindA (readA (store_get ops LATEST_NS (latest_key t c))) (\<lambda>ptr.
         bindA (if truthy ptr
                then bindA (liftE (as_str ptr)) (\<lambda>cid.
                       bindA (readA (store_get ops (ckpt_ns t c) cid)) (\<lambda>saved. retA (cid, saved)))
                else retA ([], PNone)) G) sv =
        (case ?ptr of Some (PStr j) \<Rightarrow> G (j, PNone) sv | _ \<Rightarrow> G ([], PNone) sv)" for G :: "_ \<Rightarrow> ('s saver, 'x) act"
    proof (cases ?ptr)
      case None
      then show ?thesis using i by (simp add: act_simps m_def)
    next
      case (Some v)
      then obtain j where v: "v = PStr j" "j \<noteq> []" using ok(1) by (auto simp: ptr_sound_def m_def)
      with False Some have "m (ckpt_ns t c, j) = None" by auto
      with v Some show ?thesis using i by (simp add: act_simps m_def)
    qed
    show ?thesis
    proof (cases "K = {}")
      case True
      then show ?thesis
        using i keys unfolding resolve_latest_def Let_def get
        by (intro exI [of _ "sv_store sv"]) (auto simp: act_simps m_def split: option.splits pyval.splits)
    next
      case K: False
      obtain s where s: "store_set ops LATEST_NS (latest_key t c) (PStr (Max K)) sv = (Inr (), sv\<lparr>sv_store := s\<rparr>)"
          "inv s" "content s = m((LATEST_NS, latest_key t c) \<mapsto> PStr (Max K))"
        using do_set [OF i, of LATEST_NS "latest_key t c" "PStr (Max K)"] tx v [OF K] by (auto simp: m_def)
      have "content s \<noteq> m"
      proof
        assume "content s = m"
        then have "m (LATEST_NS, latest_key t c) = Some (PStr (Max K))" using s(3) by (metis fun_upd_same)
        moreover have "m (ckpt_ns t c, Max K) \<noteq> None"
          using ckpts_max [OF i, of "ckpt_ns t c"] K by (simp add: K_def m_def ns_keys_def)
        ultimately show False using False by blast
      qed
      then show ?thesis
        using s keys K unfolding resolve_latest_def Let_def get
        by (intro exI [of _ s]) (auto simp: act_simps split: option.splits pyval.splits)
    qed
  qed
qed

lemma resolve_newest:
  assumes i: "inv (sv_store sv)" and ok: "ptr_sound (content (sv_store sv)) t c" "ckpts_ok (content (sv_store sv)) t c"
    and tx: "okt t" "okt c"
    and cfg: "cfg_thread_id config = Some t" "cfg_ns config = c" "\<not> truthy (get_checkpoint_id E config)"
  defines "m \<equiv> content (sv_store sv)"
  defines "K \<equiv> ns_keys m (ckpt_ns t c)"
  assumes v: "K \<noteq> {} \<Longrightarrow> okv (PStr (Max K))"
  shows "\<exists>s. inv s \<and> (content s = m \<or> content s = m((LATEST_NS, latest_key t c) \<mapsto> PStr (Max K)) \<and> K \<noteq> {}) \<and>
    resolve ops E config sv =
      (Inr (if K = {} then None else Some (t, c, Max K, the_default PNone (m (ckpt_ns t c, Max K)))),
       sv\<lparr>sv_store := s\<rparr>)"
proof -
  have some: "\<exists>rec. m (ckpt_ns t c, Max K) = Some rec \<and> rec \<noteq> PNone" "Max K \<noteq> []" if "K \<noteq> {}"
    using ckpts_max [OF i, of "ckpt_ns t c"] that ok(2)
    by (auto simp: K_def m_def ns_keys_def ckpts_ok_def)
  show ?thesis
  proof (cases "store_indexes_max_key sv")
    case True
    have mk: "op_max_key ops (sv_store sv) (ckpt_ns t c) = (if K = {} then None else Some (Max K))"
      using max_key_law [OF i, of "ckpt_ns t c"] by (simp add: K_def m_def)
    show ?thesis
    proof (cases "K = {}")
      case True
      with \<open>store_indexes_max_key sv\<close> show ?thesis
        using i cfg mk by (intro exI [of _ "sv_store sv"])
          (simp add: resolve_def need_def Let_def act_simps m_def)
    next
      case False
      with some obtain rec where "m (ckpt_ns t c, Max K) = Some rec" "rec \<noteq> PNone" "Max K \<noteq> []" by blast
      with False True show ?thesis
        using i cfg mk by (intro exI [of _ "sv_store sv"])
          (simp add: resolve_def need_def Let_def act_simps m_def)
    qed
  next
    case False
    obtain s where s: "inv s" "K = {} \<longrightarrow> s = sv_store sv"
        "content s = m \<or> content s = m((LATEST_NS, latest_key t c) \<mapsto> PStr (Max K))"
        "resolve_latest ops t c sv = (Inr (if K = {} then None
            else Some (Max K, if content s = m \<and> s = sv_store sv then the_default PNone (m (ckpt_ns t c, Max K)) else PNone)),
          sv\<lparr>sv_store := s\<rparr>)"
      using resolve_latest_run [OF i ok tx] v unfolding m_def K_def by blast
    have "content s (ckpt_ns t c, Max K) = m (ckpt_ns t c, Max K)" using s(3) by auto
    then show ?thesis
      using False cfg s some
      by (intro exI [of _ s]) (cases "K = {}"; auto simp: resolve_def need_def Let_def act_simps m_def)
  qed
qed

end

end
