(* ===== verification/Saver_Writes.thy ===== *)
theory Saver_Writes
  imports Saver_Put "HOL-Library.Multiset"
begin

text \<open>
  Pending writes: the rows of a writes namespace represent a map from \<open>(task_id, idx)\<close> to what was
  written; \<open>put_writes\<close> adds to that map (positional entries once, special ones always), and
  \<open>_build_tuple\<close> lists it in the order of \<open>(task_id, idx)\<close>.
\<close>

section \<open>Write keys\<close>

lemma SEP_show_int [simp]: "SEP \<notin> set (show_int i)"
  using show_int_chars [of i] by (auto simp: SEP_def)

lemma write_order_key [simp]: "write_order (write_key task i) = Inr (task, i)"
  by (simp add: write_order_def write_key_def rpartition_append)

lemma write_key_inj [simp]: "write_key t i = write_key t' i' \<longleftrightarrow> t = t' \<and> i = i'"
  using write_order_key by (metis Inr_inject prod.inject)

abbreviation wkey :: "pystr \<times> int \<Rightarrow> pystr" where
  "wkey \<equiv> \<lambda>(t, i). write_key t i"

lemma inj_wkey: "inj_on wkey D"
  by (auto simp: inj_on_def)

lemma map_fst_sort_key: "map fst (sort_key fst zs) = sort (map fst zs)"
  by (rule properties_for_sort [symmetric]) simp_all

lemma sort_writes_keys:
  assumes "distinct ks" "set ks = wkey ` D" "finite D"
  shows "sort_writes ks = Inr (map wkey (sorted_list_of_set D))"
proof -
  let ?f = "inv_into D wkey"
  have f: "?f (wkey p) = p" if "p \<in> D" for p using that inj_wkey by (rule inv_into_f_f [rotated])
  have "mapE write_order ks = Inr (map ?f ks)"
  proof (rule mapE_Inr_map)
    fix k assume "k \<in> set ks"
    then obtain p where "p \<in> D" "k = wkey p" using assms(2) by auto
    then show "write_order k = Inr (?f k)" using f [of p] by (cases p) simp
  qed
  moreover define zs where "zs = zip (map ?f ks) ks"
  ultimately have r: "sort_writes ks = Inr (map snd (sort_key fst zs))" by (simp add: sort_writes_def)
  have zs: "z \<in> set zs \<Longrightarrow> fst z \<in> D \<and> snd z = wkey (fst z)" for z
  proof -
    assume "z \<in> set zs"
    then obtain n where n: "n < length ks" "z = (?f (ks ! n), ks ! n)" by (auto simp: zs_def set_zip)
    then obtain p where "p \<in> D" "ks ! n = wkey p" using assms(2) nth_mem by blast
    with f n show ?thesis by simp
  qed
  have "map fst zs = map ?f ks" by (simp add: zs_def)
  moreover have "distinct (map ?f ks)"
    using assms(1,2) inj_on_inv_into [of "set ks" wkey D] by (simp add: distinct_map)
  moreover have "set (map ?f ks) = D" using assms(2) f by (force simp: image_iff)
  ultimately have fst: "map fst (sort_key fst zs) = sorted_list_of_set D"
    unfolding map_fst_sort_key by (metis sorted_list_of_set_sort_remdups distinct_remdups_id)
  have "map snd (sort_key fst zs) = map (wkey \<circ> fst) (sort_key fst zs)"
    using zs by (intro map_cong) (auto simp del: split_paired_All)
  also have "\<dots> = map wkey (map fst (sort_key fst zs))" by simp
  finally show ?thesis using r fst by simp
qed

lemma sort_writes_short:
  "length ks \<le> 1 \<Longrightarrow> sort_writes ks = Inr ks \<or> (\<exists>e. sort_writes ks = Inl e)"
  by (cases ks) (auto simp: sort_writes_def bindE_def split: sum.splits)

lemma map_of_filter_key: "map_of (filter (\<lambda>u. P (fst u)) us) k = (if P k then map_of us k else None)"
  by (induction us) auto

section \<open>The writes of a checkpoint as a map\<close>

type_synonym writes_map = "pystr \<times> int \<rightharpoonup> pystr \<times> pyval \<times> pystr"

text \<open>The row of a write: \<open>[task_id, channel, [type, bytes], task_path]\<close>.\<close>

definition write_row :: "lg_env \<Rightarrow> pystr \<Rightarrow> pystr \<times> pyval \<times> pystr \<Rightarrow> pyval" where
  "write_row E task = (\<lambda>(ch, v, path).
     (case write_entry E task path ch v of Inl e \<Rightarrow> PNone | Inr r \<Rightarrow> r))"

definition writes_rep :: "lg_env \<Rightarrow> content \<Rightarrow> pystr \<Rightarrow> writes_map \<Rightarrow> bool" where
  "writes_rep E m ns W \<longleftrightarrow>
     (\<forall>t i x. W (t, i) = Some x \<longrightarrow> m (ns, write_key t i) = Some (write_row E t x) \<and> serde_law E (fst (snd x))) \<and>
     (\<forall>k. m (ns, k) \<noteq> None \<longrightarrow> k \<in> wkey ` dom W)"

lemma writes_repD:
  assumes "writes_rep E m ns W"
  shows "W (t, i) = Some x \<Longrightarrow> m (ns, write_key t i) = Some (write_row E t x)"
    "ns_keys m ns = wkey ` dom W" "W p = Some (ch, v, path) \<Longrightarrow> serde_law E v"
proof -
  have some: "W (t, i) = Some x \<Longrightarrow> m (ns, write_key t i) = Some (write_row E t x) \<and> serde_law E (fst (snd x))" for t i x
    using assms unfolding writes_rep_def by blast
  have none: "m (ns, k) \<noteq> None \<Longrightarrow> k \<in> wkey ` dom W" for k
    using assms unfolding writes_rep_def by blast
  show "m (ns, write_key t i) = Some (write_row E t x)" if "W (t, i) = Some x" using some [OF that] by blast
  show "serde_law E v" if "W p = Some (ch, v, path)" using some [of "fst p" "snd p"] that by simp
  have "wkey p \<in> ns_keys m ns" if "p \<in> dom W" for p
    using that some [of "fst p" "snd p"] by (auto simp: ns_keys_def case_prod_unfold)
  moreover have "ns_keys m ns \<subseteq> wkey ` dom W" using none by (auto simp: ns_keys_def)
  ultimately show "ns_keys m ns = wkey ` dom W" by blast
qed

text \<open>The pending writes in the order of \<open>(task_id, idx)\<close>.\<close>

definition writes_list :: "writes_map \<Rightarrow> (pyval \<times> pyval \<times> pyval) list" where
  "writes_list W = map (\<lambda>(t, i). (PStr t, PStr (fst (the (W (t, i)))), fst (snd (the (W (t, i))))))
     (sorted_list_of_set (dom W))"

lemma decode_write_rows:
  assumes "\<And>p. p \<in> set ps \<Longrightarrow> \<exists>ch v path. W p = Some (ch, v, path) \<and> serde_law E v"
  shows "decode_writes E None (map (\<lambda>(t, i). write_row E t (the (W (t, i)))) ps) =
    Inr (map (\<lambda>(t, i). (PStr t, PStr (fst (the (W (t, i)))), fst (snd (the (W (t, i)))))) ps)"
  using assms
proof (induction ps)
  case (Cons p ps)
  obtain t i where p: "p = (t, i)" by (cases p)
  obtain ch v path where w: "W (t, i) = Some (ch, v, path)" "serde_law E v"
    using Cons.prems [of p] p by auto
  obtain ty b where s: "loads_typed E [PStr ty, PBytes b] = Inr v"
      "dumps_list E v = Inr (PList [PStr ty, PBytes b])"
    using serde_law_dumps [OF w(2)] by metis
  have "decode_writes E None (map (\<lambda>(t, i). write_row E t (the (W (t, i)))) ps) =
    Inr (map (\<lambda>(t, i). (PStr t, PStr (fst (the (W (t, i)))), fst (snd (the (W (t, i)))))) ps)"
    using Cons.IH Cons.prems by simp
  with p w s show ?case by (simp add: write_row_def write_entry_def)
qed simp

context saver_lib
begin

lemma write_key_okt [simp]: "okt (write_key t i) \<longleftrightarrow> okt t"
proof -
  have "okt (show_int i)" by (rule okt_ascii) (use show_int_chars [of i] in force)
  then show ?thesis by (simp add: write_key_def)
qed

lemma read_writes:
  assumes "inv (sv_store sv)" "writes_rep E (content (sv_store sv)) ns W"
  shows "\<exists>ks. sort_writes (store_keys ops ns sv) = Inr ks \<and>
    (if length (store_keys ops ns sv) > 1 then sort_writes (store_keys ops ns sv) else Inr (store_keys ops ns sv)) = Inr ks \<and>
    (\<exists>raw. get_many ops ns ks sv = Inr raw \<and> decode_writes E None raw = Inr (writes_list W))"
proof -
  let ?ks = "store_keys ops ns sv" and ?m = "content (sv_store sv)"
  let ?ps = "sorted_list_of_set (dom W)"
  have ks: "distinct ?ks" "set ?ks = wkey ` dom W"
    using read_keys [OF assms(1), of ns] writes_repD(2) [OF assms(2)] by auto
  have fin: "finite (dom W)" using ks(2) finite_imageD [OF _ inj_wkey] by (metis List.finite_set)
  have s: "sort_writes ?ks = Inr (map wkey ?ps)" using sort_writes_keys [OF ks fin] .
  have short: "Inr ?ks = sort_writes ?ks" if "\<not> length ?ks > 1"
    using sort_writes_short [of ?ks] that s by auto
  have rows: "map (\<lambda>k. the_default PNone (?m (ns, k))) (map wkey ?ps) = map (\<lambda>(t, i). write_row E t (the (W (t, i)))) ?ps"
    using writes_repD(1) [OF assms(2)] fin by (auto simp: domIff)
  have "decode_writes E None (map (\<lambda>(t, i). write_row E t (the (W (t, i)))) ?ps) = Inr (writes_list W)"
    unfolding writes_list_def using writes_repD(3) [OF assms(2)] fin by (intro decode_write_rows) fastforce
  then have "\<exists>raw. get_many ops ns (map wkey ?ps) sv = Inr raw \<and> decode_writes E None raw = Inr (writes_list W)"
    unfolding read_many [OF assms(1)] rows by blast
  with s short show ?thesis by auto
qed

text \<open>Decoding a stored checkpoint whose values are inline.\<close>

lemma build_whole:
  assumes "inv (sv_store sv)" "record_of E rec cp md parent" "serde_law E cp" "serde_law E md"
    "incremental sv \<Longrightarrow> py_in (PStr (lit ''channel_values'')) cp = Inr True"
    "writes_rep E (content (sv_store sv)) (writes_ns t c cid) W"
  shows "build_tuple ops E t c cid rec PNone sv =
    Inr \<lparr>t_config = mk_config t c (PStr cid), t_checkpoint = cp, t_metadata = md,
         t_parent_config = parent_config t c parent, t_pending_writes = writes_list W\<rparr>"
proof -
  obtain ks raw where
    "(if length (store_keys ops (writes_ns t c cid) sv) > 1 then sort_writes (store_keys ops (writes_ns t c cid) sv)
      else Inr (store_keys ops (writes_ns t c cid) sv)) = Inr ks"
    "get_many ops (writes_ns t c cid) ks sv = Inr raw" "decode_writes E None raw = Inr (writes_list W)"
    using read_writes [OF assms(1,6)] by blast
  with record_of_loads [OF assms(2-4)] assms(5) show ?thesis
    unfolding build_tuple_def Let_def by (cases "incremental sv") (simp_all del: lit_simps)
qed

end

section \<open>Adding writes\<close>

text \<open>What a call of \<open>put_writes\<close> adds to the map: every special write, and the positional writes
  whose index the task has not used yet.\<close>

fun write_updates ::
  "lg_env \<Rightarrow> pystr \<Rightarrow> pystr \<Rightarrow> writes_map \<Rightarrow> nat \<Rightarrow> (pystr \<times> pyval) list \<Rightarrow>
   ((pystr \<times> int) \<times> (pystr \<times> pyval \<times> pystr)) list" where
  "write_updates E task path W idx [] = []"
| "write_updates E task path W idx ((ch, v) # ws) =
     (let i = write_index E idx ch; rest = write_updates E task path W (Suc idx) ws
      in if i \<ge> 0 \<and> W (task, i) \<noteq> None then rest else ((task, i), (ch, v, path)) # rest)"

definition add_writes ::
  "lg_env \<Rightarrow> pystr \<Rightarrow> pystr \<Rightarrow> (pystr \<times> pyval) list \<Rightarrow> writes_map \<Rightarrow> writes_map" where
  "add_writes E task path ws W = W ++ map_of (rev (write_updates E task path W 0 ws))"

lemma map_of_rev_Cons: "W ++ map_of (rev ((k, x) # us)) = (W(k \<mapsto> x)) ++ map_of (rev us)"
  by (rule ext) (auto simp: map_add_def split: option.splits)

lemma writes_rep_upd:
  assumes "writes_rep E m ns W" "serde_law E v"
  shows "writes_rep E (m((ns, write_key t i) \<mapsto> write_row E t (ch, v, path))) ns (W((t, i) \<mapsto> (ch, v, path)))"
  using assms unfolding writes_rep_def by auto

lemma write_row_entry: "serde_law E v \<Longrightarrow> write_entry E task path ch v = Inr (write_row E task (ch, v, path))"
  by (auto simp: write_row_def write_entry_def elim!: serde_law_dumps)

lemma write_row_ne: "serde_law E v \<Longrightarrow> write_row E task (ch, v, path) \<noteq> PNone"
  by (auto simp: write_row_def write_entry_def elim!: serde_law_dumps)

definition rows_of :: "lg_env \<Rightarrow> pystr \<Rightarrow> ((pystr \<times> int) \<times> (pystr \<times> pyval \<times> pystr)) list \<Rightarrow> entry list" where
  "rows_of E ns = map (\<lambda>((t, i), x). (ns, write_key t i, write_row E t x))"

lemma writes_rep_rows:
  assumes "writes_rep E m ns W" "\<forall>(p, ch, v, path) \<in> set us. serde_law E v"
  shows "writes_rep E (upd_all (rows_of E ns us) m) ns (W ++ map_of (rev us))"
  using assms
proof (induction us arbitrary: m W)
  case (Cons u us)
  obtain t i ch v path where u: "u = ((t, i), (ch, v, path))" by (metis prod_cases5 surj_pair)
  have "writes_rep E (m((ns, write_key t i) \<mapsto> write_row E t (ch, v, path))) ns (W((t, i) \<mapsto> (ch, v, path)))"
    using Cons.prems u by (intro writes_rep_upd) auto
  from Cons.IH [OF this] Cons.prems(2) show ?case
    unfolding u map_of_rev_Cons by (simp add: rows_of_def del: fun_upd_apply)
qed (simp add: rows_of_def)

lemma upd_rows_other: "fst p \<noteq> ns \<Longrightarrow> upd_all (rows_of E ns us) m p = m p"
  by (cases p) (auto intro!: upd_all_other simp: rows_of_def)

lemma write_updates_from: "(p, ch, v, path') \<in> set (write_updates E task path W idx ws) \<Longrightarrow>
   (ch, v) \<in> set ws \<and> fst p = task \<and> path' = path"
  by (induction ws arbitrary: idx) (fastforce simp: Let_def split: if_splits)+

lemma add_writes_again:
  "add_writes E task path ws (add_writes E task path ws W) = add_writes E task path ws W"
proof -
  define U where "U = write_updates E task path W 0 ws"
  define W1 where "W1 = W ++ map_of (rev U)"
  have "write_updates E task path W1 idx vs = filter (\<lambda>((_, i), _). i < 0) (write_updates E task path W idx vs)"
    if "\<And>u. u \<in> set (write_updates E task path W idx vs) \<Longrightarrow> W1 (fst u) \<noteq> None"
      "\<And>p. W p \<noteq> None \<Longrightarrow> W1 p \<noteq> None" for idx vs
    using that
  proof (induction vs arbitrary: idx)
    case (Cons w vs)
    obtain ch v where w: "w = (ch, v)" by (cases w)
    show ?case
    proof (cases "write_index E idx ch \<ge> 0 \<and> W (task, write_index E idx ch) \<noteq> None")
      case True
      then have "W1 (task, write_index E idx ch) \<noteq> None" using Cons.prems(2) by blast
      with True Cons.IH [of "Suc idx"] Cons.prems show ?thesis by (simp add: w Let_def)
    next
      case False
      have "W1 (task, write_index E idx ch) \<noteq> None"
        using Cons.prems(1) [of "((task, write_index E idx ch), (ch, v, path))"] False w by (auto simp: Let_def)
      moreover have "write_updates E task path W1 (Suc idx) vs =
          filter (\<lambda>((_, i), _). i < 0) (write_updates E task path W (Suc idx) vs)"
        using False Cons.prems by (intro Cons.IH) (auto simp: w Let_def)
      ultimately show ?thesis using False by (auto simp: w Let_def)
    qed
  qed simp
  moreover have "W1 (fst u) \<noteq> None" if "u \<in> set U" for u
    using that map_of_eq_None_iff [of "rev U" "fst u"] by (auto simp: W1_def map_add_None)
  moreover have "W1 p \<noteq> None" if "W p \<noteq> None" for p using that by (auto simp: W1_def map_add_None)
  ultimately have "write_updates E task path W1 0 ws = filter (\<lambda>((_, i), _). i < 0) U"
    unfolding U_def by blast
  then have "add_writes E task path ws W1 = W1 ++ map_of (filter (\<lambda>((_, i), _). i < 0) (rev U))"
    by (simp add: add_writes_def rev_filter)
  also have "\<dots> = W1"
  proof
    fix p
    have f: "(\<lambda>((_, i), _). i < 0) = (\<lambda>u :: (pystr \<times> int) \<times> (pystr \<times> pyval \<times> pystr). snd (fst u) < 0)"
      by auto
    have "map_of (filter (\<lambda>u. snd (fst u) < 0) (rev U)) p = (if snd p < 0 then map_of (rev U) p else None)"
      by (rule map_of_filter_key [where P = "\<lambda>p. snd p < 0"])
    then show "(W1 ++ map_of (filter (\<lambda>((_, i), _). i < 0) (rev U))) p = W1 p"
      unfolding f by (auto simp: map_add_def W1_def split: option.splits)
  qed
  finally show ?thesis by (simp add: W1_def U_def add_writes_def)
qed

context saver_lib
begin

lemma write_batch_run:
  assumes "inv (sv_store sv)" "writes_rep E (content (sv_store sv)) ns W" "\<forall>(ch, v) \<in> set ws. serde_law E v"
  shows "write_batch ops E ns task path idx ws sv = Inr (rows_of E ns (write_updates E task path W idx ws))"
  using assms(3)
proof (induction ws arbitrary: idx)
  case (Cons w ws)
  obtain ch v where w: "w = (ch, v)" by (cases w)
  let ?i = "write_index E idx ch"
  have "store_contains ops ns (write_key task ?i) sv \<longleftrightarrow> W (task, ?i) \<noteq> None"
  proof -
    have "store_contains ops ns (write_key task ?i) sv \<longleftrightarrow> write_key task ?i \<in> wkey ` dom W"
      unfolding writes_repD(2) [OF assms(2), symmetric] read_contains [OF assms(1)] by (simp add: ns_keys_def)
    also have "\<dots> \<longleftrightarrow> W (task, ?i) \<noteq> None" by force
    finally show ?thesis .
  qed
  with Cons w show ?case by (auto simp: Let_def write_row_entry rows_of_def)
qed (simp add: rows_of_def)

lemma do_put_writes:
  assumes "inv (sv_store sv)" "cfg_thread_id config = Some t" "cfg_checkpoint_id config = Some (PStr cid)"
    and tx: "okt t" "okt (cfg_ns config)" "okt cid" "okt task"
    and ok: "\<forall>(ch, v) \<in> set ws. serde_law E v \<and> okv (write_row E task (ch, v, path))"
    and rep: "writes_rep E (content (sv_store sv)) (writes_ns t (cfg_ns config) cid) W"
  obtains s where "put_writes ops E config ws task path sv = (Inr (), sv\<lparr>sv_store := s\<rparr>)" "inv s"
    "writes_rep E (content s) (writes_ns t (cfg_ns config) cid) (add_writes E task path ws W)"
    "\<And>p. fst p \<noteq> writes_ns t (cfg_ns config) cid \<Longrightarrow> content s p = content (sv_store sv) p"
proof -
  let ?ns = "writes_ns t (cfg_ns config) cid"
  let ?us = "write_updates E task path W 0 ws"
  have us: "serde_law E v \<and> okv (write_row E (fst p) (ch, v, path')) \<and> fst p = task" if "(p, ch, v, path') \<in> set ?us" for p ch v path'
    using write_updates_from [OF that] ok by auto
  have batch: "write_batch ops E ?ns task path 0 ws sv = Inr (rows_of E ?ns ?us)"
    using write_batch_run [OF assms(1) rep] ok by fastforce
  have "\<forall>e \<in> set (rows_of E ?ns ?us). entry_ok okt okv e" using us tx by (fastforce simp: rows_of_def)
  then obtain s where s: "set_many ops (rows_of E ?ns ?us) sv = (Inr (), sv\<lparr>sv_store := s\<rparr>)" "inv s"
      "content s = upd_all (rows_of E ?ns ?us) (content (sv_store sv))"
    using do_set_many [OF assms(1)] by blast
  show ?thesis
  proof (rule that [OF _ s(2)])
    show "put_writes ops E config ws task path sv = (Inr (), sv\<lparr>sv_store := s\<rparr>)"
      using assms(2,3) batch s(1) by (simp add: put_writes_def need_def act_simps Let_def)
    show "writes_rep E (content s) ?ns (add_writes E task path ws W)"
      unfolding s(3) add_writes_def using rep us by (intro writes_rep_rows) auto
    show "content s p = content (sv_store sv) p" if "fst p \<noteq> ?ns" for p
      unfolding s(3) using that by (rule upd_rows_other)
  qed
qed

end

end
