(* ===== verification/Snapshots.thy ===== *)
theory Snapshots
  imports Store_Contract
begin

text \<open>
  \<^verbatim>\<open>src/python/swarmstate/backends/_snapshot.py\<close>: the snapshot surface of the backends that copy
  rows. \<open>now\<close> is the clock reading (\<open>time.time()\<close>, the bits of a float).
\<close>

type_synonym row = "pystr \<times> pystr \<times> bytes"

record snapshot_meta =
  meta_seq :: int
  meta_last :: "int option"

definition snapshot_meta_init :: snapshot_meta where
  "snapshot_meta_init = \<lparr>meta_seq = 0, meta_last = None\<rparr>"

definition meta_next ::
  "64 word \<Rightarrow> snapshot_meta \<Rightarrow> (int \<times> 64 word \<times> int option) \<times> snapshot_meta" where
  "meta_next now m =
     (let m1 = m\<lparr>meta_seq := meta_seq m + 1\<rparr>;
          snapshot_id = meta_seq m1; parent = meta_last m1
      in ((snapshot_id, now, parent), m1\<lparr>meta_last := Some snapshot_id\<rparr>))"

record copy_snapshot =
  cs_rows :: "row list"
  cs_id :: int
  cs_timestamp :: "64 word"
  cs_parent :: "int option"
  cs_size_bytes :: nat

definition copy_snapshot_init ::
  "row list \<Rightarrow> int \<Rightarrow> 64 word \<Rightarrow> int option \<Rightarrow> copy_snapshot" where
  "copy_snapshot_init rows snapshot_id timestamp parent =
     \<lparr>cs_rows = rows, cs_id = snapshot_id, cs_timestamp = timestamp, cs_parent = parent,
      cs_size_bytes = sum_list (map (\<lambda>(_, _, v). length v) rows)\<rparr>"

definition cs_keys :: "copy_snapshot \<Rightarrow> (pystr \<times> pystr) list" where
  "cs_keys sn = map (\<lambda>(ns, k, _). (ns, k)) (cs_rows sn)"

definition rows_dict :: "row list \<Rightarrow> (pystr \<times> pystr, bytes) dict" where
  "rows_dict rows = dict_of (map (\<lambda>(ns, k, v). ((ns, k), v)) rows)"

definition cs_diff :: "copy_snapshot \<Rightarrow> copy_snapshot \<Rightarrow> snap_diff" where
  "cs_diff self base =
     (let mine = rows_dict (cs_rows self); theirs = rows_dict (cs_rows base)
      in \<lparr>diff_added = filter (\<lambda>p. dget theirs p = None) (dkeys mine),
          diff_removed = filter (\<lambda>p. dget mine p = None) (dkeys theirs),
          diff_changed = map fst (filter (\<lambda>(p, v). dget theirs p \<noteq> None \<and> dget theirs p \<noteq> Some v) mine)\<rparr>)"

definition cs_view :: "copy_snapshot \<Rightarrow> pystr \<times> pystr \<Rightarrow> bytes option" where
  "cs_view sn = dget (rows_dict (cs_rows sn))"

lemma rows_dict_ok [simp]: "dict_ok (rows_dict rows)"
  by (simp add: rows_dict_def)

lemma set_filter_None: "{x \<in> set xs. dget d x = None} = set xs - set (dkeys d)"
  by (auto simp: dget_None_iff)

interpretation copy_snap: snapshot_like cs_view "\<lambda>_. True" cs_diff
proof unfold_locales
  fix a b :: copy_snapshot
  let ?m = "rows_dict (cs_rows a)" and ?t = "rows_dict (cs_rows b)"
  show "set (diff_added (cs_diff a b)) = dom (cs_view a) - dom (cs_view b)"
    unfolding cs_diff_def Let_def cs_view_def dom_dget snap_diff.simps set_filter set_filter_None ..
  show "set (diff_removed (cs_diff a b)) = dom (cs_view b) - dom (cs_view a)"
    unfolding cs_diff_def Let_def cs_view_def dom_dget snap_diff.simps set_filter set_filter_None ..
  have "p \<in> set (diff_changed (cs_diff a b)) \<longleftrightarrow>
      (\<exists>v. dget ?m p = Some v \<and> dget ?t p \<noteq> None \<and> dget ?t p \<noteq> Some v)" for p
    unfolding dget_iff_in_set [OF rows_dict_ok, of "cs_rows a"] by (force simp: cs_diff_def Let_def)
  then show "set (diff_changed (cs_diff a b)) =
      {p \<in> dom (cs_view a) \<inter> dom (cs_view b). cs_view a p \<noteq> cs_view b p}"
    by (auto simp: cs_view_def)
qed

lemma cs_view_distinct:
  "distinct (map (\<lambda>(ns, k, v). (ns, k)) (cs_rows sn)) \<Longrightarrow>
   cs_view sn = map_of (map (\<lambda>(ns, k, v). ((ns, k), v)) (cs_rows sn))"
  by (simp add: cs_view_def rows_dict_def dget_dict_of_distinct o_def case_prod_unfold)

text \<open>Ids count from one, and each snapshot names its predecessor.\<close>

fun meta_take :: "64 word list \<Rightarrow> snapshot_meta \<Rightarrow> (int \<times> 64 word \<times> int option) list \<times> snapshot_meta" where
  "meta_take [] m = ([], m)"
| "meta_take (now # ts) m =
     (let (x, m1) = meta_next now m; (xs, m2) = meta_take ts m1 in (x # xs, m2))"

lemma meta_take_ids:
  "fst (meta_take ts m) ! i =
     (meta_seq m + 1 + int i, ts ! i, if i = 0 then meta_last m else Some (meta_seq m + int i))"
  if "i < length ts" for i
  using that
proof (induction ts arbitrary: m i)
  case (Cons t ts)
  then show ?case
    by (cases i) (auto simp: meta_next_def Let_def case_prod_unfold)
qed simp

lemma cs_diff_distinct:
  "distinct (diff_added (cs_diff a b)) \<and> distinct (diff_removed (cs_diff a b)) \<and> distinct (diff_changed (cs_diff a b))"
  using rows_dict_ok [of "cs_rows a"] rows_dict_ok [of "cs_rows b"]
  by (simp add: cs_diff_def Let_def dict_ok_def distinct_map_filter)

text \<open>
  The copy-based snapshots of the persistent backends have the same \<open>diff\<close> as the in-memory
  store: between any two of them it lists, each pair once, the keys only the newer one has, the
  keys only the base has, and the keys whose stored bytes differ; it is empty exactly when both
  hold the same rows, and a snapshot's size is the total length of its values.
\<close>

theorem copy_diff_exact:
  "set (diff_added (cs_diff a b)) = dom (cs_view a) - dom (cs_view b) \<and>
   set (diff_removed (cs_diff a b)) = dom (cs_view b) - dom (cs_view a) \<and>
   set (diff_changed (cs_diff a b)) = {p \<in> dom (cs_view a) \<inter> dom (cs_view b). cs_view a p \<noteq> cs_view b p} \<and>
   distinct (diff_added (cs_diff a b)) \<and> distinct (diff_removed (cs_diff a b)) \<and>
   distinct (diff_changed (cs_diff a b)) \<and>
   (cs_diff a b = \<lparr>diff_added = [], diff_removed = [], diff_changed = []\<rparr> \<longleftrightarrow> cs_view a = cs_view b) \<and>
   cs_size_bytes (copy_snapshot_init rows i now parent) = (\<Sum>(ns, k, v) \<leftarrow> rows. length v)"
  using copy_snap.added_law [of a b] copy_snap.removed_law [of a b] copy_snap.changed_law [of a b]
    copy_snap.diff_empty_iff [of a b] cs_diff_distinct [of a b]
  by (cases "cs_diff a b") (simp add: copy_snapshot_init_def)

end
