(* ===== verification/Prefix_Bound.thy ===== *)
theory Prefix_Bound
  imports Prelude
begin

text \<open>
  \<^verbatim>\<open>src/python/swarmstate/backends/_prefix.py\<close>: the exclusive upper bound that turns a prefix
  filter into a range of code-point strings. \<open>prefix_range\<close> is the fact the SQL backend relies
  on: on storable text the range \<open>prefix \<le> k < upper\<close> holds exactly the strings that start with
  the prefix. \<open>upper_least\<close> is the docstring's claim that the bound is the smallest such string.
\<close>

definition max_code_point :: nat where
  "max_code_point = 1114111"

definition surrogate :: "nat \<Rightarrow> bool" where
  "surrogate c \<longleftrightarrow> 55296 \<le> c \<and> c < 57344"

function prefix_upper_bound :: "pystr \<Rightarrow> pystr option" where
  "prefix_upper_bound chars =
     (if chars = [] then None
      else let cp = last chars + 1;
               cp = (if surrogate cp then 57344 else cp)
           in if cp \<le> max_code_point then Some (butlast chars @ [cp])
              else prefix_upper_bound (butlast chars))"
  by pat_completeness auto
termination
  by (relation "measure length") auto

declare prefix_upper_bound.simps [simp del]

lemma scalar_iff: "scalar c \<longleftrightarrow> c \<le> max_code_point \<and> \<not> surrogate c"
  by (auto simp: scalar_def max_code_point_def surrogate_def)

definition next_cp :: "nat \<Rightarrow> nat" where
  "next_cp c = (if surrogate (c + 1) then 57344 else c + 1)"

lemma next_cp_least: "scalar c \<Longrightarrow> scalar x \<Longrightarrow> c \<le> x \<Longrightarrow> x < next_cp c \<Longrightarrow> x = c"
  by (auto simp: next_cp_def scalar_iff surrogate_def split: if_splits)

lemma next_cp_gt: "c < next_cp c" if "scalar c"
  using that by (auto simp: next_cp_def surrogate_def scalar_iff)

lemma next_cp_scalar: "next_cp c \<le> max_code_point \<Longrightarrow> scalar c \<Longrightarrow> scalar (next_cp c)"
  by (auto simp: next_cp_def scalar_iff surrogate_def split: if_splits)

lemma next_cp_max: "scalar c \<Longrightarrow> \<not> next_cp c \<le> max_code_point \<Longrightarrow> c = max_code_point"
  by (auto simp: next_cp_def scalar_iff surrogate_def max_code_point_def split: if_splits)

lemma upper_snoc:
  "prefix_upper_bound (s @ [c]) =
     (if next_cp c \<le> max_code_point then Some (s @ [next_cp c]) else prefix_upper_bound s)"
  by (subst prefix_upper_bound.simps) (simp add: next_cp_def Let_def)

lemma upper_Nil [simp]: "prefix_upper_bound [] = None"
  by (subst prefix_upper_bound.simps) simp

text \<open>The shape of a prefix and its bound: the part before the last bumpable character, that
  character, and a run of maximal characters.\<close>

lemma upper_shape:
  assumes "is_text p" "prefix_upper_bound p = Some u"
  obtains q c n where "p = q @ c # replicate n max_code_point" "u = q @ [next_cp c]"
    "next_cp c \<le> max_code_point"
proof -
  have "\<exists>q c n. p = q @ c # replicate n max_code_point \<and> u = q @ [next_cp c] \<and>
      next_cp c \<le> max_code_point"
    using assms
  proof (induction p rule: rev_induct)
    case (snoc c p)
    show ?case
    proof (cases "next_cp c \<le> max_code_point")
      case True
      with snoc.prems show ?thesis
        by (intro exI [of _ p] exI [of _ c] exI [of _ 0]) (simp add: upper_snoc)
    next
      case False
      with snoc obtain q d n where "p = q @ d # replicate n max_code_point"
        "u = q @ [next_cp d]" "next_cp d \<le> max_code_point"
        by (auto simp: upper_snoc)
      moreover from False snoc.prems have "c = max_code_point" by (simp add: next_cp_max)
      ultimately show ?thesis
        by (intro exI [of _ q] exI [of _ d] exI [of _ "Suc n"])
          (simp add: replicate_append_same)
    qed
  qed simp
  with that show ?thesis by blast
qed

lemma replicate_max_le:
  "is_text s \<Longrightarrow> replicate n max_code_point \<le> s \<longleftrightarrow> startswith s (replicate n max_code_point)"
proof (induction n arbitrary: s)
  case (Suc n)
  then show ?case
    by (cases s) (auto simp: startswith_def scalar_iff)
qed simp

lemma range_shape:
  assumes "is_text k" "scalar c" "next_cp c \<le> max_code_point"
  shows "startswith k (q @ c # replicate n max_code_point) \<longleftrightarrow>
    q @ c # replicate n max_code_point \<le> k \<and> k < q @ [next_cp c]"
  using assms
proof (induction q arbitrary: k)
  case Nil
  show ?case
  proof (cases k)
    case (Cons x xs)
    with Nil next_cp_least [of c x] next_cp_gt [of c] show ?thesis
      by (auto simp: startswith_def replicate_max_le)
  qed (simp add: startswith_def)
next
  case (Cons y q)
  then show ?case by (cases k) (auto simp: startswith_def)
qed

lemma prefix_range:
  assumes "is_text p" "is_text k" "prefix_upper_bound p = Some u"
  shows "startswith k p \<longleftrightarrow> p \<le> k \<and> k < u"
  using upper_shape [OF assms(1,3)] range_shape [OF assms(2)] assms(1)
  by (metis is_text_simps(2,3))

lemma upper_text:
  assumes "is_text p" "prefix_upper_bound p = Some u"
  shows "is_text u"
proof -
  obtain q c n where "p = q @ c # replicate n max_code_point" "u = q @ [next_cp c]"
    "next_cp c \<le> max_code_point"
    using assms by (rule upper_shape)
  with assms(1) show ?thesis by (simp add: next_cp_scalar)
qed

lemma upper_least:
  assumes "is_text p" "prefix_upper_bound p = Some u" "is_text w"
    and above: "\<And>k. is_text k \<Longrightarrow> startswith k p \<Longrightarrow> k < w"
  shows "u \<le> w"
proof (rule ccontr)
  assume "\<not> u \<le> w"
  then have "w < u" by simp
  moreover have "p \<le> w" using above [of p] assms(1) startswith_append [of p "[]"] by simp
  ultimately have "startswith w p" using prefix_range [OF assms(1,3,2)] by simp
  then show False using above [OF assms(3)] by blast
qed

lemma upper_None: "is_text p \<Longrightarrow> prefix_upper_bound p = None \<longleftrightarrow> set p \<subseteq> {max_code_point}"
proof (induction p rule: rev_induct)
  case (snoc c p)
  then show ?case
    by (auto simp: upper_snoc dest: next_cp_max)
      (auto simp: next_cp_def max_code_point_def surrogate_def)
qed simp

text \<open>
  C1. The range filter of the SQL backend is exact: on storable text, whenever
  \<open>prefix_upper_bound\<close> returns a bound, the strings at or above the prefix and below the bound
  are exactly those that start with the prefix, the bound is itself storable text, and it is the
  least storable string above all of them; it returns none only for prefixes made of U+10FFFF.
\<close>

theorem prefix_upper_bound_correct:
  assumes "is_text p"
  shows "case prefix_upper_bound p of
      None \<Rightarrow> set p \<subseteq> {max_code_point}
    | Some u \<Rightarrow> is_text u \<and>
        (\<forall>k. is_text k \<longrightarrow> (startswith k p \<longleftrightarrow> p \<le> k \<and> k < u)) \<and>
        (\<forall>w. is_text w \<and> (\<forall>k. is_text k \<and> startswith k p \<longrightarrow> k < w) \<longrightarrow> u \<le> w)"
proof (cases "prefix_upper_bound p")
  case None
  with upper_None [OF assms] show ?thesis by simp
next
  case (Some u)
  with assms prefix_range [of p] upper_text [of p] upper_least [of p] show ?thesis by auto
qed

text \<open>Witness of C1: \<open>"a" + U+10FFFF\<close> has the bound \<open>"b"\<close>.\<close>

theorem prefix_upper_bound_correct_witness:
  "is_text [97, 1114111] \<and> prefix_upper_bound [97, 1114111] = Some [98] \<and>
   (startswith [97, 1114111, 5] [97, 1114111] \<longleftrightarrow> [97, 1114111] \<le> [97, 1114111, 5] \<and> [97, 1114111, 5] < [98 :: nat])"
proof -
  have t: "is_text [97, 1114111]" "is_text [97, 1114111, 5]"
    by (simp_all add: scalar_iff surrogate_def max_code_point_def)
  have u: "prefix_upper_bound [97, 1114111] = Some [98]"
    by (simp add: prefix_upper_bound.simps surrogate_def max_code_point_def)
  show ?thesis using prefix_upper_bound_correct [OF t(1)] t u by simp
qed

end
