(* ===== verification/Disk_Store.thy ===== *)
theory Disk_Store
  imports Snapshots Prefix_Bound
begin

text \<open>
  \<^verbatim>\<open>src/python/swarmstate/backends/disk.py\<close>: the SQLite store. The database is the table
  \<open>kv(ns, k, v)\<close> with primary key \<open>(ns, k)\<close>, its rows in \<open>rowid\<close> order; the statements of the
  source are the functions on tables of the first section, with \<open>BINARY\<close> text comparison (code
  point order) and rejection of text that has no UTF-8 encoding. Connections, PRAGMAs and waiting
  for other writers are not modelled: a statement acts on the committed table. \<open>C\<close> is the
  \<open>msgpack\<close> package (\<open>_pack\<close>, \<open>_unpack\<close>).
\<close>

section \<open>Statements\<close>

type_synonym table = "row list"

definition at_key :: "pystr \<Rightarrow> pystr \<Rightarrow> row \<Rightarrow> bool" where
  "at_key ns k = (\<lambda>(ns', k', _). ns' = ns \<and> k' = k)"

definition in_ns :: "pystr \<Rightarrow> row \<Rightarrow> bool" where
  "in_ns ns = (\<lambda>(ns', _, _). ns' = ns)"

text \<open>\<open>INSERT OR REPLACE INTO kv\<close>: a row with the key is deleted, the new row gets a new rowid.\<close>

definition sql_replace :: "row \<Rightarrow> (table, unit) act" where
  "sql_replace = (\<lambda>(ns, k, v). if is_text ns \<and> is_text k
     then updA (\<lambda>t. filter (\<lambda>r. \<not> at_key ns k r) t @ [(ns, k, v)]) else raiseA UnicodeError)"

text \<open>\<open>INSERT INTO kv\<close>: the primary key must be free.\<close>

definition sql_insert :: "row \<Rightarrow> (table, unit) act" where
  "sql_insert = (\<lambda>(ns, k, v). if is_text ns \<and> is_text k
     then bindA (askA (\<lambda>t. filter (at_key ns k) t)) (\<lambda>clash.
            if clash = [] then updA (\<lambda>t. t @ [(ns, k, v)]) else raiseA IntegrityError)
     else raiseA UnicodeError)"

text \<open>\<open>DELETE FROM kv WHERE ...\<close> and its row count.\<close>

definition sql_delete :: "(row \<Rightarrow> bool) \<Rightarrow> table \<Rightarrow> nat \<times> table" where
  "sql_delete P t = (length (filter P t), filter (\<lambda>r. \<not> P r) t)"

section \<open>The store\<close>

record disk_store =
  d_path :: pystr
  d_codec :: pystr
  d_table :: table
  d_snap_meta :: snapshot_meta

definition MAX_PARAMS :: nat where "MAX_PARAMS = 900"

text \<open>\<open>file\<close> is what the database file holds (nothing for a new file).\<close>

definition disk_init :: "pystr \<Rightarrow> pystr \<Rightarrow> table \<Rightarrow> exc + disk_store" where
  "disk_init path codec file =
     (if codec \<noteq> lit ''msgpack'' then Inl (ValueError ''codec is not supported'')
      else Inr \<lparr>d_path = path, d_codec = codec, d_table = file, d_snap_meta = snapshot_meta_init\<rparr>)"

definition on_table :: "(table, 'a) act \<Rightarrow> (disk_store, 'a) act" where
  "on_table m st = (case m (d_table st) of (r, t) \<Rightarrow> (r, st\<lparr>d_table := t\<rparr>))"

text \<open>\<open>_transaction\<close>: the statements of the body, rolled back when one of them raises.\<close>

definition transaction :: "(table, 'a) act \<Rightarrow> (table, 'a) act" where
  "transaction m t = (case m t of (Inl e, _) \<Rightarrow> (Inl e, t) | (Inr x, t') \<Rightarrow> (Inr x, t'))"

definition disk_set :: "codec \<Rightarrow> pystr \<Rightarrow> pystr \<Rightarrow> pyval \<Rightarrow> (disk_store, unit) act" where
  "disk_set C namespace key value =
     bindA (liftE (encode C value)) (\<lambda>b. on_table (sql_replace (namespace, key, b)))"

definition row_value :: "table \<Rightarrow> pystr \<Rightarrow> pystr \<Rightarrow> bytes option" where
  "row_value t ns k = (case filter (at_key ns k) t of [] \<Rightarrow> None | (_, _, v) # _ \<Rightarrow> Some v)"

definition disk_get :: "codec \<Rightarrow> disk_store \<Rightarrow> pystr \<Rightarrow> pystr \<Rightarrow> pyval \<Rightarrow> exc + pyval" where
  "disk_get C st namespace key dflt =
     (case row_value (d_table st) namespace key of None \<Rightarrow> Inr dflt | Some raw \<Rightarrow> decode C raw)"

definition disk_set_many :: "codec \<Rightarrow> entry list \<Rightarrow> (disk_store, unit) act" where
  "disk_set_many C items =
     (if items = [] then retA ()
      else bindA (liftE (mapE (\<lambda>(ns, k, v). bindE (encode C v) (\<lambda>b. Inr (ns, k, b))) items)) (\<lambda>rows.
        on_table (transaction (forA sql_replace rows))))"

text \<open>\<open>by_ns.setdefault(ns, []).append(key)\<close>, and the slices of at most \<open>_MAX_PARAMS - 1\<close> keys.\<close>

definition group_by_ns :: "(pystr \<times> pystr) list \<Rightarrow> (pystr, pystr list) dict" where
  "group_by_ns pairs = fold (\<lambda>(ns, key) d.
     case dget d ns of None \<Rightarrow> dset ns [key] d | Some ks \<Rightarrow> dset ns (ks @ [key]) d) pairs []"

definition disk_found :: "table \<Rightarrow> (pystr, pystr list) dict \<Rightarrow> (pystr \<times> pystr, bytes) dict" where
  "disk_found t by_ns = dict_of (concat (map (\<lambda>(ns, keys).
     concat (map (\<lambda>chunk. map (\<lambda>(_, key, value). ((ns, key), value))
        (filter (\<lambda>(ns', k, _). ns' = ns \<and> k \<in> set chunk) t)) (chunks (MAX_PARAMS - 1) keys))) by_ns))"

definition disk_get_many :: "codec \<Rightarrow> disk_store \<Rightarrow> (pystr \<times> pystr) list \<Rightarrow> exc + pyval list" where
  "disk_get_many C st pairs =
     (if pairs = [] then Inr []
      else let found = disk_found (d_table st) (group_by_ns pairs)
           in mapE (\<lambda>p. case dget found p of None \<Rightarrow> Inr PNone | Some raw \<Rightarrow> decode C raw) pairs)"

definition disk_contains :: "disk_store \<Rightarrow> pystr \<Rightarrow> pystr \<Rightarrow> bool" where
  "disk_contains st namespace key \<longleftrightarrow> filter (at_key namespace key) (d_table st) \<noteq> []"

definition disk_delete :: "disk_store \<Rightarrow> pystr \<Rightarrow> pystr \<Rightarrow> bool \<times> disk_store" where
  "disk_delete st namespace key =
     (let (n, t) = sql_delete (at_key namespace key) (d_table st) in (n > 0, st\<lparr>d_table := t\<rparr>))"

fun delete_rows :: "(pystr \<times> pystr) list \<Rightarrow> table \<Rightarrow> nat \<times> table" where
  "delete_rows [] t = (0, t)"
| "delete_rows ((ns, k) # ps) t =
     (let (n, t') = sql_delete (at_key ns k) t; (m, t'') = delete_rows ps t' in (n + m, t''))"

definition disk_delete_many :: "disk_store \<Rightarrow> (pystr \<times> pystr) list \<Rightarrow> nat \<times> disk_store" where
  "disk_delete_many st pairs =
     (if pairs = [] then (0, st)
      else let (n, t) = delete_rows pairs (d_table st) in (n, st\<lparr>d_table := t\<rparr>))"

definition disk_delete_namespace :: "disk_store \<Rightarrow> pystr \<Rightarrow> nat \<times> disk_store" where
  "disk_delete_namespace st namespace =
     (let (n, t) = sql_delete (in_ns namespace) (d_table st) in (n, st\<lparr>d_table := t\<rparr>))"

text \<open>The three forms of the prefix condition: none, a range, and \<open>substr(x, 1, n) = p\<close>.\<close>

definition prefix_cond :: "pystr option \<Rightarrow> pystr \<Rightarrow> bool" where
  "prefix_cond pre x = (case pre of
       None \<Rightarrow> True
     | Some p \<Rightarrow> (case prefix_upper_bound p of
           Some upper \<Rightarrow> p \<le> x \<and> x < upper
         | None \<Rightarrow> take (length p) x = p))"

definition disk_keys :: "disk_store \<Rightarrow> pystr \<Rightarrow> pystr option \<Rightarrow> pystr list" where
  "disk_keys st namespace pre =
     map (\<lambda>(_, k, _). k) (filter (\<lambda>(ns, k, _). ns = namespace \<and> prefix_cond pre k) (d_table st))"

definition disk_max_key :: "disk_store \<Rightarrow> pystr \<Rightarrow> pystr option" where
  "disk_max_key st namespace = max_str (map (\<lambda>(_, k, _). k) (filter (in_ns namespace) (d_table st)))"

definition disk_namespaces :: "disk_store \<Rightarrow> pystr option \<Rightarrow> pystr list" where
  "disk_namespaces st pre =
     remdups (map (\<lambda>(ns, _, _). ns) (filter (\<lambda>(ns, _, _). prefix_cond pre ns) (d_table st)))"

definition disk_clear :: "disk_store \<Rightarrow> disk_store" where
  "disk_clear st = st\<lparr>d_table := snd (sql_delete (\<lambda>_. True) (d_table st))\<rparr>"

definition disk_len :: "disk_store \<Rightarrow> nat" where
  "disk_len st = length (d_table st)"

definition disk_has_namespace :: "disk_store \<Rightarrow> pystr \<Rightarrow> bool" where
  "disk_has_namespace st namespace \<longleftrightarrow> filter (in_ns namespace) (d_table st) \<noteq> []"

definition disk_snapshot :: "64 word \<Rightarrow> disk_store \<Rightarrow> copy_snapshot \<times> disk_store" where
  "disk_snapshot now st =
     (let rows = d_table st; ((i, ts, parent), m) = meta_next now (d_snap_meta st)
      in (copy_snapshot_init rows i ts parent, st\<lparr>d_snap_meta := m\<rparr>))"

definition disk_restore :: "copy_snapshot \<Rightarrow> (disk_store, unit) act" where
  "disk_restore sn = on_table (transaction
     (thenA (updA (\<lambda>t. snd (sql_delete (\<lambda>_. True) t))) (forA sql_insert (cs_rows sn))))"

text \<open>The store as the adapters use it.\<close>

definition outcome :: "(exc + unit) \<times> 's \<Rightarrow> exc + 's" where
  "outcome r = (case r of (Inl e, _) \<Rightarrow> Inl e | (Inr _, s) \<Rightarrow> Inr s)"

definition disk_ops :: "codec \<Rightarrow> disk_store store_ops" where
  "disk_ops C =
     \<lparr>op_set = (\<lambda>st ns k v. outcome (disk_set C ns k v st)), op_get = disk_get C,
      op_set_many = Some (\<lambda>st es. outcome (disk_set_many C es st)),
      op_get_many = Some (disk_get_many C),
      op_contains = disk_contains, op_delete = disk_delete,
      op_delete_many = Some disk_delete_many, op_delete_namespace = Some disk_delete_namespace,
      op_keys = (\<lambda>st ns. disk_keys st ns None),
      op_keys_prefix = (\<lambda>st ns p. Inr (disk_keys st ns (Some p))),
      op_max_key = disk_max_key,
      op_namespaces = (\<lambda>st. disk_namespaces st None),
      op_namespaces_prefix = (\<lambda>st p. Inr (disk_namespaces st (Some p))),
      op_clear = disk_clear, op_len = disk_len, op_has_namespace = disk_has_namespace,
      op_indexed_max_key = True\<rparr>"

end
