(* ===== verification/Disk_Store_Laws.thy ===== *)
theory Disk_Store_Laws
  imports Disk_Store
begin

text \<open>
  The SQLite store implements the store contract; its chunked batch read, its range conditions and
  its transactions do what the single operations would.
\<close>

section \<open>Tables as maps\<close>

definition row_key :: "row \<Rightarrow> pystr \<times> pystr" where
  "row_key = (\<lambda>(ns, k, v). (ns, k))"

lemma row_key_simp [simp]: "row_key (ns, k, v) = (ns, k)"
  by (simp add: row_key_def)

lemma row_key_image: "fst ` (\<lambda>(ns, k, v). ((ns, k), v)) ` set t = row_key ` set t"
  by (simp add: image_image case_prod_unfold row_key_def)

lemma row_key_map: "map fst (map (\<lambda>(ns, k, v). ((ns, k), v)) t) = map row_key t"
  by (simp add: o_def case_prod_unfold row_key_def)

definition traw :: "table \<Rightarrow> pystr \<times> pystr \<Rightarrow> bytes option" where
  "traw t = map_of (map (\<lambda>(ns, k, v). ((ns, k), v)) t)"

definition table_ok :: "codec \<Rightarrow> table \<Rightarrow> bool" where
  "table_ok C t \<longleftrightarrow> distinct (map row_key t) \<and>
     (\<forall>(ns, k, b) \<in> set t. is_text ns \<and> is_text k \<and> \<not> isl (decode C b))"

definition disk_inv :: "codec \<Rightarrow> disk_store \<Rightarrow> bool" where
  "disk_inv C st \<longleftrightarrow> table_ok C (d_table st)"

definition decoded :: "codec \<Rightarrow> bytes option \<Rightarrow> pyval option" where
  "decoded C r = (case r of None \<Rightarrow> None
     | Some b \<Rightarrow> (case decode C b of Inl e \<Rightarrow> None | Inr v \<Rightarrow> Some v))"

definition disk_content :: "codec \<Rightarrow> disk_store \<Rightarrow> content" where
  "disk_content C st p = decoded C (traw (d_table st) p)"

lemma traw_in_set:
  assumes "distinct (map row_key t)"
  shows "traw t (ns, k) = Some b \<longleftrightarrow> (ns, k, b) \<in> set t"
proof -
  have "distinct (map fst (map (\<lambda>(ns, k, v). ((ns, k), v)) t))"
    using assms by (simp only: row_key_map)
  then show ?thesis unfolding traw_def by (subst map_of_eq_Some_iff) force+
qed

lemma traw_dom: "traw t p \<noteq> None \<longleftrightarrow> p \<in> row_key ` set t"
  unfolding traw_def by (simp add: map_of_eq_None_iff row_key_image)

lemma table_okD:
  assumes "table_ok C t"
  shows "distinct (map row_key t)"
    "(ns, k, b) \<in> set t \<Longrightarrow> is_text ns \<and> is_text k \<and> (\<exists>v. decode C b = Inr v)"
proof -
  show "distinct (map row_key t)" using assms by (simp add: table_ok_def)
  show "is_text ns \<and> is_text k \<and> (\<exists>v. decode C b = Inr v)" if "(ns, k, b) \<in> set t"
    using bspec [OF conjunct2 [OF assms [unfolded table_ok_def]] that] by (cases "decode C b") auto
qed

lemma table_ok_content:
  assumes "table_ok C t" "traw t p = Some b"
  obtains v where "decode C b = Inr v" "decoded C (traw t p) = Some v"
proof -
  obtain ns k where p: "p = (ns, k)" by (cases p)
  have "(ns, k, b) \<in> set t" using traw_in_set [OF table_okD(1) [OF assms(1)]] assms(2) p by blast
  then obtain v where "decode C b = Inr v" using table_okD(2) [OF assms(1)] by blast
  with assms(2) that show ?thesis by (simp add: decoded_def)
qed

lemma decoded_None: "table_ok C t \<Longrightarrow> decoded C (traw t p) = None \<longleftrightarrow> traw t p = None"
  by (cases "traw t p") (auto simp: decoded_def elim: table_ok_content)

lemma dom_disk_content: "disk_inv C st \<Longrightarrow> dom (disk_content C st) = row_key ` set (d_table st)"
  by (rule set_eqI) (simp add: domIff disk_content_def decoded_None disk_inv_def traw_dom [symmetric])

lemma traw_filter:
  "traw (filter (\<lambda>r. Q (row_key r)) t) p = (if Q p then traw t p else None)"
  by (induction t) (auto simp: traw_def)

lemma traw_append: "traw (t @ u) p = (case traw u p of None \<Rightarrow> traw t p | Some b \<Rightarrow> Some b)
    \<or> traw t p \<noteq> None"
  by (auto simp: traw_def map_add_def split: option.splits)

lemma traw_snoc: "traw t (ns, k) = None \<Longrightarrow> traw (t @ [(ns, k, v)]) = (traw t)((ns, k) \<mapsto> v)"
  by (rule ext) (auto simp: traw_def map_add_def split: option.splits)

lemma at_key_row_key: "at_key ns k r \<longleftrightarrow> row_key r = (ns, k)"
  by (auto simp: at_key_def split: prod.splits)

lemma in_ns_row_key: "in_ns ns r \<longleftrightarrow> fst (row_key r) = ns"
  by (auto simp: in_ns_def split: prod.splits)

lemma table_ok_filter: "table_ok C t \<Longrightarrow> table_ok C (filter P t)"
  by (auto simp: table_ok_def distinct_map_filter)

section \<open>Single statements\<close>

definition put_row :: "row \<Rightarrow> table \<Rightarrow> table" where
  "put_row = (\<lambda>(ns, k, v) t. filter (\<lambda>r. \<not> at_key ns k r) t @ [(ns, k, v)])"

lemma put_row_ok:
  assumes "table_ok C t" "is_text ns" "is_text k" "decode C b = Inr v"
  shows "table_ok C (put_row (ns, k, b) t)" "traw (put_row (ns, k, b) t) = (traw t)((ns, k) \<mapsto> b)"
proof -
  show "table_ok C (put_row (ns, k, b) t)"
    using assms by (auto simp: table_ok_def put_row_def distinct_map_filter at_key_row_key)
  have "traw (filter (\<lambda>r. row_key r \<noteq> (ns, k)) t) = (traw t)((ns, k) := None)"
    by (rule ext) (auto simp: traw_filter [where Q = "\<lambda>p. p \<noteq> (ns, k)"])
  then show "traw (put_row (ns, k, b) t) = (traw t)((ns, k) \<mapsto> b)"
    by (simp add: put_row_def at_key_row_key traw_snoc)
qed

lemma run_sql_replace: "is_text ns \<Longrightarrow> is_text k \<Longrightarrow> sql_replace (ns, k, v) t = (Inr (), put_row (ns, k, v) t)"
  by (simp add: sql_replace_def put_row_def act_simps)

lemma disk_set_law:
  assumes "disk_inv C st" "is_text ns" "is_text k" "storable C v"
  shows "\<exists>st'. outcome (disk_set C ns k v st) = Inr st' \<and> disk_inv C st' \<and>
    disk_content C st' = (disk_content C st)((ns, k) \<mapsto> v)"
proof -
  obtain b where b: "encode C v = Inr b" "decode C b = Inr v" using assms(4) by (auto simp: storable_iff)
  let ?st = "st\<lparr>d_table := put_row (ns, k, b) (d_table st)\<rparr>"
  have "outcome (disk_set C ns k v st) = Inr ?st"
    by (simp add: disk_set_def act_simps on_table_def run_sql_replace assms(2,3) b outcome_def)
  moreover have "disk_inv C ?st" "disk_content C ?st = (disk_content C st)((ns, k) \<mapsto> v)"
    using put_row_ok [OF _ assms(2,3) b(2)] assms(1) b(2)
    by (auto simp: disk_inv_def disk_content_def decoded_def)
  ultimately show ?thesis by blast
qed

lemma row_value_traw: "row_value t ns k = traw t (ns, k)"
  by (induction t) (auto simp: row_value_def traw_def at_key_def)

lemma disk_get_law:
  assumes "disk_inv C st"
  shows "disk_get C st ns k d = Inr (case disk_content C st (ns, k) of None \<Rightarrow> d | Some v \<Rightarrow> v)"
proof (cases "traw (d_table st) (ns, k)")
  case None
  then show ?thesis by (simp add: disk_get_def row_value_traw disk_content_def decoded_def)
next
  case (Some b)
  obtain v where "decode C b = Inr v" "decoded C (traw (d_table st) (ns, k)) = Some v"
    using table_ok_content [OF assms [unfolded disk_inv_def] Some] .
  with Some show ?thesis by (simp add: disk_get_def row_value_traw disk_content_def)
qed

lemma length_filter_key:
  assumes "distinct (map row_key t)"
  shows "length (filter (\<lambda>r. Q (row_key r)) t) = card {p \<in> row_key ` set t. Q p}"
proof -
  have "distinct (map row_key (filter (\<lambda>r. Q (row_key r)) t))" using assms by (rule distinct_map_filter)
  then have "card (set (map row_key (filter (\<lambda>r. Q (row_key r)) t))) = length (filter (\<lambda>r. Q (row_key r)) t)"
    by (subst distinct_card) simp_all
  moreover have "set (map row_key (filter (\<lambda>r. Q (row_key r)) t)) = {p \<in> row_key ` set t. Q p}" by auto
  ultimately show ?thesis by simp
qed

lemma sql_delete_law:
  assumes "disk_inv C st" "sql_delete (\<lambda>r. Q (row_key r)) (d_table st) = (n, t)"
  shows "disk_inv C (st\<lparr>d_table := t\<rparr>)"
    "disk_content C (st\<lparr>d_table := t\<rparr>) = del_all {p. Q p} (disk_content C st)"
    "n = card {p \<in> dom (disk_content C st). Q p}"
proof -
  have t: "t = filter (\<lambda>r. \<not> Q (row_key r)) (d_table st)" "n = length (filter (\<lambda>r. Q (row_key r)) (d_table st))"
    using assms(2) by (auto simp: sql_delete_def)
  show "disk_inv C (st\<lparr>d_table := t\<rparr>)" using assms(1) table_ok_filter by (simp add: disk_inv_def t)
  show "disk_content C (st\<lparr>d_table := t\<rparr>) = del_all {p. Q p} (disk_content C st)"
    using traw_filter [where Q = "\<lambda>p. \<not> Q p"]
    by (auto simp: disk_content_def del_all_def t decoded_def fun_eq_iff)
  show "n = card {p \<in> dom (disk_content C st). Q p}"
    unfolding dom_disk_content [OF assms(1)] t
    using length_filter_key table_okD(1) assms(1) by (auto simp: disk_inv_def)
qed

lemma disk_delete_law:
  assumes "disk_inv C st" "disk_delete st ns k = (b, st')"
  shows "disk_inv C st' \<and> disk_content C st' = (disk_content C st)((ns, k) := None) \<and>
    (b \<longleftrightarrow> disk_content C st (ns, k) \<noteq> None)"
proof -
  obtain n t where d: "sql_delete (\<lambda>r. row_key r = (ns, k)) (d_table st) = (n, t)" by fastforce
  then have r: "b = (0 < n)" "st' = st\<lparr>d_table := t\<rparr>"
    using assms(2) by (simp_all add: disk_delete_def at_key_row_key [abs_def])
  have "{p \<in> dom (disk_content C st). p = (ns, k)} = dom (disk_content C st) \<inter> {(ns, k)}" by auto
  then have "0 < n \<longleftrightarrow> (ns, k) \<in> dom (disk_content C st)"
    using sql_delete_law(3) [OF assms(1), of "\<lambda>p. p = (ns, k)", OF d] by (simp add: card_gt_0_iff)
  then show ?thesis
    using sql_delete_law(1,2) [OF assms(1), of "\<lambda>p. p = (ns, k)", OF d] r
    by (auto simp: del_all_single)
qed

lemma disk_delete_namespace_law:
  assumes "disk_inv C st" "disk_delete_namespace st ns = (n, st')"
  shows "disk_inv C st' \<and> disk_content C st' = del_all {p. fst p = ns} (disk_content C st) \<and>
    n = card (ns_keys (disk_content C st) ns)"
proof -
  have d: "sql_delete (\<lambda>r. fst (row_key r) = ns) (d_table st) = (n, d_table st')" "st' = st\<lparr>d_table := d_table st'\<rparr>"
    using assms(2) by (auto simp: disk_delete_namespace_def in_ns_row_key [abs_def] split: prod.splits)
  have "{p \<in> dom (disk_content C st). fst p = ns} = Pair ns ` ns_keys (disk_content C st) ns"
    by (force simp: ns_keys_def)
  then have "card {p \<in> dom (disk_content C st). fst p = ns} = card (ns_keys (disk_content C st) ns)"
    by (simp add: card_image inj_on_def)
  with sql_delete_law [OF assms(1), of "\<lambda>p. fst p = ns", OF d(1)] d(2) show ?thesis by simp
qed

section \<open>Batches\<close>

lemma delete_rows_law:
  assumes "disk_inv C st" "delete_rows ps (d_table st) = (n, t)"
  shows "disk_inv C (st\<lparr>d_table := t\<rparr>) \<and>
    disk_content C (st\<lparr>d_table := t\<rparr>) = del_all (set ps) (disk_content C st) \<and>
    n = card (set ps \<inter> dom (disk_content C st))"
  using assms
proof (induction ps arbitrary: st n t)
  case (Cons p ps)
  obtain ns k where p: "p = (ns, k)" by (cases p)
  obtain n1 t1 where d: "sql_delete (at_key ns k) (d_table st) = (n1, t1)" by fastforce
  obtain n2 t2 where r: "delete_rows ps t1 = (n2, t2)" by fastforce
  let ?m = "disk_content C st" and ?st1 = "st\<lparr>d_table := t1\<rparr>"
  note d' = sql_delete_law [OF Cons.prems(1), of "\<lambda>q. q = p" n1 t1]
  have d1: "sql_delete (\<lambda>r. row_key r = p) (d_table st) = (n1, t1)"
    using d by (simp add: p at_key_row_key [abs_def])
  have ih: "disk_inv C (?st1\<lparr>d_table := t2\<rparr>)"
      "disk_content C (?st1\<lparr>d_table := t2\<rparr>) = del_all (set ps) (disk_content C ?st1)"
      "n2 = card (set ps \<inter> dom (disk_content C ?st1))"
    using Cons.IH [OF d'(1) [OF d1], of n2 t2] r by simp_all
  have c: "disk_content C ?st1 = del_all {p} ?m" using d'(2) [OF d1] by simp
  have nt: "n = n1 + n2" "t = t2" using Cons.prems(2) p d r by simp_all
  have fin: "finite (set (p # ps) \<inter> dom ?m)" by simp
  have "set (p # ps) \<inter> dom ?m = ({q \<in> dom ?m. q = p}) \<union> (set ps \<inter> (dom ?m - {p}))" by auto
  moreover have "card \<dots> = card {q \<in> dom ?m. q = p} + card (set ps \<inter> (dom ?m - {p}))"
    by (rule card_Un_disjoint) auto
  ultimately have "n = card (set (p # ps) \<inter> dom ?m)"
    using d'(3) [OF d1] ih(3) nt(1) by (simp add: c dom_del_all)
  with ih nt c show ?case by (simp add: del_all_union)
qed simp

lemma disk_delete_many_law:
  assumes "disk_inv C st" "disk_delete_many st ps = (n, st')"
  shows "disk_inv C st' \<and> disk_content C st' = del_all (set ps) (disk_content C st) \<and>
    n = card (set ps \<inter> dom (disk_content C st))"
proof (cases "ps = []")
  case False
  then have "delete_rows ps (d_table st) = (n, d_table st')" "st' = st\<lparr>d_table := d_table st'\<rparr>"
    using assms(2) by (auto simp: disk_delete_many_def split: prod.splits)
  with delete_rows_law [OF assms(1), of ps n "d_table st'"] show ?thesis by simp
qed (use assms in \<open>simp add: disk_delete_many_def\<close>)

lemma forA_sql_replace:
  assumes "\<And>ns k b. (ns, k, b) \<in> set rows \<Longrightarrow> is_text ns \<and> is_text k"
  shows "forA sql_replace rows t = (Inr (), fold put_row rows t)"
  using assms
proof (induction rows arbitrary: t)
  case (Cons r rows)
  obtain ns k b where r: "r = (ns, k, b)" by (cases r)
  have "sql_replace r t = (Inr (), put_row r t)"
    unfolding r using Cons.prems [of ns k b] r by (intro run_sql_replace) simp_all
  moreover have "forA sql_replace rows (put_row r t) = (Inr (), fold put_row rows (put_row r t))"
    by (rule Cons.IH) (use Cons.prems in \<open>meson list.set_intros(2)\<close>)
  ultimately show ?case by (simp add: act_simps)
qed (simp add: act_simps)

lemma fold_put_row:
  assumes "disk_inv C st" "\<And>ns k v. (ns, k, v) \<in> set es \<Longrightarrow> is_text ns \<and> is_text k \<and> storable C v"
    "mapE (\<lambda>(ns, k, v). bindE (encode C v) (\<lambda>b. Inr (ns, k, b))) es = Inr rows"
  shows "disk_inv C (st\<lparr>d_table := fold put_row rows (d_table st)\<rparr>) \<and>
    disk_content C (st\<lparr>d_table := fold put_row rows (d_table st)\<rparr>) = upd_all es (disk_content C st)"
  using assms
proof (induction es arbitrary: st rows)
  case (Cons e es)
  obtain ns k v where e: "e = (ns, k, v)" by (cases e)
  have ok: "is_text ns" "is_text k" "storable C v" using Cons.prems(2) [of ns k v] e by auto
  then obtain b where b: "encode C v = Inr b" "decode C b = Inr v" by (auto simp: storable_iff)
  obtain rows' where rows': "mapE (\<lambda>(ns, k, v). bindE (encode C v) (\<lambda>b. Inr (ns, k, b))) es = Inr rows'"
      "rows = (ns, k, b) # rows'"
    using Cons.prems(3) by (auto simp: e b bindE_eq_Inr)
  let ?st1 = "st\<lparr>d_table := put_row (ns, k, b) (d_table st)\<rparr>"
  note pr = put_row_ok [OF Cons.prems(1) [unfolded disk_inv_def] ok(1,2) b(2)]
  have i1: "disk_inv C ?st1" using pr(1) by (simp add: disk_inv_def)
  have c1: "disk_content C ?st1 = (disk_content C st)((ns, k) \<mapsto> v)"
    using pr(2) b(2) by (auto simp: disk_content_def decoded_def)
  have "disk_inv C (?st1\<lparr>d_table := fold put_row rows' (d_table ?st1)\<rparr>) \<and>
      disk_content C (?st1\<lparr>d_table := fold put_row rows' (d_table ?st1)\<rparr>) = upd_all es (disk_content C ?st1)"
    by (rule Cons.IH [OF i1 _ rows'(1)]) (use Cons.prems(2) in \<open>meson list.set_intros(2)\<close>)
  then show ?case unfolding e rows'(2) c1 by simp
qed simp

lemma disk_set_many_law:
  assumes "disk_inv C st" "\<And>ns k v. (ns, k, v) \<in> set es \<Longrightarrow> is_text ns \<and> is_text k \<and> storable C v"
  shows "\<exists>st'. outcome (disk_set_many C es st) = Inr st' \<and> disk_inv C st' \<and>
    disk_content C st' = upd_all es (disk_content C st)"
proof (cases "es = []")
  case False
  let ?enc = "\<lambda>(ns, k, v). bindE (encode C v) (\<lambda>b. Inr (ns, k, b))"
  have "\<exists>b. ?enc e = Inr b" if "e \<in> set es" for e
  proof -
    obtain ns k v where e: "e = (ns, k, v)" by (cases e)
    with that have "storable C v" using assms(2) by blast
    then obtain b where "encode C v = Inr b" by (auto simp: storable_iff)
    with e show ?thesis by simp
  qed
  then have "\<nexists>e. mapE ?enc es = Inl e" unfolding mapE_fails by fastforce
  then obtain rows where rows: "mapE ?enc es = Inr rows" by (cases "mapE ?enc es") auto
  have "is_text ns \<and> is_text k" if r: "(ns, k, b) \<in> set rows" for ns k b
  proof -
    obtain i where i: "i < length rows" "rows ! i = (ns, k, b)"
      using r unfolding in_set_conv_nth by blast
    obtain ns' k' v' where e: "es ! i = (ns', k', v')" by (cases "es ! i")
    have l: "i < length es" using i(1) mapE_length [OF rows] by simp
    have "?enc (es ! i) = Inr (ns, k, b)" using mapE_nth [OF rows l] i(2) by simp
    then have "ns' = ns" "k' = k" unfolding e by (auto simp: bindE_eq_Inr)
    moreover have "(ns', k', v') \<in> set es" using nth_mem [OF l] e by simp
    ultimately show ?thesis using assms(2) by blast
  qed
  then have "outcome (disk_set_many C es st) = Inr (st\<lparr>d_table := fold put_row rows (d_table st)\<rparr>)"
    using False rows
    by (simp add: disk_set_many_def act_simps on_table_def transaction_def forA_sql_replace outcome_def)
  with fold_put_row [OF assms rows] show ?thesis by simp
qed (use assms in \<open>simp add: disk_set_many_def act_simps outcome_def\<close>)

section \<open>The batch read\<close>

definition group_step :: "pystr \<times> pystr \<Rightarrow> (pystr, pystr list) dict \<Rightarrow> (pystr, pystr list) dict" where
  "group_step = (\<lambda>(ns, key) d.
     case dget d ns of None \<Rightarrow> dset ns [key] d | Some ks \<Rightarrow> dset ns (ks @ [key]) d)"

lemma group_step_mem:
  "dget (group_step p d) ns =
     (if ns = fst p then Some (case dget d ns of None \<Rightarrow> [snd p] | Some ks \<Rightarrow> ks @ [snd p]) else dget d ns)"
  by (cases p) (auto simp: group_step_def dget_dset split: option.splits)

lemma group_by_ns_mem:
  "dget (group_by_ns ps) ns =
     (let ks = map snd (filter (\<lambda>p. fst p = ns) ps) in if ks = [] then None else Some ks)"
proof -
  have "dget (fold group_step ps d) ns =
      (let ks = map snd (filter (\<lambda>p. fst p = ns) ps)
       in if ks = [] then dget d ns else Some (case dget d ns of None \<Rightarrow> ks | Some old \<Rightarrow> old @ ks))" for d
  proof (induction ps arbitrary: d)
    case (Cons p ps)
    show ?case by (auto simp: Cons.IH group_step_mem Let_def split: option.splits)
  qed simp
  from this [of "[]"] show ?thesis unfolding group_by_ns_def group_step_def by simp
qed

lemma group_by_ns_ok: "dict_ok (group_by_ns ps)"
proof -
  have "dict_ok d \<Longrightarrow> dict_ok (fold group_step ps d)" for d
    by (induction ps arbitrary: d) (auto simp: group_step_def split: option.splits)
  from this [of "[]"] show ?thesis unfolding group_by_ns_def group_step_def by simp
qed

lemma map_of_functional:
  assumes "\<And>p v. (p, v) \<in> set L \<Longrightarrow> f p = Some v"
  shows "map_of L p = (if p \<in> fst ` set L then f p else None)"
proof (cases "p \<in> fst ` set L")
  case True
  then obtain v where "map_of L p = Some v" by (metis dget_Some_iff list.set_map)
  with True assms [of p v] show ?thesis by (simp add: map_of_SomeD)
next
  case False
  then show ?thesis by (simp add: map_of_eq_None_iff)
qed

definition ns_hits :: "table \<Rightarrow> pystr \<Rightarrow> pystr list \<Rightarrow> ((pystr \<times> pystr) \<times> bytes) list" where
  "ns_hits t ns chunk = map (\<lambda>(_, key, value). ((ns, key), value))
     (filter (\<lambda>(ns', k, _). ns' = ns \<and> k \<in> set chunk) t)"

lemma in_ns_hits: "((ns', k), v) \<in> set (ns_hits t ns c) \<longleftrightarrow> ns' = ns \<and> k \<in> set c \<and> (ns, k, v) \<in> set t"
  by (force simp: ns_hits_def)

definition all_hits :: "table \<Rightarrow> (pystr, pystr list) dict \<Rightarrow> ((pystr \<times> pystr) \<times> bytes) list" where
  "all_hits t d = concat (map (\<lambda>(ns, keys). concat (map (ns_hits t ns) (chunks (MAX_PARAMS - 1) keys))) d)"

lemma in_all_hits:
  assumes "dict_ok d"
  shows "((ns, k), v) \<in> set (all_hits t d) \<longleftrightarrow> (\<exists>keys. dget d ns = Some keys \<and> k \<in> set keys) \<and> (ns, k, v) \<in> set t"
proof -
  have "0 < MAX_PARAMS - 1" by (simp add: MAX_PARAMS_def)
  then have ch: "(\<exists>c \<in> set (chunks (MAX_PARAMS - 1) keys). k \<in> set c) \<longleftrightarrow> k \<in> set keys" for keys
    using set_chunks [of "MAX_PARAMS - 1" keys] by (metis UN_iff)
  have "((ns, k), v) \<in> set (all_hits t d) \<longleftrightarrow>
      (\<exists>(ns', keys) \<in> set d. \<exists>c \<in> set (chunks (MAX_PARAMS - 1) keys). ((ns, k), v) \<in> set (ns_hits t ns' c))"
    unfolding all_hits_def by auto
  also have "\<dots> \<longleftrightarrow> (\<exists>keys. (ns, keys) \<in> set d \<and> (\<exists>c \<in> set (chunks (MAX_PARAMS - 1) keys). k \<in> set c)) \<and> (ns, k, v) \<in> set t"
    unfolding in_ns_hits by blast
  also have "\<dots> \<longleftrightarrow> (\<exists>keys. (ns, keys) \<in> set d \<and> k \<in> set keys) \<and> (ns, k, v) \<in> set t"
    unfolding ch ..
  finally show ?thesis unfolding dget_iff_in_set [OF assms] .
qed

lemma disk_found_exact:
  assumes "distinct (map row_key t)" "p \<in> set ps"
  shows "dget (disk_found t (group_by_ns ps)) p = traw t p"
proof -
  let ?L = "all_hits t (group_by_ns ps)"
  obtain ns k where p: "p = (ns, k)" by (cases p)
  have "traw t q = Some v" if "(q, v) \<in> set ?L" for q v
    using that in_all_hits [OF group_by_ns_ok] traw_in_set [OF assms(1)] by (cases q) blast
  then have "map_of (rev ?L) p = (if p \<in> fst ` set ?L then traw t p else None)"
    using map_of_functional [of "rev ?L" "traw t" p] by simp
  moreover have "p \<in> fst ` set ?L" if "traw t p = Some v" for v
  proof -
    have k: "k \<in> set (map snd (filter (\<lambda>p. fst p = ns) ps))" using assms(2) p by force
    then have "map snd (filter (\<lambda>p. fst p = ns) ps) \<noteq> []" by (metis empty_iff list.set(1))
    then have "dget (group_by_ns ps) ns = Some (map snd (filter (\<lambda>p. fst p = ns) ps))"
      unfolding group_by_ns_mem Let_def by (rule if_not_P)
    with k have "\<exists>keys. dget (group_by_ns ps) ns = Some keys \<and> k \<in> set keys" by blast
    then have "((ns, k), v) \<in> set ?L"
      using in_all_hits [OF group_by_ns_ok] that traw_in_set [OF assms(1), of ns k v] p by blast
    then show ?thesis using p by force
  qed
  ultimately have "map_of (rev ?L) p = traw t p" by (cases "traw t p") auto
  then show ?thesis by (simp add: disk_found_def dget_dict_of all_hits_def ns_hits_def [abs_def])
qed

lemma disk_get_many_law:
  assumes "disk_inv C st"
  shows "disk_get_many C st ps = Inr (map (\<lambda>p. case disk_content C st p of None \<Rightarrow> PNone | Some v \<Rightarrow> v) ps)"
proof (cases "ps = []")
  case False
  let ?found = "disk_found (d_table st) (group_by_ns ps)"
  have "mapE (\<lambda>p. case dget ?found p of None \<Rightarrow> Inr PNone | Some raw \<Rightarrow> decode C raw) ps =
      Inr (map (\<lambda>p. case disk_content C st p of None \<Rightarrow> PNone | Some v \<Rightarrow> v) ps)"
  proof (rule mapE_Inr_map)
    fix p assume "p \<in> set ps"
    then have f: "dget ?found p = traw (d_table st) p"
      using disk_found_exact table_okD(1) assms disk_inv_def by blast
    have "disk_get C st (fst p) (snd p) PNone = (case traw (d_table st) p of None \<Rightarrow> Inr PNone | Some raw \<Rightarrow> decode C raw)"
      by (simp add: disk_get_def row_value_traw)
    then show "(case dget ?found p of None \<Rightarrow> Inr PNone | Some raw \<Rightarrow> decode C raw) =
        Inr (case disk_content C st p of None \<Rightarrow> PNone | Some v \<Rightarrow> v)"
      unfolding f using disk_get_law [OF assms, of "fst p" "snd p" PNone] by simp
  qed
  with False show ?thesis by (simp add: disk_get_many_def)
qed (simp add: disk_get_many_def)

section \<open>Keys and namespaces\<close>

lemma prefix_cond_startswith:
  assumes "is_text p" "is_text x"
  shows "prefix_cond (Some p) x \<longleftrightarrow> startswith x p"
  using prefix_range [OF assms(1)] assms
  by (auto simp: prefix_cond_def startswith_def split: option.splits)

lemma prefix_cond_None [simp]: "prefix_cond None x"
  by (simp add: prefix_cond_def)

lemma disk_keys_law:
  assumes "disk_inv C st"
  shows "distinct (disk_keys st ns pre)"
    "set (disk_keys st ns pre) = {k \<in> ns_keys (disk_content C st) ns. prefix_cond pre k}"
proof -
  let ?P = "\<lambda>(ns', k, _). ns' = ns \<and> prefix_cond pre k"
  have "distinct (map row_key (d_table st))" using assms table_okD(1) disk_inv_def by blast
  then have "distinct (map row_key (filter ?P (d_table st)))" by (rule distinct_map_filter)
  moreover have "map row_key (filter ?P (d_table st)) = map (Pair ns) (disk_keys st ns pre)"
    by (auto simp: disk_keys_def)
  ultimately have "distinct (map (Pair ns) (disk_keys st ns pre))" by metis
  then show "distinct (disk_keys st ns pre)" by (simp only: distinct_map)
  show "set (disk_keys st ns pre) = {k \<in> ns_keys (disk_content C st) ns. prefix_cond pre k}"
    unfolding ns_keys_iff [abs_def] dom_disk_content [OF assms]
    by (force simp: disk_keys_def ns_keys_iff dom_disk_content [OF assms])
qed

lemma disk_keys_all:
  assumes "disk_inv C st"
  shows "set (map (\<lambda>(_, k, _). k) (filter (in_ns ns) (d_table st))) = ns_keys (disk_content C st) ns"
proof -
  have "map (\<lambda>(_, k, _). k) (filter (in_ns ns) (d_table st)) = disk_keys st ns None"
    by (simp add: disk_keys_def in_ns_def)
  with disk_keys_law(2) [OF assms, of ns None] show ?thesis by simp
qed

lemma disk_max_key_law:
  assumes "disk_inv C st"
  shows "disk_max_key st ns = (if ns_keys (disk_content C st) ns = {} then None
    else Some (Max (ns_keys (disk_content C st) ns)))"
  unfolding disk_max_key_def disk_keys_all [OF assms, symmetric] set_empty
  by (metis max_str_Max max_str_None)

lemma disk_ns_names: "disk_inv C st \<Longrightarrow> ns_names (disk_content C st) = (\<lambda>(ns, _, _). ns) ` set (d_table st)"
  by (force simp: ns_names_iff dom_disk_content)

lemma disk_namespaces_law:
  "disk_inv C st \<Longrightarrow> set (disk_namespaces st pre) = {ns \<in> ns_names (disk_content C st). prefix_cond pre ns}"
  by (force simp: disk_namespaces_def disk_ns_names)

lemma disk_text_law:
  "disk_inv C st \<Longrightarrow> (ns, k) \<in> dom (disk_content C st) \<Longrightarrow> is_text ns \<and> is_text k"
  using table_okD(2) [of C "d_table st"] by (auto simp: dom_disk_content disk_inv_def)

lemma disk_prefix_filter:
  assumes "is_text p" "\<And>x. x \<in> S \<Longrightarrow> is_text x"
  shows "{x \<in> S. prefix_cond (Some p) x} = {x \<in> S. startswith x p}"
  using assms prefix_cond_startswith by blast

lemma disk_len_law: "disk_inv C st \<Longrightarrow> finite (dom (disk_content C st)) \<and> disk_len st = card (dom (disk_content C st))"
  using table_okD(1) [of C "d_table st"] distinct_card [of "map row_key (d_table st)"]
  by (simp add: dom_disk_content disk_len_def disk_inv_def)

lemma disk_clear_law: "disk_inv C (disk_clear st) \<and> disk_content C (disk_clear st) = Map.empty"
  by (auto simp: disk_clear_def sql_delete_def disk_inv_def table_ok_def disk_content_def traw_def decoded_def)

lemma disk_contains_law:
  "disk_inv C st \<Longrightarrow> disk_contains st ns k \<longleftrightarrow> disk_content C st (ns, k) \<noteq> None"
proof -
  assume i: "disk_inv C st"
  have "disk_contains st ns k \<longleftrightarrow> (ns, k) \<in> row_key ` set (d_table st)"
    by (force simp: disk_contains_def filter_empty_conv at_key_row_key)
  then show ?thesis unfolding dom_disk_content [OF i, symmetric] by (simp add: domIff)
qed

lemma disk_has_namespace_law:
  "disk_inv C st \<Longrightarrow> disk_has_namespace st ns \<longleftrightarrow> ns \<in> ns_names (disk_content C st)"
  by (force simp: disk_has_namespace_def disk_ns_names filter_empty_conv in_ns_def)

interpretation disk: store_like "disk_ops C" "disk_inv C" "disk_content C" is_text "storable C" for C :: codec
proof (unfold_locales, unfold disk_ops_def store_ops.simps option.inject sum.inject, goal_cases)
  case 1 then show ?case using disk_len_law by blast
next
  case 2 then show ?case by (rule disk_set_law)
next
  case 3 then show ?case by (rule disk_get_law)
next
  case 4 then show ?case using disk_set_many_law by metis
next
  case 5 then show ?case using disk_get_many_law by metis
next
  case 6 then show ?case by (rule disk_contains_law)
next
  case 7 then show ?case by (rule disk_delete_law)
next
  case 8 then show ?case using disk_delete_many_law by metis
next
  case 9 then show ?case using disk_delete_namespace_law by metis
next
  case (10 s ns) then show ?case using disk_keys_law [OF 10, of ns None] by simp
next
  case (11 s p ns ks)
  have "\<And>k. k \<in> ns_keys (disk_content C s) ns \<Longrightarrow> is_text k"
    using disk_text_law [OF 11(1)] by (auto simp: ns_keys_iff)
  with 11 disk_keys_law [OF 11(1), of ns "Some p"] show ?case using disk_prefix_filter [OF 11(2)] by auto
next
  case 12 then show ?case by simp
next
  case 13 then show ?case by (rule disk_max_key_law)
next
  case (14 s) then show ?case using disk_namespaces_law [OF 14, of None] by (simp add: disk_namespaces_def)
next
  case (15 s p nss)
  have "\<And>n. n \<in> ns_names (disk_content C s) \<Longrightarrow> is_text n"
    using disk_text_law [OF 15(1)] by (auto simp: ns_names_iff)
  moreover have "distinct nss" using 15(3) by (auto simp: disk_namespaces_def)
  ultimately show ?case
    using 15(3) disk_namespaces_law [OF 15(1), of "Some p"] disk_prefix_filter [OF 15(2)] by auto
next
  case 16 then show ?case by simp
next
  case 17 then show ?case using disk_clear_law by blast
next
  case 18 then show ?case using disk_len_law by blast
next
  case 19 then show ?case by (rule disk_has_namespace_law)
next
  case 20 then show ?case by (rule disk_text_law)
next
  case 21 then show ?case by simp
next
  case 22 then show ?case by (rule is_text_ascii)
qed

end
