(* ===== verification/Mem_Store.thy ===== *)
theory Mem_Store
  imports Store_Contract
begin

text \<open>
  The in-memory store of \<^verbatim>\<open>src/rust/src/store.rs\<close>: sixteen shards, each a map from namespaces to
  maps from keys to encoded values, a running byte count per shard, and snapshots with an optional
  bounded history. \<open>h\<close> is the hash function of the standard library (its values are
  unspecified), \<open>C\<close> the codec. The maps are association lists; no theorem depends on their order.
  The byte counters are machine words, as the source's atomics.
\<close>

type_synonym kvmap = "(pystr, bytes) dict"
type_synonym nsmap = "(pystr, kvmap) dict"

record snapshot_data =
  sn_id :: "64 word"
  sn_timestamp :: "64 word"
  sn_parent :: "64 word option"
  sn_size_bytes :: "64 word"
  sn_shard_bytes :: "64 word list"
  sn_shards :: "nsmap list"

record mem_store =
  shards :: "nsmap list"
  codec_name :: pystr
  max_history :: "nat option"
  history :: "snapshot_data list"
  counter :: "64 word"
  last_id :: "64 word option"
  shard_bytes :: "64 word list"

definition SHARDS :: nat where "SHARDS = 16"

definition shard_index :: "(pystr \<Rightarrow> nat) \<Rightarrow> pystr \<Rightarrow> nat" where
  "shard_index h ns = h ns mod SHARDS"

definition mem_new :: "pystr \<Rightarrow> pystr \<Rightarrow> nat option \<Rightarrow> exc + mem_store" where
  "mem_new backend codec mh =
     (if backend \<noteq> lit ''memory'' then Inl (ValueError ''backend is not available'')
      else if codec \<noteq> lit ''msgpack'' then Inl (ValueError ''codec is not supported'')
      else Inr \<lparr>shards = replicate SHARDS [], codec_name = codec, max_history = mh, history = [],
               counter = 1, last_id = None, shard_bytes = replicate SHARDS 0\<rparr>)"

section \<open>One shard\<close>

definition nraw :: "nsmap \<Rightarrow> pystr \<times> pystr \<Rightarrow> bytes option" where
  "nraw g p = (case dget g (fst p) of None \<Rightarrow> None | Some kv \<Rightarrow> dget kv (snd p))"

definition old_len :: "nsmap \<Rightarrow> pystr \<times> pystr \<Rightarrow> nat" where
  "old_len g p = (case nraw g p of None \<Rightarrow> 0 | Some b \<Rightarrow> length b)"

text \<open>The insertion both \<open>set\<close> and \<open>set_many\<close> perform under a shard's lock: the previous
  value's length and the new map.\<close>

definition shard_insert :: "nsmap \<Rightarrow> pystr \<Rightarrow> pystr \<Rightarrow> bytes \<Rightarrow> nat \<times> nsmap" where
  "shard_insert g ns key b =
     (case dget g ns of
        Some kv \<Rightarrow> ((case dget kv key of Some old \<Rightarrow> length old | None \<Rightarrow> 0),
                    dset ns (dset key b kv) g)
      | None \<Rightarrow> (0, dset ns [(key, b)] g))"

text \<open>The removal both \<open>delete\<close> and \<open>delete_many\<close> perform: the removed value, and the map with
  an emptied namespace dropped.\<close>

definition shard_remove :: "nsmap \<Rightarrow> pystr \<Rightarrow> pystr \<Rightarrow> bytes option \<times> nsmap" where
  "shard_remove g ns key =
     (case dget g ns of
        None \<Rightarrow> (None, g)
      | Some kv \<Rightarrow>
          (case dget kv key of
             None \<Rightarrow> (None, g)
           | Some old \<Rightarrow> (let kv' = ddel key kv
                          in (Some old, if kv' = [] then ddel ns g else dset ns kv' g))))"

definition kv_ok :: "kvmap \<Rightarrow> bool" where
  "kv_ok kv \<longleftrightarrow> kv \<noteq> [] \<and> dict_ok kv"

definition nsmap_ok :: "nsmap \<Rightarrow> bool" where
  "nsmap_ok g \<longleftrightarrow> dict_ok g \<and> (\<forall>(ns, kv) \<in> set g. kv_ok kv)"

definition nsize :: "nsmap \<Rightarrow> nat" where
  "nsize g = dsum (dsum length) g"

lemma nsmap_ok_kv: "nsmap_ok g \<Longrightarrow> dget g ns = Some kv \<Longrightarrow> kv_ok kv"
  by (auto simp: nsmap_ok_def dest: dget_in_set)

lemma nsmap_ok_dset: "nsmap_ok g \<Longrightarrow> kv_ok kv \<Longrightarrow> nsmap_ok (dset ns kv g)"
  using set_dset [of ns kv g] by (auto simp: nsmap_ok_def)

lemma nsmap_ok_ddel: "nsmap_ok g \<Longrightarrow> nsmap_ok (ddel ns g)"
  using set_ddel [of ns g] by (auto simp: nsmap_ok_def)

lemma nraw_dset: "nraw (dset ns kv g) p = (if fst p = ns then dget kv (snd p) else nraw g p)"
  by (simp add: nraw_def dget_dset)

lemma nraw_ddel: "nraw (ddel ns g) p = (if fst p = ns then None else nraw g p)"
  by (simp add: nraw_def dget_ddel)

lemma nraw_kv: "dget g ns = Some kv \<Longrightarrow> nraw g (ns, k) = dget kv k"
  by (simp add: nraw_def)

lemma nraw_none: "dget g ns = None \<Longrightarrow> nraw g (ns, k) = None"
  by (simp add: nraw_def)

lemma nsmap_ok_Nil [simp]: "nsmap_ok []"
  by (simp add: nsmap_ok_def)

lemma shard_insert_correct:
  assumes "nsmap_ok g" "shard_insert g ns k b = (n, g')"
  shows "nsmap_ok g'" "nraw g' = (nraw g)((ns, k) \<mapsto> b)" "n = old_len g (ns, k)"
    "nsize g' + n = nsize g + length b"
proof -
  show "nsmap_ok g'"
    using assms nsmap_ok_kv [OF assms(1), of ns]
    by (auto simp: shard_insert_def kv_ok_def intro!: nsmap_ok_dset split: option.splits)
  show "nraw g' = (nraw g)((ns, k) \<mapsto> b)" "n = old_len g (ns, k)"
    using assms(2)
    by (auto simp: shard_insert_def old_len_def fun_eq_iff nraw_dset dget_dset nraw_kv nraw_none
        split: option.splits)
  show "nsize g' + n = nsize g + length b"
  proof (cases "dget g ns")
    case None
    then show ?thesis
      using assms(2) dsum_dset [of "dsum length" ns "[(k, b)]" g]
      by (auto simp: shard_insert_def nsize_def)
  next
    case (Some kv)
    then show ?thesis
      using assms(2) dsum_dset [of "dsum length" ns "dset k b kv" g] dsum_dset [of length k b kv]
      by (auto simp: shard_insert_def nsize_def split: option.splits)
  qed
qed

lemma shard_remove_correct:
  assumes "nsmap_ok g" "shard_remove g ns k = (r, g')"
  shows "nsmap_ok g'" "nraw g' = (nraw g)((ns, k) := None)" "r = nraw g (ns, k)"
    "nsize g' + (case r of None \<Rightarrow> 0 | Some b \<Rightarrow> length b) = nsize g"
proof -
  show "nsmap_ok g'"
    using assms nsmap_ok_kv [OF assms(1), of ns]
    by (auto simp: shard_remove_def Let_def kv_ok_def intro!: nsmap_ok_dset nsmap_ok_ddel
        split: option.splits if_splits)
  show "nraw g' = (nraw g)((ns, k) := None)" "r = nraw g (ns, k)"
    using assms(2)
    by (auto simp: shard_remove_def Let_def fun_eq_iff nraw_dset nraw_ddel dget_ddel nraw_kv
        nraw_none dest: ddel_Nil_other split: option.splits if_splits)
  show "nsize g' + (case r of None \<Rightarrow> 0 | Some b \<Rightarrow> length b) = nsize g"
  proof (cases "dget g ns")
    case (Some kv)
    then have kv: "dict_ok kv" "dict_ok g"
      using assms(1) nsmap_ok_kv [OF assms(1)] by (auto simp: nsmap_ok_def kv_ok_def)
    show ?thesis
      using assms(2) Some dsum_dset [of "dsum length" ns "ddel k kv" g]
        dsum_ddel [OF kv(1), of length k] dsum_ddel [OF kv(2), of "dsum length" ns]
      by (auto simp: shard_remove_def Let_def nsize_def split: option.splits if_splits)
  qed (use assms(2) in \<open>auto simp: shard_remove_def\<close>)
qed

section \<open>Operations\<close>

text \<open>Splitting a batch by shard, so that each lock is taken once.\<close>

definition bucketize :: "('a \<Rightarrow> nat) \<Rightarrow> 'a list \<Rightarrow> 'a list list" where
  "bucketize f xs = fold (\<lambda>x bs. bs[f x := bs ! f x @ [x]]) xs (replicate SHARDS [])"

definition mem_set ::
  "codec \<Rightarrow> (pystr \<Rightarrow> nat) \<Rightarrow> mem_store \<Rightarrow> pystr \<Rightarrow> pystr \<Rightarrow> pyval \<Rightarrow> exc + mem_store" where
  "mem_set C h st ns key v =
     (if \<not> (is_text ns \<and> is_text key) then Inl UnicodeError
      else bindE (encode C v) (\<lambda>b.
        let idx = shard_index h ns; new_len = length b;
            (old, g) = shard_insert (shards st ! idx) ns key b;
            cnt = shard_bytes st ! idx;
            cnt' = (if old \<le> new_len then cnt + of_nat (new_len - old)
                    else cnt - of_nat (old - new_len))
        in Inr (st\<lparr>shards := (shards st)[idx := g], shard_bytes := (shard_bytes st)[idx := cnt']\<rparr>)))"

definition mem_raw :: "(pystr \<Rightarrow> nat) \<Rightarrow> mem_store \<Rightarrow> pystr \<times> pystr \<Rightarrow> bytes option" where
  "mem_raw h st p = nraw (shards st ! shard_index h (fst p)) p"

definition mem_get ::
  "codec \<Rightarrow> (pystr \<Rightarrow> nat) \<Rightarrow> mem_store \<Rightarrow> pystr \<Rightarrow> pystr \<Rightarrow> pyval \<Rightarrow> exc + pyval" where
  "mem_get C h st ns key dflt =
     (case mem_raw h st (ns, key) of Some b \<Rightarrow> decode C b | None \<Rightarrow> Inr dflt)"

text \<open>The body of the loop of \<open>set_many\<close> over one bucket: the map and the signed byte delta.\<close>

fun bucket_insert :: "(pystr \<times> pystr \<times> bytes) list \<Rightarrow> nsmap \<Rightarrow> int \<Rightarrow> nsmap \<times> int" where
  "bucket_insert [] g delta = (g, delta)"
| "bucket_insert ((ns, key, b) # es) g delta =
     (let (old, g') = shard_insert g ns key b
      in bucket_insert es g' (delta + (int (length b) - int old)))"

definition mem_set_bucket :: "nat \<Rightarrow> (pystr \<times> pystr \<times> bytes) list \<Rightarrow> mem_store \<Rightarrow> mem_store" where
  "mem_set_bucket idx bucket st =
     (if bucket = [] then st
      else let (g, delta) = bucket_insert bucket (shards st ! idx) 0;
               cnt = shard_bytes st ! idx;
               cnt' = (if 0 \<le> delta then cnt + of_nat (nat delta) else cnt - of_nat (nat (- delta)))
           in st\<lparr>shards := (shards st)[idx := g], shard_bytes := (shard_bytes st)[idx := cnt']\<rparr>)"

definition mem_set_many ::
  "codec \<Rightarrow> (pystr \<Rightarrow> nat) \<Rightarrow> mem_store \<Rightarrow> entry list \<Rightarrow> exc + mem_store" where
  "mem_set_many C h st items =
     (if \<not> (\<forall>(ns, k, v) \<in> set items. is_text ns \<and> is_text k) then Inl UnicodeError
      else bindE (mapE (\<lambda>(ns, k, v). bindE (encode C v) (\<lambda>b. Inr (ns, k, b))) items) (\<lambda>encoded.
        let buckets = bucketize (\<lambda>(ns, k, b). shard_index h ns) encoded
        in Inr (fold (\<lambda>i st. mem_set_bucket i (buckets ! i) st) [0..<SHARDS] st)))"

definition mem_get_many ::
  "codec \<Rightarrow> (pystr \<Rightarrow> nat) \<Rightarrow> mem_store \<Rightarrow> (pystr \<times> pystr) list \<Rightarrow> exc + pyval list" where
  "mem_get_many C h st pairs =
     (let n = length pairs;
          buckets = bucketize (\<lambda>i. shard_index h (fst (pairs ! i))) [0..<n];
          raw = fold (\<lambda>idx out.
                   fold (\<lambda>i out. out[i := nraw (shards st ! idx) (pairs ! i)]) (buckets ! idx) out)
                 [0..<SHARDS] (replicate n None)
      in mapE (\<lambda>item. case item of Some b \<Rightarrow> decode C b | None \<Rightarrow> Inr PNone) raw)"

definition mem_contains :: "(pystr \<Rightarrow> nat) \<Rightarrow> mem_store \<Rightarrow> pystr \<Rightarrow> pystr \<Rightarrow> bool" where
  "mem_contains h st ns key \<longleftrightarrow>
     (case dget (shards st ! shard_index h ns) ns of
        None \<Rightarrow> False | Some kv \<Rightarrow> dget kv key \<noteq> None)"

definition mem_delete ::
  "(pystr \<Rightarrow> nat) \<Rightarrow> mem_store \<Rightarrow> pystr \<Rightarrow> pystr \<Rightarrow> bool \<times> mem_store" where
  "mem_delete h st ns key =
     (let idx = shard_index h ns; (r, g) = shard_remove (shards st ! idx) ns key
      in case r of
           None \<Rightarrow> (False, st)
         | Some old \<Rightarrow> (True, st\<lparr>shards := (shards st)[idx := g],
             shard_bytes := (shard_bytes st)[idx := shard_bytes st ! idx - of_nat (length old)]\<rparr>))"

fun bucket_remove ::
  "(pystr \<times> pystr) list \<Rightarrow> nsmap \<Rightarrow> nat \<Rightarrow> nat \<Rightarrow> nsmap \<times> nat \<times> nat" where
  "bucket_remove [] g freed removed = (g, freed, removed)"
| "bucket_remove ((ns, key) # ps) g freed removed =
     (case dget g ns of
        None \<Rightarrow> bucket_remove ps g freed removed
      | Some kv \<Rightarrow>
          (case dget kv key of
             None \<Rightarrow> bucket_remove ps (if kv = [] then ddel ns g else g) freed removed
           | Some old \<Rightarrow>
               (let kv' = ddel key kv
                in bucket_remove ps (if kv' = [] then ddel ns g else dset ns kv' g)
                     (freed + length old) (Suc removed))))"

definition mem_delete_bucket ::
  "nat \<Rightarrow> (pystr \<times> pystr) list \<Rightarrow> nat \<times> mem_store \<Rightarrow> nat \<times> mem_store" where
  "mem_delete_bucket idx bucket = (\<lambda>(removed, st).
     if bucket = [] then (removed, st)
     else let (g, freed, n) = bucket_remove bucket (shards st ! idx) 0 removed
          in (n, st\<lparr>shards := (shards st)[idx := g],
                  shard_bytes := (shard_bytes st)[idx := shard_bytes st ! idx - of_nat freed]\<rparr>))"

definition mem_delete_many ::
  "(pystr \<Rightarrow> nat) \<Rightarrow> mem_store \<Rightarrow> (pystr \<times> pystr) list \<Rightarrow> nat \<times> mem_store" where
  "mem_delete_many h st pairs =
     (let buckets = bucketize (\<lambda>(ns, k). shard_index h ns) pairs
      in fold (\<lambda>i. mem_delete_bucket i (buckets ! i)) [0..<SHARDS] (0, st))"

definition mem_delete_namespace ::
  "(pystr \<Rightarrow> nat) \<Rightarrow> mem_store \<Rightarrow> pystr \<Rightarrow> nat \<times> mem_store" where
  "mem_delete_namespace h st ns =
     (let idx = shard_index h ns
      in case dget (shards st ! idx) ns of
           None \<Rightarrow> (0, st)
         | Some kv \<Rightarrow> (length kv, st\<lparr>shards := (shards st)[idx := ddel ns (shards st ! idx)],
             shard_bytes := (shard_bytes st)[idx := shard_bytes st ! idx - of_nat (dsum length kv)]\<rparr>))"

definition mem_keys :: "(pystr \<Rightarrow> nat) \<Rightarrow> mem_store \<Rightarrow> pystr \<Rightarrow> pystr option \<Rightarrow> pystr list" where
  "mem_keys h st ns prefix =
     (case dget (shards st ! shard_index h ns) ns of
        None \<Rightarrow> []
      | Some kv \<Rightarrow> (case prefix of None \<Rightarrow> dkeys kv
                    | Some p \<Rightarrow> filter (\<lambda>k. startswith k p) (dkeys kv)))"

definition mem_max_key :: "(pystr \<Rightarrow> nat) \<Rightarrow> mem_store \<Rightarrow> pystr \<Rightarrow> pystr option" where
  "mem_max_key h st ns =
     (case dget (shards st ! shard_index h ns) ns of None \<Rightarrow> None | Some kv \<Rightarrow> max_str (dkeys kv))"

definition mem_namespaces :: "mem_store \<Rightarrow> pystr option \<Rightarrow> pystr list" where
  "mem_namespaces st prefix =
     concat (map (\<lambda>g. case prefix of None \<Rightarrow> dkeys g
                       | Some p \<Rightarrow> filter (\<lambda>k. startswith k p) (dkeys g)) (shards st))"

definition mem_has_namespace :: "(pystr \<Rightarrow> nat) \<Rightarrow> mem_store \<Rightarrow> pystr \<Rightarrow> bool" where
  "mem_has_namespace h st ns \<longleftrightarrow>
     (case dget (shards st ! shard_index h ns) ns of None \<Rightarrow> False | Some kv \<Rightarrow> kv \<noteq> [])"

definition mem_len :: "mem_store \<Rightarrow> nat" where
  "mem_len st = sum_list (map (dsum length) (shards st))"

definition mem_clear :: "mem_store \<Rightarrow> mem_store" where
  "mem_clear st = st\<lparr>shards := map (\<lambda>_. []) (shards st), shard_bytes := map (\<lambda>_. 0) (shard_bytes st)\<rparr>"

section \<open>Snapshots\<close>

text \<open>\<open>now\<close> is the clock reading.\<close>

definition mem_snapshot :: "64 word \<Rightarrow> mem_store \<Rightarrow> snapshot_data \<times> mem_store" where
  "mem_snapshot now st =
     (let id = counter st;
          data = \<lparr>sn_id = id, sn_timestamp = now, sn_parent = last_id st,
                  sn_size_bytes = sum_list (shard_bytes st), sn_shard_bytes = shard_bytes st,
                  sn_shards = shards st\<rparr>;
          hist = (case max_history st of
                    None \<Rightarrow> history st @ [data]
                  | Some mx \<Rightarrow> if mx = 0 then history st
                               else let hs = history st @ [data] in drop (length hs - mx) hs)
      in (data, st\<lparr>counter := id + 1, last_id := Some id, history := hist\<rparr>))"

definition mem_restore :: "mem_store \<Rightarrow> snapshot_data \<Rightarrow> mem_store" where
  "mem_restore st sn = st\<lparr>shards := sn_shards sn, shard_bytes := sn_shard_bytes sn\<rparr>"

definition mem_clear_history :: "mem_store \<Rightarrow> mem_store" where
  "mem_clear_history st = st\<lparr>history := []\<rparr>"

definition snap_keys :: "snapshot_data \<Rightarrow> (pystr \<times> pystr) list" where
  "snap_keys sn = concat (map (\<lambda>g. concat (map (\<lambda>(ns, kv). map (\<lambda>k. (ns, k)) (dkeys kv)) g)) (sn_shards sn))"

definition snap_lookup :: "(pystr \<Rightarrow> nat) \<Rightarrow> snapshot_data \<Rightarrow> pystr \<Rightarrow> kvmap option" where
  "snap_lookup h sn ns = dget (sn_shards sn ! shard_index h ns) ns"

text \<open>
  \<open>Snapshot.diff\<close>. The source skips a shard, a namespace or a value that is the same object as in
  the other snapshot; sharing implies equality, so here equal maps and equal values are skipped.
\<close>

definition diff_entries ::
  "(pystr \<Rightarrow> nat) \<Rightarrow> snapshot_data \<Rightarrow> snapshot_data \<Rightarrow>
   (bytes \<Rightarrow> bytes option \<Rightarrow> bool) \<Rightarrow> (pystr \<times> pystr) list" where
  "diff_entries h a b P =
     concat (map (\<lambda>i. let g = sn_shards a ! i in
       if g = sn_shards b ! i then []
       else concat (map (\<lambda>(ns, kv). let other = snap_lookup h b ns in
              if other = Some kv then []
              else map (\<lambda>(k, v). (ns, k))
                     (filter (\<lambda>(k, v). P v (case other of None \<Rightarrow> None | Some o' \<Rightarrow> dget o' k)) kv)) g))
       [0..<length (sn_shards a)])"

definition snap_diff_of :: "(pystr \<Rightarrow> nat) \<Rightarrow> snapshot_data \<Rightarrow> snapshot_data \<Rightarrow> snap_diff" where
  "snap_diff_of h self base =
     \<lparr>diff_added = diff_entries h self base (\<lambda>v o'. o' = None),
      diff_removed = diff_entries h base self (\<lambda>v o'. o' = None),
      diff_changed = diff_entries h self base (\<lambda>v o'. case o' of None \<Rightarrow> False | Some bv \<Rightarrow> bv \<noteq> v)\<rparr>"

end
