(* ===== verification/Mem_Store_Laws.thy ===== *)
theory Mem_Store_Laws
  imports Mem_Store
begin

text \<open>
  The in-memory store keeps its invariant (shard placement, non-empty namespaces, exact byte
  counters) and implements the store contract, whatever the hash function; batches agree with
  sequences of single operations; snapshots and diffs are exact.
\<close>

section \<open>Buckets\<close>

lemma fold_bucket:
  assumes "\<And>x. x \<in> set xs \<Longrightarrow> f x < length bs" "i < length bs"
  shows "length (fold (\<lambda>x bs. bs[f x := bs ! f x @ [x]]) xs bs) = length bs"
    "fold (\<lambda>x bs. bs[f x := bs ! f x @ [x]]) xs bs ! i = bs ! i @ filter (\<lambda>x. f x = i) xs"
  using assms
proof (induction xs arbitrary: bs)
  case (Cons x xs)
  { case 1 with Cons show ?case by simp }
  { case 2 with Cons show ?case by (auto simp: nth_list_update) }
qed simp_all

lemma bucketize_nth:
  assumes "\<And>x. x \<in> set xs \<Longrightarrow> f x < SHARDS" "i < SHARDS"
  shows "bucketize f xs ! i = filter (\<lambda>x. f x = i) xs"
  using fold_bucket(2) [of xs f "replicate SHARDS []" i] assms by (simp add: bucketize_def)

lemma shard_index_less [simp]: "shard_index h ns < SHARDS"
  by (simp add: shard_index_def SHARDS_def)

section \<open>The invariant\<close>

definition shard_ok :: "codec \<Rightarrow> (pystr \<Rightarrow> nat) \<Rightarrow> nat \<Rightarrow> nsmap \<Rightarrow> 64 word \<Rightarrow> bool" where
  "shard_ok C h i g w \<longleftrightarrow> nsmap_ok g \<and> w = of_nat (nsize g) \<and>
     (\<forall>ns k b. nraw g (ns, k) = Some b \<longrightarrow>
        shard_index h ns = i \<and> is_text ns \<and> is_text k \<and> (\<exists>v. decode C b = Inr v))"

definition shards_ok :: "codec \<Rightarrow> (pystr \<Rightarrow> nat) \<Rightarrow> nsmap list \<Rightarrow> 64 word list \<Rightarrow> bool" where
  "shards_ok C h gs ws \<longleftrightarrow> length gs = SHARDS \<and> length ws = SHARDS \<and>
     (\<forall>i < SHARDS. shard_ok C h i (gs ! i) (ws ! i))"

definition mem_inv :: "codec \<Rightarrow> (pystr \<Rightarrow> nat) \<Rightarrow> mem_store \<Rightarrow> bool" where
  "mem_inv C h st \<longleftrightarrow> shards_ok C h (shards st) (shard_bytes st)"

definition mem_content :: "codec \<Rightarrow> (pystr \<Rightarrow> nat) \<Rightarrow> mem_store \<Rightarrow> content" where
  "mem_content C h st p =
     (case mem_raw h st p of None \<Rightarrow> None
      | Some b \<Rightarrow> (case decode C b of Inl _ \<Rightarrow> None | Inr v \<Rightarrow> Some v))"

lemma shard_okD:
  assumes "shard_ok C h i g w"
  shows "nsmap_ok g" "w = of_nat (nsize g)"
    "nraw g (ns, k) = Some b \<Longrightarrow>
       shard_index h ns = i \<and> is_text ns \<and> is_text k \<and> (\<exists>v. decode C b = Inr v)"
  using assms unfolding shard_ok_def by blast+

lemma mem_inv_shard: "mem_inv C h st \<Longrightarrow> i < SHARDS \<Longrightarrow> shard_ok C h i (shards st ! i) (shard_bytes st ! i)"
  by (simp add: mem_inv_def shards_ok_def)

lemma mem_inv_len: "mem_inv C h st \<Longrightarrow> length (shards st) = SHARDS \<and> length (shard_bytes st) = SHARDS"
  by (simp add: mem_inv_def shards_ok_def)

lemma mem_inv_upd:
  assumes "mem_inv C h st" "i < SHARDS" "shard_ok C h i g w"
  shows "mem_inv C h (st\<lparr>shards := (shards st)[i := g], shard_bytes := (shard_bytes st)[i := w]\<rparr>)"
  using assms by (auto simp: mem_inv_def shards_ok_def nth_list_update)

lemma mem_raw_upd:
  assumes "mem_inv C h st" "i < SHARDS"
  shows "mem_raw h (st\<lparr>shards := (shards st)[i := g], shard_bytes := ws\<rparr>) p =
    (if shard_index h (fst p) = i then nraw g p else mem_raw h st p)"
  using assms mem_inv_len [OF assms(1)] by (simp add: mem_raw_def nth_list_update)

lemma mem_raw_ok:
  assumes "mem_inv C h st" "mem_raw h st (ns, k) = Some b"
  shows "is_text ns" "is_text k" "\<exists>v. decode C b = Inr v"
proof -
  have "nraw (shards st ! shard_index h ns) (ns, k) = Some b"
    using assms(2) by (simp add: mem_raw_def)
  from shard_okD(3) [OF mem_inv_shard [OF assms(1) shard_index_less] this]
  show "is_text ns" "is_text k" "\<exists>v. decode C b = Inr v" by blast+
qed

lemma mem_content_Some:
  assumes "mem_inv C h st" "mem_raw h st p = Some b"
  obtains v where "decode C b = Inr v" "mem_content C h st p = Some v"
proof -
  obtain v where "decode C b = Inr v"
    using mem_raw_ok(3) [of C h st "fst p" "snd p" b] assms by auto
  with assms(2) that show ?thesis by (simp add: mem_content_def)
qed

lemma mem_content_None: "mem_raw h st p = None \<Longrightarrow> mem_content C h st p = None"
  by (simp add: mem_content_def)

lemma mem_content_dom:
  "mem_inv C h st \<Longrightarrow> mem_content C h st p = None \<longleftrightarrow> mem_raw h st p = None"
  by (cases "mem_raw h st p") (auto simp: mem_content_None elim: mem_content_Some)

lemma dom_mem_content: "mem_inv C h st \<Longrightarrow> dom (mem_content C h st) = dom (mem_raw h st)"
  by (auto simp: dom_def mem_content_dom)

lemma nraw_Some_shard:
  "mem_inv C h st \<Longrightarrow> i < SHARDS \<Longrightarrow> nraw (shards st ! i) p = Some b \<Longrightarrow> shard_index h (fst p) = i"
  using shard_okD(3) [OF mem_inv_shard [of C h st i], of "fst p" "snd p" b] by simp

section \<open>Single operations\<close>

lemma shard_ok_insert:
  assumes "shard_ok C h i g w" "shard_insert g ns k b = (n, g')" "shard_index h ns = i"
    "is_text ns" "is_text k" "decode C b = Inr v"
  shows "shard_ok C h i g' (if n \<le> length b then w + of_nat (length b - n) else w - of_nat (n - length b))"
proof -
  have ok: "nsmap_ok g" using assms(1) by (rule shard_okD)
  note ins = shard_insert_correct [OF ok assms(2)]
  have w: "w = of_nat (nsize g)" using assms(1) by (rule shard_okD)
  have "(if n \<le> length b then w + of_nat (length b - n) else w - of_nat (n - length b)) =
      of_nat (nsize g')"
  proof (cases "n \<le> length b")
    case True
    with ins(4) have "nsize g' = nsize g + (length b - n)" by simp
    with True w show ?thesis by simp
  next
    case False
    with ins(4) have "nsize g = nsize g' + (n - length b)" by simp
    with False w show ?thesis by simp
  qed
  moreover have "shard_index h ns' = i \<and> is_text ns' \<and> is_text k' \<and> (\<exists>v. decode C b' = Inr v)"
    if "nraw g' (ns', k') = Some b'" for ns' k' b'
    using that shard_okD(3) [OF assms(1)] assms(3-6) by (auto simp: ins(2) split: if_splits)
  ultimately show ?thesis using ins(1) unfolding shard_ok_def by blast
qed

lemma shard_ok_remove:
  assumes "shard_ok C h i g w" "shard_remove g ns k = (Some old, g')"
  shows "shard_ok C h i g' (w - of_nat (length old))"
proof -
  have ok: "nsmap_ok g" and w: "w = of_nat (nsize g)"
    using shard_okD [OF assms(1)] by simp_all
  note rem = shard_remove_correct [OF ok assms(2)]
  from rem(4) have "nsize g = nsize g' + length old" by simp
  then have "w - of_nat (length old) = of_nat (nsize g')" using w by simp
  moreover have "shard_index h ns' = i \<and> is_text ns' \<and> is_text k' \<and> (\<exists>v. decode C b' = Inr v)"
    if "nraw g' (ns', k') = Some b'" for ns' k' b'
    using that shard_okD(3) [OF assms(1)] by (auto simp: rem(2) split: if_splits)
  ultimately show ?thesis using rem(1) unfolding shard_ok_def by blast
qed

lemma mem_set_law:
  assumes "mem_inv C h st" "is_text ns" "is_text k" "storable C v"
  shows "\<exists>st'. mem_set C h st ns k v = Inr st' \<and> mem_inv C h st' \<and>
    mem_content C h st' = (mem_content C h st)((ns, k) \<mapsto> v)"
proof -
  let ?i = "shard_index h ns"
  obtain b where b: "encode C v = Inr b" "decode C b = Inr v"
    using assms(4) by (auto simp: storable_iff)
  obtain n g where ins: "shard_insert (shards st ! ?i) ns k b = (n, g)" by fastforce
  have ok: "shard_ok C h ?i (shards st ! ?i) (shard_bytes st ! ?i)"
    using assms(1) by (simp add: mem_inv_shard)
  define w where "w = (if n \<le> length b then shard_bytes st ! ?i + of_nat (length b - n)
    else shard_bytes st ! ?i - of_nat (n - length b))"
  define st' where "st' = st\<lparr>shards := (shards st)[?i := g], shard_bytes := (shard_bytes st)[?i := w]\<rparr>"
  have "mem_set C h st ns k v = Inr st'"
    using assms(2,3) b ins by (simp add: mem_set_def st'_def w_def Let_def)
  moreover have "mem_inv C h st'"
    unfolding st'_def w_def
    by (rule mem_inv_upd [OF assms(1) _ shard_ok_insert [OF ok ins refl assms(2,3) b(2)]]) simp
  moreover have "nraw g = (nraw (shards st ! ?i))((ns, k) \<mapsto> b)"
    using shard_okD(1) [OF ok] ins by (rule shard_insert_correct)
  then have "mem_raw h st' = (mem_raw h st)((ns, k) \<mapsto> b)"
    by (auto simp: fun_eq_iff st'_def mem_raw_upd [OF assms(1)]) (simp add: mem_raw_def)+
  then have "mem_content C h st' = (mem_content C h st)((ns, k) \<mapsto> v)"
    using b by (simp add: fun_eq_iff mem_content_def)
  ultimately show ?thesis by blast
qed

lemma mem_get_law:
  "mem_inv C h st \<Longrightarrow>
    mem_get C h st ns k d = Inr (case mem_content C h st (ns, k) of None \<Rightarrow> d | Some v \<Rightarrow> v)"
  by (cases "mem_raw h st (ns, k)") (auto simp: mem_get_def mem_content_None elim: mem_content_Some)

lemma mem_contains_law:
  "mem_inv C h st \<Longrightarrow> mem_contains h st ns k \<longleftrightarrow> mem_content C h st (ns, k) \<noteq> None"
  by (auto simp: mem_content_dom mem_contains_def mem_raw_def nraw_def split: option.splits)

lemma mem_delete_law:
  assumes "mem_inv C h st" "mem_delete h st ns k = (b, st')"
  shows "mem_inv C h st' \<and> mem_content C h st' = (mem_content C h st)((ns, k) := None) \<and>
    (b \<longleftrightarrow> mem_content C h st (ns, k) \<noteq> None)"
proof -
  let ?i = "shard_index h ns"
  obtain r g where rem: "shard_remove (shards st ! ?i) ns k = (r, g)" by fastforce
  have ok: "shard_ok C h ?i (shards st ! ?i) (shard_bytes st ! ?i)"
    using assms(1) by (simp add: mem_inv_shard)
  then have nok: "nsmap_ok (shards st ! ?i)" by (rule shard_okD)
  note rc = shard_remove_correct [OF nok rem]
  have r: "r = mem_raw h st (ns, k)" using rc(3) by (simp add: mem_raw_def)
  show ?thesis
  proof (cases r)
    case None
    with assms rem r have "b = False" "st' = st" by (auto simp: mem_delete_def Let_def)
    with assms(1) None r show ?thesis by (auto simp: fun_eq_iff mem_content_dom [symmetric])
  next
    case (Some old)
    then have st': "st' = st\<lparr>shards := (shards st)[?i := g],
        shard_bytes := (shard_bytes st)[?i := shard_bytes st ! ?i - of_nat (length old)]\<rparr>" "b"
      using assms(2) rem by (auto simp: mem_delete_def Let_def)
    have "mem_inv C h st'"
      unfolding st' using rem Some
      by (intro mem_inv_upd [OF assms(1)] shard_ok_remove [OF ok]) auto
    moreover have "mem_raw h st' = (mem_raw h st)((ns, k) := None)"
      by (auto simp: fun_eq_iff st'(1) mem_raw_upd [OF assms(1)] rc(2)) (simp add: mem_raw_def)+
    then have "mem_content C h st' = (mem_content C h st)((ns, k) := None)"
      by (simp add: fun_eq_iff mem_content_def)
    ultimately show ?thesis
      using st'(2) Some r mem_content_dom [OF assms(1), of "(ns, k)"] by auto
  qed
qed

section \<open>Batches\<close>

fun updr :: "(pystr \<times> pystr \<times> bytes) list \<Rightarrow> (pystr \<times> pystr \<Rightarrow> bytes option) \<Rightarrow> pystr \<times> pystr \<Rightarrow> bytes option" where
  "updr [] m = m"
| "updr ((ns, k, b) # es) m = updr es (m((ns, k) \<mapsto> b))"

lemma updr_cong: "m p = m' p \<Longrightarrow> updr es m p = updr es m' p"
proof (induction es arbitrary: m m')
  case (Cons e es)
  obtain ns k b where e: "e = (ns, k, b)" by (cases e)
  show ?case unfolding e updr.simps by (rule Cons.IH) (simp add: Cons.prems)
qed simp

lemma updr_filter:
  "P (fst p) \<Longrightarrow> updr (filter (\<lambda>(ns, k, b). P ns) es) m p = updr es m p"
proof (induction es arbitrary: m)
  case (Cons e es)
  obtain ns k b where e: "e = (ns, k, b)" by (cases e)
  show ?case
  proof (cases "P ns")
    case True
    with Cons e show ?thesis by simp
  next
    case False
    with Cons.prems have "fst p \<noteq> ns" by auto
    then have "updr es m p = updr es (m((ns, k) \<mapsto> b)) p" by (intro updr_cong) auto
    with False Cons e show ?thesis by simp
  qed
qed simp

lemma updr_decode:
  assumes "mapE (\<lambda>(ns, k, v). bindE (encode C v) (\<lambda>b. Inr (ns, k, b))) items = Inr encoded"
    and "\<And>ns k v. (ns, k, v) \<in> set items \<Longrightarrow> storable C v"
    and "\<And>p. c p = (case m p of None \<Rightarrow> None | Some b \<Rightarrow> (case decode C b of Inl _ \<Rightarrow> None | Inr v \<Rightarrow> Some v))"
  shows "(case updr encoded m p of None \<Rightarrow> None
     | Some b \<Rightarrow> (case decode C b of Inl _ \<Rightarrow> None | Inr v \<Rightarrow> Some v)) = upd_all items c p"
  using assms
proof (induction items arbitrary: encoded m c)
  case (Cons e items)
  obtain ns k v where e: "e = (ns, k, v)" by (cases e)
  with Cons.prems(1,2) obtain b es where b: "encode C v = Inr b" "encoded = (ns, k, b) # es"
      "mapE (\<lambda>(ns, k, v). bindE (encode C v) (\<lambda>b. Inr (ns, k, b))) items = Inr es"
    by (auto simp: bindE_eq_Inr)
  moreover have "decode C b = Inr v"
    using Cons.prems(2) [of ns k v] b(1) e by (auto simp: storable_iff)
  ultimately show ?case
    using Cons.prems(2,3) e by (auto intro!: Cons.IH)
qed simp

lemma word_delta:
  "(if n \<le> l then w + of_nat (l - n) else w - of_nat (n - l)) = (w :: 64 word) + of_int (int l - int n)"
  by (simp add: of_nat_diff)

lemma bucket_insert_correct:
  assumes "shard_ok C h i g w" "bucket_insert es g d = (g', d')"
    and "\<And>ns k b. (ns, k, b) \<in> set es \<Longrightarrow>
      shard_index h ns = i \<and> is_text ns \<and> is_text k \<and> (\<exists>v. decode C b = Inr v)"
  shows "shard_ok C h i g' (w + of_int (d' - d)) \<and> nraw g' = updr es (nraw g)"
  using assms
proof (induction es arbitrary: g w d)
  case (Cons e es)
  obtain ns k b where e: "e = (ns, k, b)" by (cases e)
  obtain n g1 where ins: "shard_insert g ns k b = (n, g1)" by fastforce
  obtain v where v: "shard_index h ns = i" "is_text ns" "is_text k" "decode C b = Inr v"
    using Cons.prems(3) e by force
  have ok: "shard_ok C h i g1 (w + of_int (int (length b) - int n))"
    using shard_ok_insert [OF Cons.prems(1) ins v] unfolding word_delta .
  have nr: "nraw g1 = (nraw g)((ns, k) \<mapsto> b)"
    using shard_okD(1) [OF Cons.prems(1)] ins by (rule shard_insert_correct)
  have "bucket_insert es g1 (d + (int (length b) - int n)) = (g', d')"
    using Cons.prems(2) e ins by simp
  from Cons.IH [OF ok this] Cons.prems(3)
  have "shard_ok C h i g' (w + of_int (int (length b) - int n) +
      of_int (d' - (d + (int (length b) - int n)))) \<and> nraw g' = updr es (nraw g1)"
    by (meson list.set_intros(2))
  with e nr show ?case by (simp add: algebra_simps)
qed simp

lemma mem_set_bucket_correct:
  assumes "mem_inv C h st" "i < SHARDS"
    and "\<And>ns k b. (ns, k, b) \<in> set es \<Longrightarrow>
      shard_index h ns = i \<and> is_text ns \<and> is_text k \<and> (\<exists>v. decode C b = Inr v)"
  shows "mem_inv C h (mem_set_bucket i es st)"
    "mem_raw h (mem_set_bucket i es st) p =
       (if shard_index h (fst p) = i then updr es (mem_raw h st) p else mem_raw h st p)"
proof -
  obtain g d where bi: "bucket_insert es (shards st ! i) 0 = (g, d)" by fastforce
  have c: "shard_ok C h i g (shard_bytes st ! i + of_int d)" "nraw g = updr es (nraw (shards st ! i))"
    using bucket_insert_correct [OF mem_inv_shard [OF assms(1,2)] bi assms(3)] by simp_all
  have w: "(if 0 \<le> d then shard_bytes st ! i + of_nat (nat d)
      else shard_bytes st ! i - of_nat (nat (- d))) = shard_bytes st ! i + of_int d"
    by simp
  have b: "es = [] \<or> mem_set_bucket i es st = st\<lparr>shards := (shards st)[i := g],
      shard_bytes := (shard_bytes st)[i := shard_bytes st ! i + of_int d]\<rparr>"
    using bi unfolding mem_set_bucket_def Let_def w [symmetric] by simp
  show "mem_inv C h (mem_set_bucket i es st)"
    using b mem_inv_upd [OF assms(1,2) c(1)] assms(1) by (auto simp: mem_set_bucket_def)
  have "updr es (nraw (shards st ! i)) p = updr es (mem_raw h st) p" if "shard_index h (fst p) = i"
    using that by (intro updr_cong) (simp add: mem_raw_def)
  then show "mem_raw h (mem_set_bucket i es st) p =
      (if shard_index h (fst p) = i then updr es (mem_raw h st) p else mem_raw h st p)"
    using b c(2) assms(1,2) by (auto simp: mem_raw_upd) (simp_all add: mem_set_bucket_def)
qed

lemma fold_set_bucket:
  assumes "mem_inv C h st" "j \<le> SHARDS"
    and enc: "\<And>ns k b. (ns, k, b) \<in> set es \<Longrightarrow> is_text ns \<and> is_text k \<and> (\<exists>v. decode C b = Inr v)"
    and bk: "\<And>i. i < SHARDS \<Longrightarrow> buckets ! i = filter (\<lambda>(ns, k, b). shard_index h ns = i) es"
  defines "st' \<equiv> fold (\<lambda>i st. mem_set_bucket i (buckets ! i) st) [0..<j] st"
  shows "mem_inv C h st' \<and>
    (\<forall>p. mem_raw h st' p = (if shard_index h (fst p) < j then updr es (mem_raw h st) p else mem_raw h st p))"
  using assms(2) unfolding st'_def
proof (induction j)
  case (Suc j)
  let ?st = "fold (\<lambda>i st. mem_set_bucket i (buckets ! i) st) [0..<j] st"
  have IH: "mem_inv C h ?st" "\<And>p. mem_raw h ?st p =
      (if shard_index h (fst p) < j then updr es (mem_raw h st) p else mem_raw h st p)"
    using Suc by auto
  have j: "j < SHARDS" using Suc.prems by simp
  note step = mem_set_bucket_correct [OF IH(1) j, of "buckets ! j"]
  have b: "shard_index h ns = j \<and> is_text ns \<and> is_text k \<and> (\<exists>v. decode C b = Inr v)"
    if "(ns, k, b) \<in> set (buckets ! j)" for ns k b
    using that enc bk [OF j] by auto
  have "updr (buckets ! j) (mem_raw h ?st) p = updr es (mem_raw h st) p"
    if "shard_index h (fst p) = j" for p
    unfolding bk [OF j] using that
    by (subst updr_filter) (simp, rule updr_cong, simp add: IH(2))
  with step(2) [OF b] step(1) [OF b] IH(2) show ?case by (auto simp: less_Suc_eq)
qed (simp add: assms(1))

lemma mem_set_many_law:
  assumes inv: "mem_inv C h st"
    and es: "\<And>ns k v. (ns, k, v) \<in> set items \<Longrightarrow> is_text ns \<and> is_text k \<and> storable C v"
  shows "\<exists>st'. mem_set_many C h st items = Inr st' \<and> mem_inv C h st' \<and>
    mem_content C h st' = upd_all items (mem_content C h st)"
proof -
  let ?enc = "\<lambda>(ns, k, v). bindE (encode C v) (\<lambda>b. Inr (ns, k, b))"
  have "\<forall>e \<in> set items. \<exists>y. ?enc e = Inr y" using es by (fastforce simp: storable_iff)
  then obtain encoded where enc: "mapE ?enc items = Inr encoded"
    using mapE_Inr_map [of items ?enc "\<lambda>e. projr (?enc e)"] by fastforce
  have ok: "is_text ns \<and> is_text k \<and> (\<exists>v. decode C b = Inr v)" if "(ns, k, b) \<in> set encoded" for ns k b
  proof -
    from that obtain i where i: "i < length items" "encoded ! i = (ns, k, b)"
      using mapE_length [OF enc] by (metis in_set_conv_nth)
    obtain v where v: "items ! i = (ns, k, v)" "encode C v = Inr b"
      using mapE_nth [OF enc i(1)] i(2) by (cases "items ! i") (auto simp: bindE_eq_Inr)
    then have "(ns, k, v) \<in> set items" using i(1) by (metis nth_mem)
    with es [OF this] v(2) show ?thesis by (auto simp: storable_iff)
  qed
  let ?b = "bucketize (\<lambda>(ns, k, b). shard_index h ns) encoded"
  have bk: "?b ! i = filter (\<lambda>(ns, k, b). shard_index h ns = i) encoded" if "i < SHARDS" for i
    by (subst bucketize_nth [OF _ that]) (auto intro: filter_cong)
  let ?st = "fold (\<lambda>i st. mem_set_bucket i (?b ! i) st) [0..<SHARDS] st"
  have f: "mem_inv C h ?st" "\<And>p. mem_raw h ?st p = updr encoded (mem_raw h st) p"
    using fold_set_bucket [OF inv order_refl ok bk] shard_index_less [of h] by (auto simp only: if_True)
  have "\<not> (\<not> (\<forall>(ns, k, v) \<in> set items. is_text ns \<and> is_text k))" using es by blast
  with enc have "mem_set_many C h st items = Inr ?st" by (simp add: mem_set_many_def Let_def)
  moreover have "mem_content C h ?st = upd_all items (mem_content C h st)"
    using updr_decode [OF enc, of "mem_content C h st" "mem_raw h st"] es
    by (simp add: fun_eq_iff mem_content_def f(2))
  ultimately show ?thesis using f(1) by blast
qed

lemma fold_index_update:
  assumes "\<And>i. i \<in> set is \<Longrightarrow> i < length out"
  shows "length (fold (\<lambda>i out. out[i := f i]) is out) = length out"
    "j < length out \<Longrightarrow> fold (\<lambda>i out. out[i := f i]) is out ! j = (if j \<in> set is then f j else out ! j)"
  using assms
proof (induction "is" arbitrary: out)
  case (Cons i "is")
  { case 1 with Cons show ?case by simp }
  { case 2 with Cons show ?case by (auto simp: nth_list_update) }
qed simp_all

lemma mem_get_many_raw:
  fixes h st pairs
  defines "n \<equiv> length pairs"
  defines "bs \<equiv> bucketize (\<lambda>i. shard_index h (fst (pairs ! i))) [0..<n]"
  assumes "j \<le> SHARDS"
  defines "raw \<equiv> fold (\<lambda>idx out. fold (\<lambda>i out. out[i := nraw (shards st ! idx) (pairs ! i)]) (bs ! idx) out)
    [0..<j] (replicate n None)"
  shows "length raw = n \<and>
    (\<forall>i < n. raw ! i = (if shard_index h (fst (pairs ! i)) < j then mem_raw h st (pairs ! i) else None))"
  using assms(3) unfolding raw_def
proof (induction j)
  case (Suc j)
  have b: "bs ! j = filter (\<lambda>i. shard_index h (fst (pairs ! i)) = j) [0..<n]"
    unfolding bs_def using Suc.prems by (subst bucketize_nth) auto
  then have m: "i \<in> set (bs ! j) \<longleftrightarrow> i < n \<and> shard_index h (fst (pairs ! i)) = j" for i by auto
  let ?out = "fold (\<lambda>idx out. fold (\<lambda>i out. out[i := nraw (shards st ! idx) (pairs ! i)]) (bs ! idx) out)
    [0..<j] (replicate n None)"
  have IH: "length ?out = n" "\<And>i. i < n \<Longrightarrow> ?out ! i =
      (if shard_index h (fst (pairs ! i)) < j then mem_raw h st (pairs ! i) else None)"
    using Suc by auto
  note u = fold_index_update [of "bs ! j" ?out, where f = "\<lambda>i. nraw (shards st ! j) (pairs ! i)"]
  have "\<And>i. i \<in> set (bs ! j) \<Longrightarrow> i < length ?out" using m IH(1) by simp
  from u [OF this] IH m show ?case by (auto simp: less_Suc_eq mem_raw_def)
qed simp

lemma mem_get_many_law:
  assumes "mem_inv C h st"
  shows "mem_get_many C h st pairs =
    Inr (map (\<lambda>p. case mem_content C h st p of None \<Rightarrow> PNone | Some v \<Rightarrow> v) pairs)"
proof -
  let ?bs = "bucketize (\<lambda>i. shard_index h (fst (pairs ! i))) [0..<length pairs]"
  let ?raw = "fold (\<lambda>idx out. fold (\<lambda>i out. out[i := nraw (shards st ! idx) (pairs ! i)]) (?bs ! idx) out)
    [0..<SHARDS] (replicate (length pairs) None)"
  have "?raw = map (mem_raw h st) pairs"
    using mem_get_many_raw [OF order_refl, where pairs = pairs and h = h and st = st] by (intro nth_equalityI) auto
  moreover have "mapE (\<lambda>item. case item of Some b \<Rightarrow> decode C b | None \<Rightarrow> Inr PNone)
      (map (mem_raw h st) pairs) =
    Inr (map (\<lambda>p. case mem_content C h st p of None \<Rightarrow> PNone | Some v \<Rightarrow> v) pairs)"
  proof (induction pairs)
    case (Cons p pairs)
    have "(case mem_raw h st p of Some b \<Rightarrow> decode C b | None \<Rightarrow> Inr PNone) =
        Inr (case mem_content C h st p of None \<Rightarrow> PNone | Some v \<Rightarrow> v)"
      using mem_get_law [OF assms, of "fst p" "snd p" PNone] by (simp add: mem_get_def)
    with Cons show ?case by simp
  qed simp
  ultimately show ?thesis by (simp add: mem_get_many_def Let_def)
qed

section \<open>Batch deletion\<close>

lemma bucket_remove_step:
  assumes "nsmap_ok g" "shard_remove g ns k = (r, g')"
  shows "bucket_remove ((ns, k) # ps) g f n =
    bucket_remove ps g' (f + (case r of None \<Rightarrow> 0 | Some b \<Rightarrow> length b)) (n + (if r = None then 0 else 1))"
  using assms nsmap_ok_kv [OF assms(1), of ns]
  by (auto simp: shard_remove_def Let_def kv_ok_def split: option.splits)

lemma bucket_remove_correct:
  assumes "shard_ok C h i g w" "bucket_remove ps g f n = (g', f', n')"
  shows "shard_ok C h i g' (w - of_nat (f' - f)) \<and> f \<le> f' \<and>
    nraw g' = (\<lambda>p. if p \<in> set ps then None else nraw g p) \<and> n' = n + card (set ps \<inter> dom (nraw g))"
  using assms
proof (induction ps arbitrary: g w f n)
  case (Cons p ps)
  obtain ns k where p: "p = (ns, k)" by (cases p)
  obtain r g1 where rem: "shard_remove g ns k = (r, g1)" by fastforce
  have nok: "nsmap_ok g" using Cons.prems(1) by (rule shard_okD)
  note rc = shard_remove_correct [OF nok rem]
  let ?l = "case r of None \<Rightarrow> 0 | Some b \<Rightarrow> length b"
  have ok1: "shard_ok C h i g1 (w - of_nat ?l)"
  proof (cases r)
    case None
    with rc(3) rem have "g1 = g" by (auto simp: shard_remove_def Let_def split: option.splits)
    with None Cons.prems(1) show ?thesis by simp
  next
    case (Some old)
    with shard_ok_remove [OF Cons.prems(1)] rem show ?thesis by simp
  qed
  have "bucket_remove ps g1 (f + ?l) (n + (if r = None then 0 else 1)) = (g', f', n')"
    using Cons.prems(2) bucket_remove_step [OF nok rem] p by simp
  from Cons.IH [OF ok1 this]
  have IH: "shard_ok C h i g' (w - of_nat ?l - of_nat (f' - (f + ?l)))" "f + ?l \<le> f'"
      "nraw g' = (\<lambda>p. if p \<in> set ps then None else nraw g1 p)"
      "n' = n + (if r = None then 0 else 1) + card (set ps \<inter> dom (nraw g1))"
    by auto
  have "w - of_nat ?l - of_nat (f' - (f + ?l)) = w - of_nat (f' - f)"
    using IH(2) by (simp add: of_nat_diff)
  moreover have "set (p # ps) \<inter> dom (nraw g) =
      (if r = None then {} else {p}) \<union> (set ps \<inter> dom (nraw g1))"
    using rc(2,3) p by (auto split: if_splits)
  then have "card (set (p # ps) \<inter> dom (nraw g)) =
      (if r = None then 0 else 1) + card (set ps \<inter> dom (nraw g1))"
    using rc(2) p by (auto simp: card_insert_if)
  moreover have "nraw g' = (\<lambda>q. if q \<in> set (p # ps) then None else nraw g q)"
    using IH(3) rc(2) p by (auto simp: fun_eq_iff)
  moreover have "f \<le> f'" using IH(2) by simp
  ultimately show ?case using IH(1,4) unfolding add.assoc by (metis (no_types, lifting))
qed simp

lemma mem_delete_bucket_correct:
  assumes "mem_inv C h st" "i < SHARDS" "\<And>p. p \<in> set ps \<Longrightarrow> shard_index h (fst p) = i"
    "mem_delete_bucket i ps (n, st) = (n', st')"
  shows "mem_inv C h st'" "mem_raw h st' p = (if p \<in> set ps then None else mem_raw h st p)"
    "n' = n + card (set ps \<inter> dom (mem_raw h st))"
proof -
  obtain g f m where br: "bucket_remove ps (shards st ! i) 0 n = (g, f, m)"
    by (metis prod_cases3)
  note c = bucket_remove_correct [OF mem_inv_shard [OF assms(1,2)] br]
  have ok: "shard_ok C h i g (shard_bytes st ! i - of_nat f)"
    and nr: "nraw g = (\<lambda>p. if p \<in> set ps then None else nraw (shards st ! i) p)"
    and m: "m = n + card (set ps \<inter> dom (nraw (shards st ! i)))"
    using c by simp_all
  have d: "set ps \<inter> dom (nraw (shards st ! i)) = set ps \<inter> dom (mem_raw h st)"
    using assms(3) by (auto simp: mem_raw_def dom_def)
  show "mem_inv C h st'"
    using assms(1,4) br mem_inv_upd [OF assms(1,2) ok]
    by (auto simp: mem_delete_bucket_def split: if_splits)
  show "n' = n + card (set ps \<inter> dom (mem_raw h st))"
    using assms(4) br m d by (auto simp: mem_delete_bucket_def split: if_splits)
  show "mem_raw h st' p = (if p \<in> set ps then None else mem_raw h st p)"
  proof (cases "ps = []")
    case False
    then have "st' = st\<lparr>shards := (shards st)[i := g],
        shard_bytes := (shard_bytes st)[i := shard_bytes st ! i - of_nat f]\<rparr>"
      using assms(4) br by (auto simp: mem_delete_bucket_def)
    then show ?thesis
      using assms(3) [of p] by (auto simp: mem_raw_upd [OF assms(1,2)] nr) (auto simp: mem_raw_def)
  qed (use assms(4) in \<open>auto simp: mem_delete_bucket_def\<close>)
qed

lemma fold_delete_bucket:
  assumes "mem_inv C h st" "j \<le> SHARDS"
    and bk: "\<And>i. i < SHARDS \<Longrightarrow> buckets ! i = filter (\<lambda>(ns, k). shard_index h ns = i) ps"
    and f: "fold (\<lambda>i. mem_delete_bucket i (buckets ! i)) [0..<j] (0, st) = (n, st')"
  shows "mem_inv C h st' \<and>
    (\<forall>p. mem_raw h st' p = (if p \<in> set ps \<and> shard_index h (fst p) < j then None else mem_raw h st p)) \<and>
    n = card {p \<in> set ps \<inter> dom (mem_raw h st). shard_index h (fst p) < j}"
  using assms(2) f
proof (induction j arbitrary: n st')
  case (Suc j)
  obtain n1 st1 where f1: "fold (\<lambda>i. mem_delete_bucket i (buckets ! i)) [0..<j] (0, st) = (n1, st1)"
    by fastforce
  have j: "j < SHARDS" using Suc.prems by simp
  have IH: "mem_inv C h st1" "\<And>p. mem_raw h st1 p =
      (if p \<in> set ps \<and> shard_index h (fst p) < j then None else mem_raw h st p)"
      "n1 = card {p \<in> set ps \<inter> dom (mem_raw h st). shard_index h (fst p) < j}"
    using Suc.IH [OF _ f1] Suc.prems(1) by auto
  have s: "mem_delete_bucket j (buckets ! j) (n1, st1) = (n, st')"
    using Suc.prems(2) f1 by simp
  have b: "p \<in> set (buckets ! j) \<longleftrightarrow> p \<in> set ps \<and> shard_index h (fst p) = j" for p
    using bk [OF j] by (cases p) auto
  note step = mem_delete_bucket_correct [OF IH(1) j _ s, unfolded b]
  have "set (buckets ! j) \<inter> dom (mem_raw h st1) =
      {p \<in> set ps \<inter> dom (mem_raw h st). shard_index h (fst p) = j}" (is "?X = ?Y")
    using b by (auto simp: IH(2) dom_def)
  moreover have "{p \<in> set ps \<inter> dom (mem_raw h st). shard_index h (fst p) < Suc j} =
      {p \<in> set ps \<inter> dom (mem_raw h st). shard_index h (fst p) < j} \<union> ?Y" by auto
  then have "card {p \<in> set ps \<inter> dom (mem_raw h st). shard_index h (fst p) < Suc j} = n1 + card ?Y"
    by (simp add: IH(3)) (rule card_Un_disjoint, auto)
  ultimately have "n = card {p \<in> set ps \<inter> dom (mem_raw h st). shard_index h (fst p) < Suc j}"
    using step(3) by simp
  moreover have "mem_raw h st' p =
      (if p \<in> set ps \<and> shard_index h (fst p) < Suc j then None else mem_raw h st p)" for p
    using step(2) [of p] IH(2) [of p] by (auto simp: less_Suc_eq)
  ultimately show ?case using step(1) by blast
qed (use assms(1) in simp)

lemma mem_delete_many_law:
  assumes "mem_inv C h st" "mem_delete_many h st ps = (n, st')"
  shows "mem_inv C h st' \<and> mem_content C h st' = del_all (set ps) (mem_content C h st) \<and>
    n = card (set ps \<inter> dom (mem_content C h st))"
proof -
  let ?b = "bucketize (\<lambda>(ns, k). shard_index h ns) ps"
  have bk: "?b ! i = filter (\<lambda>(ns, k). shard_index h ns = i) ps" if "i < SHARDS" for i
    by (subst bucketize_nth [OF _ that]) (auto intro: filter_cong)
  have f: "mem_inv C h st'" "\<And>p. mem_raw h st' p = (if p \<in> set ps then None else mem_raw h st p)"
      "n = card (set ps \<inter> dom (mem_raw h st))"
    using fold_delete_bucket [OF assms(1) order_refl bk, of n st'] assms(2)
    by (auto simp: mem_delete_many_def Int_def)
  then show ?thesis
    using dom_mem_content [OF assms(1)] by (auto simp: fun_eq_iff mem_content_def del_all_def)
qed

section \<open>Namespaces, keys, size\<close>

lemma mem_ns_keys:
  assumes "mem_inv C h st"
  shows "ns_keys (mem_content C h st) ns =
    (case dget (shards st ! shard_index h ns) ns of None \<Rightarrow> {} | Some kv \<Rightarrow> set (dkeys kv))"
  using dget_Some_iff
  by (auto simp: ns_keys_def mem_content_dom [OF assms] mem_raw_def nraw_def split: option.splits)
    (metis map_of_SomeD fst_conv image_eqI, force simp: image_iff dest: weak_map_of_SomeI)

lemma mem_kv_ok:
  "mem_inv C h st \<Longrightarrow> i < SHARDS \<Longrightarrow> dget (shards st ! i) ns = Some kv \<Longrightarrow> kv_ok kv"
  using shard_okD(1) [OF mem_inv_shard] nsmap_ok_kv by blast

lemma mem_delete_namespace_law:
  assumes "mem_inv C h st" "mem_delete_namespace h st ns = (n, st')"
  shows "mem_inv C h st' \<and> mem_content C h st' = del_all {p. fst p = ns} (mem_content C h st) \<and>
    n = card (ns_keys (mem_content C h st) ns)"
proof (cases "dget (shards st ! shard_index h ns) ns")
  case None
  then have "mem_raw h st p = None" if "fst p = ns" for p
    using that by (simp add: mem_raw_def nraw_def)
  with None assms mem_ns_keys [OF assms(1), of ns] show ?thesis
    by (auto simp: mem_delete_namespace_def fun_eq_iff del_all_def mem_content_def)
next
  case (Some kv)
  let ?i = "shard_index h ns"
  let ?g = "shards st ! ?i" and ?w = "shard_bytes st ! ?i"
  have ok: "shard_ok C h ?i ?g ?w" using assms(1) by (simp add: mem_inv_shard)
  have kv: "dict_ok kv" using mem_kv_ok [OF assms(1) shard_index_less Some] by (simp add: kv_ok_def)
  have st': "st' = st\<lparr>shards := (shards st)[?i := ddel ns ?g],
      shard_bytes := (shard_bytes st)[?i := ?w - of_nat (dsum length kv)]\<rparr>" "n = length kv"
    using assms(2) Some by (auto simp: mem_delete_namespace_def Let_def)
  have g: "nsmap_ok ?g" using ok by (rule shard_okD)
  then have "nsize (ddel ns ?g) + dsum length kv = nsize ?g"
    using dsum_ddel [of ?g "dsum length" ns] Some by (simp add: nsize_def nsmap_ok_def)
  then have "of_nat (nsize ?g) = (of_nat (nsize (ddel ns ?g)) + of_nat (dsum length kv) :: 64 word)"
    by (metis of_nat_add)
  then have w: "?w - of_nat (dsum length kv) = of_nat (nsize (ddel ns ?g))"
    using shard_okD(2) [OF ok] by simp
  have "shard_ok C h ?i (ddel ns ?g) (?w - of_nat (dsum length kv))"
    unfolding shard_ok_def using w nsmap_ok_ddel [OF g] shard_okD(3) [OF ok]
    by (auto simp: nraw_ddel split: if_splits)
  then have "mem_inv C h st'" unfolding st' by (intro mem_inv_upd [OF assms(1)]) simp_all
  moreover have "mem_raw h st' p = (if fst p = ns then None else mem_raw h st p)" for p
    by (auto simp: st'(1) mem_raw_upd [OF assms(1)] nraw_ddel) (simp add: mem_raw_def)
  then have "mem_content C h st' = del_all {p. fst p = ns} (mem_content C h st)"
    by (auto simp: fun_eq_iff del_all_def mem_content_def)
  moreover have "n = card (ns_keys (mem_content C h st) ns)"
    using kv Some st'(2) mem_ns_keys [OF assms(1), of ns] distinct_card [of "dkeys kv"]
    by (simp add: dict_ok_def)
  ultimately show ?thesis by blast
qed

lemma mem_keys_law:
  assumes "mem_inv C h st"
  shows "distinct (mem_keys h st ns None) \<and> set (mem_keys h st ns None) = ns_keys (mem_content C h st) ns"
    "distinct (mem_keys h st ns (Some p)) \<and>
     set (mem_keys h st ns (Some p)) = {k \<in> ns_keys (mem_content C h st) ns. startswith k p}"
  using mem_kv_ok [OF assms shard_index_less, where ns = ns] mem_ns_keys [OF assms, of ns]
  by (auto simp: mem_keys_def kv_ok_def dict_ok_def split: option.splits)

lemma mem_max_key_law:
  assumes "mem_inv C h st"
  shows "mem_max_key h st ns = (if ns_keys (mem_content C h st) ns = {} then None
    else Some (Max (ns_keys (mem_content C h st) ns)))"
  using mem_kv_ok [OF assms shard_index_less, where ns = ns] mem_ns_keys [OF assms, of ns]
  by (auto simp: mem_max_key_def kv_ok_def max_str_Max split: option.splits)

lemma mem_has_namespace_law:
  assumes "mem_inv C h st"
  shows "mem_has_namespace h st ns \<longleftrightarrow> ns \<in> ns_names (mem_content C h st)"
  using mem_kv_ok [OF assms shard_index_less, where ns = ns] mem_ns_keys [OF assms, of ns]
  by (auto simp: mem_has_namespace_def kv_ok_def ns_names_def split: option.splits)

lemma mem_ns_placed:
  assumes "mem_inv C h st" "i < SHARDS"
  shows "ns \<in> set (dkeys (shards st ! i)) \<longleftrightarrow> shard_index h ns = i \<and> ns \<in> ns_names (mem_content C h st)"
proof -
  have "shard_index h ns = i" if ns: "ns \<in> set (dkeys (shards st ! i))"
  proof -
    obtain kv where kv: "dget (shards st ! i) ns = Some kv" using ns by (metis dget_Some_iff)
    with mem_kv_ok [OF assms] obtain k b kv' where "kv = (k, b) # kv'"
      by (cases kv) (auto simp: kv_ok_def)
    with kv have "nraw (shards st ! i) (ns, k) = Some b" by (simp add: nraw_def)
    with nraw_Some_shard [OF assms] show ?thesis by fastforce
  qed
  moreover have "ns \<in> ns_names (mem_content C h st) \<longleftrightarrow> ns \<in> set (dkeys (shards st ! shard_index h ns))"
    using mem_kv_ok [OF assms(1) shard_index_less, where ns = ns] mem_ns_keys [OF assms(1), of ns]
      dget_None_iff [of "shards st ! shard_index h ns" ns]
    by (cases "dget (shards st ! shard_index h ns) ns") (auto simp: ns_names_def kv_ok_def)
  ultimately show ?thesis by blast
qed

lemma distinct_concat_tag:
  "(\<And>i. i < length xss \<Longrightarrow> distinct (xss ! i)) \<Longrightarrow>
   (\<And>i x. i < length xss \<Longrightarrow> x \<in> set (xss ! i) \<Longrightarrow> t x = i) \<Longrightarrow> distinct (concat xss)"
proof (induction xss rule: rev_induct)
  case (snoc ys xss)
  have "distinct (concat xss)"
    using snoc.prems by (intro snoc.IH) (metis length_append_singleton less_SucI nth_append)+
  moreover have "distinct ys" using snoc.prems(1) [of "length xss"] by simp
  moreover have "x \<notin> set (concat xss)" if "x \<in> set ys" for x
  proof
    assume "x \<in> set (concat xss)"
    then obtain zs where "zs \<in> set xss" "x \<in> set zs" by auto
    then obtain i where i: "i < length xss" "x \<in> set (xss ! i)" by (metis in_set_conv_nth)
    then have "t x = i" using snoc.prems(2) [of i x] by (simp add: nth_append)
    moreover have "t x = length xss" using snoc.prems(2) [of "length xss" x] that by simp
    ultimately show False using i(1) by simp
  qed
  ultimately show ?case by auto
qed simp

lemma mem_namespaces_law:
  assumes "mem_inv C h st"
  shows "distinct (mem_namespaces st None) \<and> set (mem_namespaces st None) = ns_names (mem_content C h st)"
    "distinct (mem_namespaces st (Some p)) \<and>
     set (mem_namespaces st (Some p)) = {ns \<in> ns_names (mem_content C h st). startswith ns p}"
proof -
  have l: "length (shards st) = SHARDS" using mem_inv_len [OF assms] by simp
  have d: "distinct (dkeys (shards st ! i))" if "i < SHARDS" for i
    using shard_okD(1) [OF mem_inv_shard [OF assms that]] by (simp add: nsmap_ok_def dict_ok_def)
  have all: "x \<in> (\<Union>g \<in> set (shards st). set (dkeys g)) \<longleftrightarrow> x \<in> ns_names (mem_content C h st)" for x
  proof
    assume "x \<in> (\<Union>g \<in> set (shards st). set (dkeys g))"
    then obtain g where g: "g \<in> set (shards st)" "x \<in> set (dkeys g)" by blast
    from g(1) obtain i where i: "i < SHARDS" "shards st ! i = g" by (metis in_set_conv_nth l)
    with g(2) have "x \<in> set (dkeys (shards st ! i))" by blast
    then show "x \<in> ns_names (mem_content C h st)" using mem_ns_placed [OF assms i(1), of x] by blast
  next
    assume "x \<in> ns_names (mem_content C h st)"
    then have "x \<in> set (dkeys (shards st ! shard_index h x))"
      using mem_ns_placed [OF assms shard_index_less, of x h x] by blast
    moreover have "shards st ! shard_index h x \<in> set (shards st)"
      using shard_index_less [of h x] l by (metis nth_mem)
    ultimately show "x \<in> (\<Union>g \<in> set (shards st). set (dkeys g))" by blast
  qed
  have dc: "distinct (concat (map (\<lambda>g. filter P (dkeys g)) (shards st)))" for P
  proof (rule distinct_concat_tag [where t = "shard_index h"])
    fix i x assume i: "i < length (map (\<lambda>g. filter P (dkeys g)) (shards st))"
    then show "distinct (map (\<lambda>g. filter P (dkeys g)) (shards st) ! i)" using d l by simp
    assume "x \<in> set (map (\<lambda>g. filter P (dkeys g)) (shards st) ! i)"
    with i have "x \<in> set (dkeys (shards st ! i))" by auto
    with i l show "shard_index h x = i" using mem_ns_placed [OF assms, of i x] by simp
  qed
  show "distinct (mem_namespaces st None) \<and> set (mem_namespaces st None) = ns_names (mem_content C h st)"
    using dc [of "\<lambda>_. True"] all by (auto simp: mem_namespaces_def)
  show "distinct (mem_namespaces st (Some p)) \<and>
      set (mem_namespaces st (Some p)) = {ns \<in> ns_names (mem_content C h st). startswith ns p}"
    using dc [of "\<lambda>k. startswith k p"] all by (auto simp: mem_namespaces_def)
qed

lemma card_nraw: "nsmap_ok g \<Longrightarrow> finite (dom (nraw g)) \<and> card (dom (nraw g)) = dsum length g"
proof (induction g)
  case Nil
  have "dom (nraw []) = {}" by (auto simp: nraw_def)
  then show ?case by simp
next
  case (Cons e g)
  obtain ns kv where e: "e = (ns, kv)" by (cases e)
  have g: "nsmap_ok g" and kv: "dict_ok kv" and ns: "dget g ns = None"
    using Cons.prems e by (auto simp: nsmap_ok_def dict_ok_def kv_ok_def dget_None_iff)
  have "nraw (e # g) p = (if fst p = ns then dget kv (snd p) else nraw g p)" for p
    by (simp add: nraw_def e)
  moreover have "nraw g p = None" if "fst p = ns" for p using that ns by (simp add: nraw_def)
  ultimately have u: "dom (nraw (e # g)) = Pair ns ` dom (dget kv) \<union> dom (nraw g)"
    by (auto simp: image_iff split: if_splits)
  note u = u [unfolded dom_dget]
  have "card (Pair ns ` set (dkeys kv)) = length kv"
    using kv distinct_card [of "dkeys kv"] by (simp add: dict_ok_def card_image inj_on_def)
  moreover have "Pair ns ` set (dkeys kv) \<inter> dom (nraw g) = {}" using ns by (auto simp: nraw_def)
  ultimately show ?case
    using Cons.IH [OF g] unfolding u by (simp add: card_Un_disjoint e)
qed

lemma mem_dom_split:
  assumes "mem_inv C h st"
  shows "dom (mem_content C h st) = (\<Union>i < SHARDS. dom (nraw (shards st ! i)))"
proof -
  have "p \<in> dom (mem_raw h st)" if i: "i < SHARDS" and p: "nraw (shards st ! i) p = Some b" for p i b
    using nraw_Some_shard [OF assms i p] p by (auto simp: mem_raw_def)
  then have "(\<Union>i < SHARDS. dom (nraw (shards st ! i))) \<subseteq> dom (mem_raw h st)" by blast
  moreover have "dom (mem_raw h st) \<subseteq> (\<Union>i < SHARDS. dom (nraw (shards st ! i)))"
  proof
    fix p assume "p \<in> dom (mem_raw h st)"
    then have "p \<in> dom (nraw (shards st ! shard_index h (fst p)))" by (auto simp: mem_raw_def)
    then show "p \<in> (\<Union>i < SHARDS. dom (nraw (shards st ! i)))" using shard_index_less by blast
  qed
  ultimately show ?thesis unfolding dom_mem_content [OF assms] by blast
qed

lemma mem_len_law:
  assumes "mem_inv C h st"
  shows "finite (dom (mem_content C h st)) \<and> mem_len st = card (dom (mem_content C h st))"
proof -
  have n: "finite (dom (nraw (shards st ! i)))" "card (dom (nraw (shards st ! i))) = dsum length (shards st ! i)"
    if "i < SHARDS" for i
    using card_nraw [OF shard_okD(1) [OF mem_inv_shard [OF assms that]]] by auto
  have "dom (nraw (shards st ! i)) \<inter> dom (nraw (shards st ! j)) = {}"
    if "i < SHARDS" "j < SHARDS" "i \<noteq> j" for i j
    using nraw_Some_shard [OF assms that(1)] nraw_Some_shard [OF assms that(2)] that(3) by blast
  then have "card (\<Union>i < SHARDS. dom (nraw (shards st ! i))) = (\<Sum>i < SHARDS. card (dom (nraw (shards st ! i))))"
    using n by (intro card_UN_disjoint) simp_all
  also have "\<dots> = (\<Sum>i < SHARDS. dsum length (shards st ! i))" using n by simp
  also have "\<dots> = mem_len st"
    using mem_inv_len [OF assms] by (simp add: mem_len_def sum_list_sum_nth atLeast0LessThan)
  finally show ?thesis unfolding mem_dom_split [OF assms] using n by simp
qed

lemma shard_ok_Nil: "shard_ok C h i [] 0"
  by (simp add: shard_ok_def nsize_def nraw_def)

lemma mem_clear_law:
  assumes "mem_inv C h st"
  shows "mem_inv C h (mem_clear st) \<and> mem_content C h (mem_clear st) = Map.empty"
  using mem_inv_len [OF assms] shard_index_less [of h]
  by (auto simp: mem_clear_def mem_inv_def shards_ok_def shard_ok_Nil mem_content_def mem_raw_def
      nraw_def fun_eq_iff)

lemma mem_text_law:
  "mem_inv C h st \<Longrightarrow> (ns, k) \<in> dom (mem_content C h st) \<Longrightarrow> is_text ns \<and> is_text k"
  using mem_raw_ok(1,2) unfolding dom_mem_content by blast

section \<open>The contract\<close>

definition mem_ops :: "codec \<Rightarrow> (pystr \<Rightarrow> nat) \<Rightarrow> mem_store store_ops" where
  "mem_ops C h =
     \<lparr>op_set = mem_set C h, op_get = mem_get C h,
      op_set_many = Some (mem_set_many C h), op_get_many = Some (mem_get_many C h),
      op_contains = mem_contains h, op_delete = mem_delete h,
      op_delete_many = Some (mem_delete_many h), op_delete_namespace = Some (mem_delete_namespace h),
      op_keys = (\<lambda>st ns. mem_keys h st ns None),
      op_keys_prefix = (\<lambda>st ns p. Inr (mem_keys h st ns (Some p))),
      op_max_key = mem_max_key h,
      op_namespaces = (\<lambda>st. mem_namespaces st None),
      op_namespaces_prefix = (\<lambda>st p. Inr (mem_namespaces st (Some p))),
      op_clear = mem_clear, op_len = mem_len, op_has_namespace = mem_has_namespace h,
      op_indexed_max_key = False\<rparr>"

interpretation mem: store_like "mem_ops C h" "mem_inv C h" "mem_content C h" is_text "storable C"
  for C :: codec and h :: "pystr \<Rightarrow> nat"
proof (unfold_locales, unfold mem_ops_def store_ops.simps option.inject sum.inject, goal_cases)
  case 1 then show ?case using mem_len_law by blast
next
  case 2 then show ?case by (rule mem_set_law)
next
  case 3 then show ?case by (rule mem_get_law)
next
  case 4 then show ?case using mem_set_many_law by metis
next
  case 5 then show ?case using mem_get_many_law by metis
next
  case 6 then show ?case by (rule mem_contains_law)
next
  case 7 then show ?case by (rule mem_delete_law)
next
  case 8 then show ?case using mem_delete_many_law by metis
next
  case 9 then show ?case using mem_delete_namespace_law by metis
next
  case 10 then show ?case by (rule mem_keys_law)
next
  case 11 then show ?case using mem_keys_law(2) by metis
next
  case 12 then show ?case by simp
next
  case 13 then show ?case by (rule mem_max_key_law)
next
  case 14 then show ?case by (rule mem_namespaces_law)
next
  case 15 then show ?case using mem_namespaces_law(2) by metis
next
  case 16 then show ?case by simp
next
  case 17 then show ?case by (rule mem_clear_law)
next
  case 18 then show ?case using mem_len_law by blast
next
  case 19 then show ?case by (rule mem_has_namespace_law)
next
  case 20 then show ?case by (rule mem_text_law)
next
  case 21 then show ?case by simp
next
  case 22 then show ?case by (rule is_text_ascii)
qed

end
