(* ===== verification/Mem_Snapshots.thy ===== *)
theory Mem_Snapshots
  imports Mem_Store_Laws
begin

text \<open>
  Whole-store results for the in-memory store of \<^verbatim>\<open>src/rust/src/store.rs\<close>: runs of operations
  against the map of entries, batches against single operations, exact byte accounting, snapshots,
  diffs, restore and the bounded history.
\<close>

section \<open>Runs\<close>

lemma mem_new_ok:
  assumes "mem_new backend codec mh = Inr st"
  shows "mem_inv C h st" "mem_content C h st = Map.empty"
proof -
  have s: "shards st = replicate SHARDS []" "shard_bytes st = replicate SHARDS 0"
    using assms by (auto simp: mem_new_def split: if_splits)
  then show "mem_inv C h st" by (simp add: mem_inv_def shards_ok_def shard_ok_Nil)
  show "mem_content C h st = Map.empty"
    by (auto simp: mem_content_def mem_raw_def s nraw_def)
qed

lemma mem_has_batch: "has_batch (mem_ops C h)"
  by (simp add: has_batch_def mem_ops_def)

lemma mem_get_many_get:
  "mem_inv C h st \<Longrightarrow> mem_get_many C h st ps = mapE (\<lambda>(ns, k). mem_get C h st ns k PNone) ps"
proof -
  assume i: "mem_inv C h st"
  have "mapE (\<lambda>(ns, k). mem_get C h st ns k PNone) ps =
      Inr (map (\<lambda>p. case mem_content C h st p of None \<Rightarrow> PNone | Some v \<Rightarrow> v) ps)"
    by (rule mapE_Inr_map) (auto simp: mem_get_law [OF i])
  with mem_get_many_law [OF i] show ?thesis by simp
qed

text \<open>The bytes the entries of a store take.\<close>

definition mem_bytes :: "mem_store \<Rightarrow> nat" where
  "mem_bytes st = sum_list (map nsize (shards st))"

lemma sum_list_of_nat: "sum_list (map of_nat xs) = of_nat (sum_list xs)"
  by (induction xs) simp_all

lemma mem_bytes_exact:
  assumes "mem_inv C h st"
  shows "sum_list (shard_bytes st) = of_nat (mem_bytes st)"
proof -
  have "shard_bytes st = map (\<lambda>g. of_nat (nsize g)) (shards st)"
    using mem_inv_len [OF assms] shard_okD(2) [OF mem_inv_shard [OF assms]]
    by (intro nth_equalityI) auto
  then have "sum_list (shard_bytes st) = sum_list (map of_nat (map nsize (shards st)))"
    by (simp add: o_def)
  then show ?thesis unfolding mem_bytes_def by (simp only: sum_list_of_nat)
qed

text \<open>A codec that knows the values of a list, by their position in it.\<close>

fun index_of :: "'a \<Rightarrow> 'a list \<Rightarrow> nat option" where
  "index_of x [] = None"
| "index_of x (y # ys) = (if x = y then Some 0 else map_option Suc (index_of x ys))"

definition table_codec :: "pyval list \<Rightarrow> codec" where
  "table_codec vs =
     \<lparr>encode = (\<lambda>v. case index_of v vs of None \<Rightarrow> Inl TypeError | Some i \<Rightarrow> Inr (replicate i 0)),
      decode = (\<lambda>b. if length b < length vs then Inr (vs ! length b) else Inl (ValueError ''msgpack''))\<rparr>"

lemma index_of_nth: "index_of x xs = Some i \<Longrightarrow> i < length xs \<and> xs ! i = x"
  by (induction xs arbitrary: i) (auto split: if_splits)

lemma index_of_in: "x \<in> set xs \<Longrightarrow> \<exists>i. index_of x xs = Some i"
  by (induction xs) auto

lemma table_codec_storable: "v \<in> set vs \<Longrightarrow> storable (table_codec vs) v"
  using index_of_in [of v vs] index_of_nth [of v vs] by (auto simp: storable_def table_codec_def)

text \<open>A small codec for the witnesses: msgpack's encodings of \<open>None\<close> and the booleans.\<close>

definition flag_codec :: codec where
  "flag_codec =
     \<lparr>encode = (\<lambda>v. case v of PNone \<Rightarrow> Inr [0xC0] | PBool b \<Rightarrow> Inr [if b then 0xC3 else 0xC2]
                   | _ \<Rightarrow> Inl TypeError),
      decode = (\<lambda>b. if b = [0xC0] then Inr PNone else if b = [0xC3] then Inr (PBool True)
                   else if b = [0xC2] then Inr (PBool False) else Inl (ValueError ''msgpack''))\<rparr>"

lemma flag_codec_storable [simp]: "storable flag_codec PNone" "storable flag_codec (PBool b)"
  by (simp_all add: storable_def flag_codec_def)

text \<open>
  C2. From a new store, every run of storing, batch-storing, deleting and clearing operations with
  storable values succeeds and leaves exactly the map of entries the operations describe, whatever
  the hash function: every key reads back its last stored value, the length counts the entries,
  and the sum of the per-shard byte counters is the size of the stored values (modulo the counter's
  64 bits).
\<close>

theorem mem_runs_refine_map:
  assumes "mem_new backend cname mh = Inr st0" "\<forall>w \<in> set ws. wop_ok is_text (storable C) w"
  shows "\<exists>st. do_wops (mem_ops C h) ws st0 = Inr st \<and>
     mem_content C h st = fold spec_wop ws Map.empty \<and>
     (\<forall>ns k d. mem_get C h st ns k d =
        Inr (case fold spec_wop ws Map.empty (ns, k) of None \<Rightarrow> d | Some v \<Rightarrow> v)) \<and>
     mem_len st = card (dom (fold spec_wop ws Map.empty)) \<and>
     sum_list (shard_bytes st) = of_nat (mem_bytes st)"
proof -
  obtain st where st: "do_wops (mem_ops C h) ws st0 = Inr st" "mem_inv C h st"
      "mem_content C h st = fold spec_wop ws Map.empty"
    using mem.do_wops_law [OF mem_new_ok(1) [OF assms(1)] mem_has_batch assms(2)]
    by (auto simp: mem_new_ok(2) [OF assms(1)])
  then show ?thesis
    using mem_get_law [OF st(2)] mem_len_law [OF st(2)] mem_bytes_exact [OF st(2)] by auto
qed

text \<open>Witness of C2: two entries stored, one of them deleted.\<close>

theorem mem_runs_refine_map_witness:
  "\<exists>st0 st. mem_new (lit ''memory'') (lit ''msgpack'') None = Inr st0 \<and>
     do_wops (mem_ops flag_codec sum_list)
       [WSet [97] [98] (PBool True), WSetMany [([97], [99], PNone)], WDelete [97] [98]] st0 = Inr st \<and>
     mem_len st = 1"
proof -
  let ?ws = "[WSet [97] [98] (PBool True), WSetMany [([97], [99], PNone)], WDelete [97] [98]]"
  have ok: "\<forall>w \<in> set ?ws. wop_ok is_text (storable flag_codec) w" by (simp add: scalar_def)
  obtain st0 where st0: "mem_new (lit ''memory'') (lit ''msgpack'') None = Inr st0"
    by (simp add: mem_new_def)
  have "dom (fold spec_wop ?ws Map.empty) = {([97], [99])}"
    by (auto simp: dom_def split: if_splits)
  with mem_runs_refine_map [OF st0 ok, of sum_list] st0 show ?thesis by auto
qed

section \<open>Batches\<close>

fun set_seq :: "codec \<Rightarrow> (pystr \<Rightarrow> nat) \<Rightarrow> mem_store \<Rightarrow> entry list \<Rightarrow> exc + mem_store" where
  "set_seq C h st [] = Inr st"
| "set_seq C h st ((ns, k, v) # es) = bindE (mem_set C h st ns k v) (\<lambda>st'. set_seq C h st' es)"

definition entry_accepted :: "codec \<Rightarrow> entry \<Rightarrow> bool" where
  "entry_accepted C = (\<lambda>(ns, k, v). is_text ns \<and> is_text k \<and> (\<exists>b. encode C v = Inr b))"

lemma mem_set_many_accepted:
  "(\<exists>st'. mem_set_many C h st es = Inr st') \<longleftrightarrow> (\<forall>e \<in> set es. entry_accepted C e)"
proof -
  let ?f = "\<lambda>(ns, k, v). bindE (encode C v) (\<lambda>b. Inr (ns, k, b))"
  have enc: "(\<exists>r. mapE ?f es = Inr r) \<longleftrightarrow> (\<forall>(ns, k, v) \<in> set es. \<exists>b. encode C v = Inr b)"
  proof -
    have f: "(\<exists>e. ?f x = Inl e) \<longleftrightarrow> \<not> (\<exists>b. encode C (snd (snd x)) = Inr b)" for x
      by (cases "encode C (snd (snd x))") (auto split: prod.splits)
    have "(\<exists>r. mapE ?f es = Inr r) \<longleftrightarrow> \<not> (\<exists>e. mapE ?f es = Inl e)"
      by (cases "mapE ?f es") auto
    also have "\<dots> \<longleftrightarrow> (\<forall>x \<in> set es. \<exists>b. encode C (snd (snd x)) = Inr b)"
      unfolding mapE_fails f by simp
    finally show ?thesis by (simp add: case_prod_unfold)
  qed
  show ?thesis
  proof (cases "\<forall>(ns, k, v) \<in> set es. is_text ns \<and> is_text k")
    case True
    then have "(\<exists>st'. mem_set_many C h st es = Inr st') \<longleftrightarrow> (\<exists>r. mapE ?f es = Inr r)"
      by (auto simp: mem_set_many_def Let_def bindE_eq_Inr)
    with enc True show ?thesis by (auto simp: entry_accepted_def)
  next
    case False
    then show ?thesis by (auto simp: mem_set_many_def entry_accepted_def)
  qed
qed

lemma set_seq_accepted:
  "(\<exists>st'. set_seq C h st es = Inr st') \<longleftrightarrow> (\<forall>e \<in> set es. entry_accepted C e)"
proof (induction es arbitrary: st)
  case (Cons e es)
  obtain ns k v where e: "e = (ns, k, v)" by (cases e)
  show ?case
  proof (cases "entry_accepted C e")
    case True
    then obtain st1 where "mem_set C h st ns k v = Inr st1"
      by (auto simp: e entry_accepted_def mem_set_def Let_def case_prod_unfold)
    with Cons.IH [of st1] True show ?thesis by (simp add: e)
  next
    case False
    then have "\<exists>x. mem_set C h st ns k v = Inl x"
      by (cases "encode C v") (auto simp: e entry_accepted_def mem_set_def)
    with False show ?thesis by (auto simp: e)
  qed
qed simp

lemma set_seq_law:
  assumes "mem_inv C h st" "\<forall>(ns, k, v) \<in> set es. is_text ns \<and> is_text k \<and> storable C v"
  shows "\<exists>st'. set_seq C h st es = Inr st' \<and> mem_inv C h st' \<and>
    mem_content C h st' = upd_all es (mem_content C h st)"
  using assms
proof (induction es arbitrary: st)
  case (Cons e es)
  obtain ns k v where e: "e = (ns, k, v)" by (cases e)
  obtain st1 where st1: "mem_set C h st ns k v = Inr st1" "mem_inv C h st1"
      "mem_content C h st1 = (mem_content C h st)((ns, k) \<mapsto> v)"
    using mem_set_law [OF Cons.prems(1), of ns k v] Cons.prems(2) e by auto
  have "\<forall>(ns, k, v) \<in> set es. is_text ns \<and> is_text k \<and> storable C v"
    using Cons.prems(2) by simp
  from Cons.IH [OF st1(2) this] show ?case
    unfolding e set_seq.simps upd_all.simps st1(1,3) bindE_simps .
qed simp


text \<open>Witness of C3: two entries, and a batch with a value that cannot be encoded.\<close>

definition empty_mem :: mem_store where
  "empty_mem = \<lparr>shards = replicate SHARDS [], codec_name = lit ''msgpack'', max_history = Some 0,
     history = [], counter = 1, last_id = None, shard_bytes = replicate SHARDS 0\<rparr>"

lemma empty_mem_new: "mem_new (lit ''memory'') (lit ''msgpack'') (Some 0) = Inr empty_mem"
  by (simp add: mem_new_def empty_mem_def)

lemmas empty_mem_ok = mem_new_ok [OF empty_mem_new]


section \<open>Snapshots\<close>

definition snap_raw :: "(pystr \<Rightarrow> nat) \<Rightarrow> snapshot_data \<Rightarrow> pystr \<times> pystr \<Rightarrow> bytes option" where
  "snap_raw h sn p = nraw (sn_shards sn ! shard_index h (fst p)) p"

definition snap_ok :: "codec \<Rightarrow> (pystr \<Rightarrow> nat) \<Rightarrow> snapshot_data \<Rightarrow> bool" where
  "snap_ok C h sn \<longleftrightarrow> shards_ok C h (sn_shards sn) (sn_shard_bytes sn)"

lemma snap_okD:
  assumes "snap_ok C h sn"
  shows "length (sn_shards sn) = SHARDS" "i < SHARDS \<Longrightarrow> nsmap_ok (sn_shards sn ! i)"
    "i < SHARDS \<Longrightarrow> nraw (sn_shards sn ! i) (ns, k) = Some b \<Longrightarrow> shard_index h ns = i"
  using assms shard_okD [of C h i "sn_shards sn ! i" "sn_shard_bytes sn ! i"]
  unfolding snap_ok_def shards_ok_def by blast+

lemma nraw_in_set:
  assumes "nsmap_ok g"
  shows "nraw g (ns, k) = Some b \<longleftrightarrow> (\<exists>kv. (ns, kv) \<in> set g \<and> (k, b) \<in> set kv)"
proof -
  have d: "dict_ok g" and kv: "\<And>ns kv. (ns, kv) \<in> set g \<Longrightarrow> dict_ok kv"
    using assms by (auto simp: nsmap_ok_def kv_ok_def)
  show ?thesis
  proof
    assume "nraw g (ns, k) = Some b"
    then obtain kv where kv': "dget g ns = Some kv" "dget kv k = Some b"
      by (auto simp: nraw_def split: option.splits)
    then show "\<exists>kv. (ns, kv) \<in> set g \<and> (k, b) \<in> set kv" by (blast dest: dget_in_set)
  next
    assume "\<exists>kv. (ns, kv) \<in> set g \<and> (k, b) \<in> set kv"
    then obtain kv' where e: "(ns, kv') \<in> set g" "(k, b) \<in> set kv'" by blast
    then have "dget g ns = Some kv'" "dget kv' k = Some b"
      using dget_iff_in_set [OF d] dget_iff_in_set [OF kv [OF e(1)]] by blast+
    then show "nraw g (ns, k) = Some b" by (simp add: nraw_def)
  qed
qed

lemma snap_lookup_raw:
  "(case snap_lookup h sn ns of None \<Rightarrow> None | Some kv \<Rightarrow> dget kv k) = snap_raw h sn (ns, k)"
  by (auto simp: snap_lookup_def snap_raw_def nraw_def split: option.splits)

lemma diff_entries_set:
  assumes a: "snap_ok C h a" and b: "snap_ok C h b" and P: "\<And>v. \<not> P v (Some v)"
  shows "set (diff_entries h a b P) = {p. \<exists>v. snap_raw h a p = Some v \<and> P v (snap_raw h b p)}"
    (is "?L = ?R")
proof (rule set_eqI)
  fix p :: "pystr \<times> pystr"
  obtain ns k where p: "p = (ns, k)" by (cases p)
  let ?i = "shard_index h ns"
  have len: "length (sn_shards a) = SHARDS" using snap_okD(1) [OF a] .
  show "p \<in> ?L \<longleftrightarrow> p \<in> ?R"
  proof
    assume "p \<in> ?L"
    then obtain i kv v where i: "i < SHARDS" and kv: "(ns, kv) \<in> set (sn_shards a ! i)"
        and v: "(k, v) \<in> set kv"
        and Pv: "P v (case snap_lookup h b ns of None \<Rightarrow> None | Some o' \<Rightarrow> dget o' k)"
      unfolding diff_entries_def Let_def p len by (auto split: if_splits)
    have r: "nraw (sn_shards a ! i) (ns, k) = Some v"
      using nraw_in_set [OF snap_okD(2) [OF a i]] kv v by blast
    then have "snap_raw h a (ns, k) = Some v"
      using snap_okD(3) [OF a i r] by (simp add: snap_raw_def)
    with Pv show "p \<in> ?R" by (auto simp: p snap_lookup_raw)
  next
    assume "p \<in> ?R"
    then obtain v where v: "snap_raw h a (ns, k) = Some v" and Pv: "P v (snap_raw h b (ns, k))"
      by (auto simp: p)
    have ne: "sn_shards a ! ?i \<noteq> sn_shards b ! ?i" using v Pv P by (auto simp: snap_raw_def)
    obtain kv where kv: "(ns, kv) \<in> set (sn_shards a ! ?i)" "(k, v) \<in> set kv"
      using nraw_in_set [OF snap_okD(2) [OF a shard_index_less]] v by (auto simp: snap_raw_def)
    have "snap_lookup h b ns \<noteq> Some kv"
    proof
      assume s: "snap_lookup h b ns = Some kv"
      have "dict_ok kv"
        using snap_okD(2) [OF a shard_index_less [of h ns]] kv(1) by (auto simp: nsmap_ok_def kv_ok_def)
      then have "dget kv k = Some v" using kv(2) by (simp add: dget_iff_in_set)
      then have "snap_raw h b (ns, k) = Some v" using s snap_lookup_raw [where h = h and sn = b and ns = ns and k = k] by simp
      with Pv P show False by simp
    qed
    then have "(ns, k) \<in> set ((\<lambda>(ns, kv). let other = snap_lookup h b ns in
              if other = Some kv then []
              else map (\<lambda>(k, v). (ns, k))
                     (filter (\<lambda>(k, v). P v (case other of None \<Rightarrow> None | Some o' \<Rightarrow> dget o' k)) kv)) (ns, kv))"
      using kv(2) Pv by (force simp: Let_def snap_lookup_raw)
    with kv(1) ne show "p \<in> ?L"
      unfolding diff_entries_def p len Let_def [of "sn_shards a ! _"]
      using shard_index_less [of h ns] by (fastforce simp del: shard_index_less)
  qed
qed

lemma snap_diff_laws:
  assumes "snap_ok C h self" "snap_ok C h base"
  shows "set (diff_added (snap_diff_of h self base)) = dom (snap_raw h self) - dom (snap_raw h base)"
    "set (diff_removed (snap_diff_of h self base)) = dom (snap_raw h base) - dom (snap_raw h self)"
    "set (diff_changed (snap_diff_of h self base)) =
      {p \<in> dom (snap_raw h self) \<inter> dom (snap_raw h base). snap_raw h self p \<noteq> snap_raw h base p}"
  unfolding snap_diff_of_def snap_diff.simps
    diff_entries_set [OF assms, where P = "\<lambda>v o'. o' = None", simplified]
    diff_entries_set [OF assms(2,1), where P = "\<lambda>v o'. o' = None", simplified]
    diff_entries_set [OF assms, where P = "\<lambda>v o'. case o' of None \<Rightarrow> False | Some bv \<Rightarrow> bv \<noteq> v", simplified]
  by (auto split: option.splits)

interpretation mem_snap: snapshot_like "snap_raw h" "snap_ok C h" "snap_diff_of h"
  for C :: codec and h :: "pystr \<Rightarrow> nat"
  by unfold_locales (fact snap_diff_laws)+

text \<open>
  C4. \<open>Snapshot.diff\<close> is exact, although it skips shards and namespaces that the two snapshots
  share: between any two consistent snapshots it lists as added, removed and changed precisely the
  entries that only the newer one has, that only the base has, and whose stored bytes differ; so it
  is empty exactly when the snapshots show the same entries, and the reverse diff swaps added and
  removed.
\<close>

theorem snap_diff_exact:
  assumes "snap_ok C h self" "snap_ok C h base"
  shows "set (diff_added (snap_diff_of h self base)) = dom (snap_raw h self) - dom (snap_raw h base) \<and>
    set (diff_removed (snap_diff_of h self base)) = dom (snap_raw h base) - dom (snap_raw h self) \<and>
    set (diff_changed (snap_diff_of h self base)) =
      {p \<in> dom (snap_raw h self) \<inter> dom (snap_raw h base). snap_raw h self p \<noteq> snap_raw h base p} \<and>
    (snap_diff_of h self base = \<lparr>diff_added = [], diff_removed = [], diff_changed = []\<rparr> \<longleftrightarrow>
      snap_raw h self = snap_raw h base) \<and>
    set (diff_added (snap_diff_of h base self)) = set (diff_removed (snap_diff_of h self base))"
  using snap_diff_laws [OF assms] mem_snap.diff_empty_iff [OF assms] mem_snap.diff_reverse(1) [OF assms]
  by (cases "snap_diff_of h self base") simp

section \<open>Restore and history\<close>

lemma snapshot_of:
  assumes "mem_snapshot now st = (sn, st1)"
  shows "sn_shards sn = shards st" "sn_shard_bytes sn = shard_bytes st"
    "sn_size_bytes sn = sum_list (shard_bytes st)" "shards st1 = shards st"
    "shard_bytes st1 = shard_bytes st"
  using assms by (auto simp: mem_snapshot_def Let_def)

lemma snapshot_ok: "mem_inv C h st \<Longrightarrow> mem_snapshot now st = (sn, st1) \<Longrightarrow> snap_ok C h sn"
  by (simp add: snap_ok_def mem_inv_def snapshot_of)

lemma snapshot_inv: "mem_inv C h st \<Longrightarrow> mem_snapshot now st = (sn, st1) \<Longrightarrow> mem_inv C h st1"
  by (simp add: mem_inv_def snapshot_of)

lemma restore_inv: "snap_ok C h sn \<Longrightarrow> mem_inv C h (mem_restore st sn)"
  by (simp add: snap_ok_def mem_inv_def mem_restore_def)

text \<open>Witness of C4: one entry added, one removed and one changed between two snapshots.\<close>

theorem snap_diff_exact_witness:
  "\<exists>st1 st2 a b. do_wops (mem_ops flag_codec sum_list)
       [WSet [97] [98] PNone, WSet [97] [99] PNone] empty_mem = Inr st1 \<and>
     do_wops (mem_ops flag_codec sum_list) [WSet [97] [98] (PBool True)] st1 = Inr st2 \<and>
     fst (mem_snapshot 0 st1) = a \<and> fst (mem_snapshot 1 st2) = b \<and>
     set (diff_changed (snap_diff_of sum_list b a)) =
      {p \<in> dom (snap_raw sum_list b) \<inter> dom (snap_raw sum_list a). snap_raw sum_list b p \<noteq> snap_raw sum_list a p}"
proof -
  let ?ops = "mem_ops flag_codec sum_list"
  obtain st1 where st1: "do_wops ?ops [WSet [97] [98] PNone, WSet [97] [99] PNone] empty_mem = Inr st1"
      "mem_inv flag_codec sum_list st1"
    using mem.do_wops_law [OF empty_mem_ok(1) mem_has_batch,
        of "[WSet [97] [98] PNone, WSet [97] [99] PNone]" flag_codec sum_list]
    by (auto simp: scalar_def)
  obtain st2 where st2: "do_wops ?ops [WSet [97] [98] (PBool True)] st1 = Inr st2"
      "mem_inv flag_codec sum_list st2"
    using mem.do_wops_law [OF st1(2) mem_has_batch, of "[WSet [97] [98] (PBool True)]"]
    by (auto simp: scalar_def)
  from snap_diff_exact [OF snapshot_ok [OF st2(2) surjective_pairing]
      snapshot_ok [OF st1(2) surjective_pairing], of 1 0] st1(1) st2(1)
  show ?thesis by blast
qed

text \<open>
  C5. A snapshot is a point-in-time view that later work cannot disturb: after any run of
  operations, restoring it brings back exactly the entries, the length and the byte counters of the
  moment it was taken, the store is consistent again, and the difference between a snapshot taken
  then and the original one is empty. The ids handed out and the retained history are kept.
\<close>

theorem mem_restore_exact:
  assumes "mem_inv C h st" "mem_snapshot now st = (sn, st1)"
    "do_wops (mem_ops C h) ws st1 = Inr st2"
  defines "st3 \<equiv> mem_restore st2 sn"
  shows "mem_inv C h st3 \<and> mem_content C h st3 = mem_content C h st \<and> mem_len st3 = mem_len st \<and>
    shard_bytes st3 = shard_bytes st \<and> sn_size_bytes sn = of_nat (mem_bytes st3) \<and>
    snap_diff_of h (fst (mem_snapshot now' st3)) sn = \<lparr>diff_added = [], diff_removed = [], diff_changed = []\<rparr> \<and>
    history st3 = history st2 \<and> counter st3 = counter st2"
proof -
  have ok: "snap_ok C h sn" using snapshot_ok assms(1,2) by blast
  have i: "mem_inv C h st3" unfolding st3_def using ok by (rule restore_inv)
  have sh: "shards st3 = shards st" "shard_bytes st3 = shard_bytes st"
    by (simp_all add: st3_def mem_restore_def snapshot_of [OF assms(2)])
  obtain sn' st4 where sn': "mem_snapshot now' st3 = (sn', st4)" by fastforce
  have "sn_shards sn' = sn_shards sn" using snapshot_of [OF sn'] snapshot_of [OF assms(2)] sh by simp
  then have "snap_diff_of h sn' sn = \<lparr>diff_added = [], diff_removed = [], diff_changed = []\<rparr>"
    by (simp add: snap_diff_of_def diff_entries_def)
  moreover have "sn_size_bytes sn = of_nat (mem_bytes st3)"
    using mem_bytes_exact [OF i] sh snapshot_of [OF assms(2)] by simp
  ultimately show ?thesis
    using i sh sn' by (auto simp: mem_content_def mem_raw_def mem_len_def fun_eq_iff st3_def mem_restore_def)
qed

text \<open>Witness of C5: an entry stored after the snapshot is gone after the restore.\<close>

theorem mem_restore_exact_witness:
  "\<exists>st2. do_wops (mem_ops flag_codec sum_list) [WSet [97] [98] PNone]
       (snd (mem_snapshot 0 empty_mem)) = Inr st2 \<and>
     mem_content flag_codec sum_list st2 \<noteq> Map.empty \<and>
     mem_content flag_codec sum_list (mem_restore st2 (fst (mem_snapshot 0 empty_mem))) = Map.empty"
proof -
  let ?st1 = "snd (mem_snapshot 0 empty_mem)"
  have i: "mem_inv flag_codec sum_list ?st1"
    using snapshot_inv [OF empty_mem_ok(1) surjective_pairing] .
  obtain st2 where st2: "do_wops (mem_ops flag_codec sum_list) [WSet [97] [98] PNone] ?st1 = Inr st2"
      "mem_content flag_codec sum_list st2 =
       fold spec_wop [WSet [97] [98] PNone] (mem_content flag_codec sum_list ?st1)"
    using mem.do_wops_law [OF i mem_has_batch, of "[WSet [97] [98] PNone]"] by (auto simp: scalar_def)
  then have "mem_content flag_codec sum_list st2 \<noteq> Map.empty" by (simp add: fun_eq_iff) blast
  with st2(1) mem_restore_exact [OF empty_mem_ok(1) surjective_pairing st2(1)] empty_mem_ok(2)
  show ?thesis by auto
qed

text \<open>The steps of a store with snapshots, and the stores they reach.\<close>

inductive mem_step :: "codec \<Rightarrow> (pystr \<Rightarrow> nat) \<Rightarrow> mem_store \<Rightarrow> mem_store \<Rightarrow> bool" for C h where
  "wop_ok is_text (storable C) w \<Longrightarrow> do_wop (mem_ops C h) w st = Inr st' \<Longrightarrow> mem_step C h st st'"
| "mem_step C h st (snd (mem_snapshot now st))"
| "sn \<in> set (history st) \<Longrightarrow> mem_step C h st (mem_restore st sn)"
| "mem_step C h st (mem_clear_history st)"

inductive mem_reachable :: "codec \<Rightarrow> (pystr \<Rightarrow> nat) \<Rightarrow> nat option \<Rightarrow> mem_store \<Rightarrow> bool"
  for C h mh where
  "mem_new backend cname mh = Inr st \<Longrightarrow> mem_reachable C h mh st"
| "mem_reachable C h mh st \<Longrightarrow> mem_step C h st st' \<Longrightarrow> mem_reachable C h mh st'"

definition hist_bound :: "nat option \<Rightarrow> nat \<Rightarrow> bool" where
  "hist_bound mh n \<longleftrightarrow> (case mh of None \<Rightarrow> True | Some m \<Rightarrow> n \<le> m)"

definition hist_ids :: "mem_store \<Rightarrow> bool" where
  "hist_ids st \<longleftrightarrow> (\<forall>i < length (history st).
     sn_id (history st ! i) = counter st - of_nat (length (history st) - i))"

definition hist_inv :: "codec \<Rightarrow> (pystr \<Rightarrow> nat) \<Rightarrow> nat option \<Rightarrow> mem_store \<Rightarrow> bool" where
  "hist_inv C h mh st \<longleftrightarrow> mem_inv C h st \<and> max_history st = mh \<and>
     (\<forall>sn \<in> set (history st). snap_ok C h sn) \<and> hist_bound mh (length (history st)) \<and> hist_ids st"

text \<open>The operations on entries leave the snapshot bookkeeping alone.\<close>

definition same_meta :: "mem_store \<Rightarrow> mem_store \<Rightarrow> bool" where
  "same_meta st st' \<longleftrightarrow> history st' = history st \<and> counter st' = counter st \<and>
     max_history st' = max_history st"

lemma same_meta_upd [simp]: "same_meta st (st\<lparr>shards := a, shard_bytes := b\<rparr>)" "same_meta st st"
  by (simp_all add: same_meta_def)

lemma fold_set_bucket_meta:
  "same_meta st (fold (\<lambda>i st. mem_set_bucket i (bs ! i) st) is st)"
proof (induction "is" arbitrary: st)
  case (Cons i "is")
  have "same_meta st (mem_set_bucket i (bs ! i) st)"
    by (auto simp: mem_set_bucket_def Let_def split: prod.splits)
  with Cons [of "mem_set_bucket i (bs ! i) st"] show ?case by (simp add: same_meta_def)
qed simp

lemma fold_delete_bucket_meta:
  "same_meta (snd x) (snd (fold (\<lambda>i. mem_delete_bucket i (bs ! i)) is x))"
proof (induction "is" arbitrary: x)
  case (Cons i "is")
  have "same_meta (snd x) (snd (mem_delete_bucket i (bs ! i) x))"
    by (auto simp: mem_delete_bucket_def Let_def split: prod.splits)
  with Cons [of "mem_delete_bucket i (bs ! i) x"] show ?case by (simp add: same_meta_def)
qed simp

lemma do_wop_meta: "do_wop (mem_ops C h) w st = Inr st' \<Longrightarrow> same_meta st st'"
proof (cases w)
  case (WSet ns k v)
  then show "do_wop (mem_ops C h) w st = Inr st' \<Longrightarrow> same_meta st st'"
    by (auto simp: mem_ops_def mem_set_def bindE_eq_Inr Let_def case_prod_unfold split: if_splits)
next
  case (WSetMany es)
  then show "do_wop (mem_ops C h) w st = Inr st' \<Longrightarrow> same_meta st st'"
    by (auto simp: mem_ops_def mem_set_many_def bindE_eq_Inr Let_def fold_set_bucket_meta split: if_splits)
next
  case (WDelete ns k)
  then show "do_wop (mem_ops C h) w st = Inr st' \<Longrightarrow> same_meta st st'"
    by (auto simp: mem_ops_def mem_delete_def Let_def case_prod_unfold split: option.splits)
next
  case (WDeleteMany ps)
  then show "do_wop (mem_ops C h) w st = Inr st' \<Longrightarrow> same_meta st st'"
    using fold_delete_bucket_meta [of "(0, st)"]
    by (auto simp: mem_ops_def mem_delete_many_def Let_def)
next
  case (WDeleteNamespace ns)
  then show "do_wop (mem_ops C h) w st = Inr st' \<Longrightarrow> same_meta st st'"
    by (auto simp: mem_ops_def mem_delete_namespace_def Let_def split: option.splits)
next
  case WClear
  then show "do_wop (mem_ops C h) w st = Inr st' \<Longrightarrow> same_meta st st'"
    by (auto simp: mem_ops_def mem_clear_def)
qed

lemma hist_inv_snapshot:
  assumes "hist_inv C h mh st"
  shows "hist_inv C h mh (snd (mem_snapshot now st))"
proof -
  obtain sn st1 where sn: "mem_snapshot now st = (sn, st1)" by fastforce
  have ok: "snap_ok C h sn" "mem_inv C h st1"
    using assms sn snapshot_ok snapshot_inv by (auto simp: hist_inv_def)
  have c: "counter st1 = counter st + 1" "max_history st1 = max_history st" "sn_id sn = counter st"
    using sn by (auto simp: mem_snapshot_def Let_def)
  have "\<exists>n. history st1 = drop n (history st @ [sn])"
  proof (cases mh)
    case None
    with sn assms have "history st1 = drop 0 (history st @ [sn])"
      by (auto simp: mem_snapshot_def Let_def hist_inv_def)
    then show ?thesis by blast
  next
    case (Some m)
    with sn assms have "history st1 = drop (length (history st @ [sn]) - m) (history st @ [sn])"
      by (auto simp: mem_snapshot_def Let_def hist_inv_def hist_bound_def)
    then show ?thesis by blast
  qed
  moreover have b: "hist_bound mh (length (history st1))"
    using sn assms by (auto simp: mem_snapshot_def Let_def hist_inv_def hist_bound_def split: option.splits)
  ultimately obtain n where n: "history st1 = drop n (history st @ [sn])" by blast
  have "hist_ids st1"
    unfolding hist_ids_def
  proof (intro allI impI)
    fix i assume i: "i < length (history st1)"
    let ?j = "n + i"
    have j: "?j \<le> length (history st)" and l: "length (history st1) - i = Suc (length (history st)) - ?j"
      using i n by auto
    have nth: "history st1 ! i = (history st @ [sn]) ! ?j"
      unfolding n using j by (intro nth_drop) simp
    have "sn_id ((history st @ [sn]) ! ?j) = counter st - of_nat (length (history st) - ?j)"
      using assms j c(3) by (cases "?j = length (history st)") (auto simp: hist_inv_def hist_ids_def nth_append)
    moreover have "of_nat (Suc (length (history st)) - ?j) = (of_nat (length (history st) - ?j) :: 64 word) + 1"
      using j by (simp add: Suc_diff_le)
    ultimately show "sn_id (history st1 ! i) = counter st1 - of_nat (length (history st1) - i)"
      unfolding nth l c(1) by simp
  qed
  with ok b c assms n show ?thesis
    by (auto simp: sn hist_inv_def dest!: in_set_dropD)
qed

lemma hist_inv_step:
  assumes "mem_step C h st st'" "hist_inv C h mh st"
  shows "hist_inv C h mh st'"
  using assms
proof (cases rule: mem_step.cases)
  case (1 w)
  then have "mem_inv C h st'"
    using mem.do_wop_law [OF _ mem_has_batch, of C h st w] assms(2) by (auto simp: hist_inv_def)
  with do_wop_meta [OF 1(2)] assms(2) show ?thesis
    by (simp add: hist_inv_def same_meta_def hist_ids_def)
next
  case (2 now)
  with hist_inv_snapshot [OF assms(2)] show ?thesis by simp
next
  case (3 sn)
  with assms(2) restore_inv [of C h sn st] show ?thesis
    by (simp add: hist_inv_def hist_ids_def mem_restore_def)
next
  case 4
  with assms(2) show ?thesis
    by (auto simp: hist_inv_def hist_ids_def hist_bound_def mem_clear_history_def mem_inv_def
        split: option.splits)
qed

text \<open>
  C6. The snapshot history: in every store reachable from a new one by storing, deleting,
  snapshotting, restoring retained snapshots and clearing the history, at most \<open>max_history\<close>
  snapshots are retained, they carry the consecutive ids handed out last (so they are the most
  recent ones, oldest first), and every one of them restores to a consistent store.
\<close>

theorem mem_history_bounded:
  assumes "mem_reachable C h mh st"
  shows "(\<forall>m. mh = Some m \<longrightarrow> length (history st) \<le> m) \<and>
    (\<forall>i < length (history st).
       sn_id (history st ! i) = counter st - of_nat (length (history st) - i)) \<and>
    (\<forall>sn \<in> set (history st). mem_inv C h (mem_restore st sn))"
proof -
  have "hist_inv C h mh st" using assms
  proof (induction rule: mem_reachable.induct)
    case (1 backend cname st)
    then have "history st = []" "max_history st = mh"
      by (auto simp: mem_new_def split: if_splits)
    with mem_new_ok(1) [OF 1] show ?case
      by (auto simp: hist_inv_def hist_bound_def hist_ids_def split: option.splits)
  next
    case (2 st st')
    then show ?case using hist_inv_step by blast
  qed
  then show ?thesis
    by (auto simp: hist_inv_def hist_bound_def hist_ids_def intro: restore_inv split: option.splits)
qed

text \<open>Witness of C6: a store that keeps one snapshot, after two of them.\<close>

theorem mem_history_bounded_witness:
  "\<exists>st0 st. mem_new (lit ''memory'') (lit ''msgpack'') (Some 1) = Inr st0 \<and>
     st = snd (mem_snapshot 1 (snd (mem_snapshot 0 st0))) \<and>
     length (history st) \<le> 1 \<and> map sn_id (history st) = [2]"
proof -
  define st0 where "st0 = empty_mem\<lparr>max_history := Some 1\<rparr>"
  have st0: "mem_new (lit ''memory'') (lit ''msgpack'') (Some 1) = Inr st0"
    by (simp add: mem_new_def st0_def empty_mem_def)
  let ?st = "snd (mem_snapshot 1 (snd (mem_snapshot 0 st0)))"
  have "map sn_id (history ?st) = [2]"
    by (simp add: st0_def empty_mem_def mem_snapshot_def Let_def)
  moreover have r: "mem_reachable flag_codec sum_list (Some 1) ?st"
    by (rule mem_reachable.intros(2) [OF mem_reachable.intros(2)
          [OF mem_reachable.intros(1) [OF st0] mem_step.intros(2)] mem_step.intros(2)])
  have "length (history ?st) \<le> 1"
    using mem_history_bounded [OF r, THEN conjunct1, rule_format, OF refl] .
  ultimately show ?thesis using st0 by (intro exI conjI) (assumption | rule refl)+
qed

end
