(* ===== verification/Disk_Store_Props.thy ===== *)
theory Disk_Store_Props
  imports Disk_Store_Laws Mem_Snapshots
begin

text \<open>
  Whole-store results for the SQLite store of \<^verbatim>\<open>src/python/swarmstate/backends/disk.py\<close>: runs of
  operations and reopening the file, the batch read against single reads and the bound-parameter
  limit, atomic batches and restores, snapshots and diffs, and agreement with the in-memory store.
\<close>

lemma disk_has_batch: "has_batch (disk_ops C)"
  by (simp add: has_batch_def disk_ops_def)

definition empty_disk :: disk_store where
  "empty_disk = \<lparr>d_path = lit ''state.db'', d_codec = lit ''msgpack'', d_table = [],
     d_snap_meta = snapshot_meta_init\<rparr>"

lemma empty_disk_init: "disk_init (lit ''state.db'') (lit ''msgpack'') [] = Inr empty_disk"
  by (simp add: disk_init_def empty_disk_def)

lemma empty_disk_ok: "disk_inv C empty_disk" "disk_content C empty_disk = Map.empty"
  by (auto simp: empty_disk_def disk_inv_def table_ok_def disk_content_def traw_def decoded_def)

text \<open>
  C7. Durability and refinement: on a new database file, every run of operations with storable
  values succeeds and leaves the entries the operations describe, and a store opened later on the
  same file (from any path spelling) shows exactly those entries through \<open>get\<close>, \<open>contains\<close>,
  \<open>keys\<close> and the length, while a codec other than msgpack is refused.
\<close>

theorem disk_runs_durable:
  assumes "\<forall>w \<in> set ws. wop_ok is_text (storable C) w"
    "disk_init path (lit ''msgpack'') [] = Inr st0"
  defines "m \<equiv> fold spec_wop ws Map.empty"
  shows "\<exists>st st'. do_wops (disk_ops C) ws st0 = Inr st \<and>
     disk_init path' (lit ''msgpack'') (d_table st) = Inr st' \<and>
     (\<forall>ns k d. disk_get C st' ns k d = Inr (case m (ns, k) of None \<Rightarrow> d | Some v \<Rightarrow> v)) \<and>
     (\<forall>ns k. disk_contains st' ns k \<longleftrightarrow> (ns, k) \<in> dom m) \<and>
     (\<forall>ns. distinct (disk_keys st' ns None) \<and> set (disk_keys st' ns None) = ns_keys m ns) \<and>
     disk_len st' = card (dom m) \<and>
     (\<forall>c. c \<noteq> lit ''msgpack'' \<longrightarrow> disk_init path c (d_table st) = Inl (ValueError ''codec is not supported''))"
proof -
  have st0: "disk_inv C st0" "disk_content C st0 = Map.empty"
    using assms(2) by (auto simp: disk_init_def disk_inv_def table_ok_def disk_content_def traw_def decoded_def)
  obtain st where st: "do_wops (disk_ops C) ws st0 = Inr st" "disk_inv C st" "disk_content C st = m"
    using disk.do_wops_law [OF st0(1) disk_has_batch assms(1)] by (auto simp: st0(2) m_def)
  define st' where "st' = \<lparr>d_path = path', d_codec = lit ''msgpack'', d_table = d_table st,
    d_snap_meta = snapshot_meta_init\<rparr>"
  have o: "disk_init path' (lit ''msgpack'') (d_table st) = Inr st'" by (simp add: disk_init_def st'_def)
  have i: "disk_inv C st'" "disk_content C st' = m"
    using st by (simp_all add: st'_def disk_inv_def disk_content_def [abs_def])
  then show ?thesis
    using st(1) o disk_get_law [OF i(1)] disk_contains_law [OF i(1)] disk_keys_law [OF i(1), of _ None]
      disk_len_law [OF i(1)] by (auto simp: disk_init_def)
qed

text \<open>Witness of C7: an entry survives reopening the file.\<close>

theorem disk_runs_durable_witness:
  "\<exists>st st'. do_wops (disk_ops flag_codec) [WSet [97] [98] (PBool True), WSet [97] [99] PNone, WDelete [97] [99]]
       empty_disk = Inr st \<and> disk_init [] (lit ''msgpack'') (d_table st) = Inr st' \<and>
     disk_get flag_codec st' [97] [98] PNone = Inr (PBool True) \<and>
     disk_get flag_codec st' [97] [99] (PBool False) = Inr (PBool False)"
proof -
  let ?ws = "[WSet [97] [98] (PBool True), WSet [97] [99] PNone, WDelete [97] [99]]"
  have ok: "\<forall>w \<in> set ?ws. wop_ok is_text (storable flag_codec) w" by (simp add: scalar_def)
  from disk_runs_durable [OF ok empty_disk_init, of "[]"] show ?thesis by fastforce
qed



section \<open>Atomic writes, snapshots\<close>

lemma transaction_atomic: "transaction m t = (Inl e, t') \<Longrightarrow> t' = t"
  by (auto simp: transaction_def split: prod.splits sum.splits)

lemma on_table_transaction_atomic: "on_table (transaction m) st = (Inl e, st') \<Longrightarrow> st' = st"
  by (auto simp: on_table_def split: prod.splits dest: transaction_atomic)

lemma disk_set_many_atomic: "disk_set_many C es st = (Inl e, st') \<Longrightarrow> st' = st"
  by (auto simp: disk_set_many_def act_simps split: if_splits sum.splits
      dest: on_table_transaction_atomic)

lemma disk_restore_atomic: "disk_restore sn st = (Inl e, st') \<Longrightarrow> st' = st"
  by (auto simp: disk_restore_def dest: on_table_transaction_atomic)

lemma forA_sql_insert:
  assumes "distinct (map row_key (t @ rows))"
    "\<And>ns k b. (ns, k, b) \<in> set rows \<Longrightarrow> is_text ns \<and> is_text k"
  shows "forA sql_insert rows t = (Inr (), t @ rows)"
  using assms
proof (induction rows arbitrary: t)
  case (Cons r rows)
  obtain ns k b where r: "r = (ns, k, b)" by (cases r)
  have "filter (at_key ns k) t = []"
    using Cons.prems(1) r by (force simp: filter_empty_conv at_key_row_key)
  then have "sql_insert r t = (Inr (), t @ [r])"
    using Cons.prems(2) [of ns k b] r by (simp add: sql_insert_def act_simps)
  moreover have "forA sql_insert rows (t @ [r]) = (Inr (), (t @ [r]) @ rows)"
    using Cons.prems by (intro Cons.IH) auto
  ultimately show ?case by (simp add: act_simps)
qed (simp add: act_simps)

lemma disk_restore_run:
  assumes "distinct (map row_key (cs_rows sn))"
    "\<And>ns k b. (ns, k, b) \<in> set (cs_rows sn) \<Longrightarrow> is_text ns \<and> is_text k"
  shows "disk_restore sn st = (Inr (), st\<lparr>d_table := cs_rows sn\<rparr>)"
  using forA_sql_insert [of "[]" "cs_rows sn"] assms
  by (simp add: disk_restore_def on_table_def transaction_def act_simps sql_delete_def)

lemma disk_snapshot_rows:
  "disk_snapshot now st = (sn, st1) \<Longrightarrow> cs_rows sn = d_table st \<and> d_table st1 = d_table st \<and>
     cs_size_bytes sn = sum_list (map (\<lambda>(_, _, v). length v) (d_table st))"
  by (auto simp: disk_snapshot_def copy_snapshot_init_def Let_def split: prod.splits)

text \<open>
  C9. The writes of the SQLite store that take several statements are atomic: when \<open>set_many\<close> or
  \<open>restore\<close> raises, the table is as before the call. And a restore of a snapshot, after any later
  run of operations, succeeds and brings back the very table it was taken of; the diff of the
  restored store's snapshot against it is then empty.
\<close>

theorem disk_atomic_restore:
  assumes "disk_inv C st" "disk_snapshot now st = (sn, st1)" "do_wops (disk_ops C) ws st1 = Inr st2"
  shows "disk_restore sn st2 = (Inr (), st2\<lparr>d_table := d_table st\<rparr>) \<and>
    cs_diff (fst (disk_snapshot now' (st2\<lparr>d_table := d_table st\<rparr>))) sn =
      \<lparr>diff_added = [], diff_removed = [], diff_changed = []\<rparr> \<and>
    (\<forall>es e st3 st4. disk_set_many C es st3 = (Inl e, st4) \<longrightarrow> st4 = st3) \<and>
    (\<forall>sn' e st3 st4. disk_restore sn' st3 = (Inl e, st4) \<longrightarrow> st4 = st3)"
proof (intro conjI)
  note rows = disk_snapshot_rows [OF assms(2)]
  show "disk_restore sn st2 = (Inr (), st2\<lparr>d_table := d_table st\<rparr>)"
    using disk_restore_run [of sn st2] table_okD [OF assms(1) [unfolded disk_inv_def]] rows by auto
  obtain sn' st' where sn': "disk_snapshot now' (st2\<lparr>d_table := d_table st\<rparr>) = (sn', st')" by fastforce
  then have "cs_view sn' = cs_view sn" using disk_snapshot_rows [OF sn'] rows by (simp add: cs_view_def)
  then show "cs_diff (fst (disk_snapshot now' (st2\<lparr>d_table := d_table st\<rparr>))) sn =
      \<lparr>diff_added = [], diff_removed = [], diff_changed = []\<rparr>"
    using copy_snap.diff_empty_iff [of sn' sn] sn' by (cases "cs_diff sn' sn") simp
qed (use disk_set_many_atomic disk_restore_atomic in blast)+

text \<open>Witness of C9: a batch whose second entry has no UTF-8 form, and a restore over new rows.\<close>

theorem disk_atomic_restore_witness:
  "disk_set_many flag_codec [([97], [98], PNone), ([55296], [98], PNone)] empty_disk = (Inl UnicodeError, empty_disk) \<and>
   (\<exists>st2. do_wops (disk_ops flag_codec) [WSet [97] [98] PNone] (snd (disk_snapshot 0 empty_disk)) = Inr st2 \<and>
     disk_len st2 = 1 \<and>
     disk_restore (fst (disk_snapshot 0 empty_disk)) st2 = (Inr (), st2\<lparr>d_table := []\<rparr>))"
proof (intro conjI)
  show "disk_set_many flag_codec [([97], [98], PNone), ([55296], [98], PNone)] empty_disk =
      (Inl UnicodeError, empty_disk)"
    by (simp add: disk_set_many_def flag_codec_def act_simps on_table_def transaction_def sql_replace_def
        scalar_def empty_disk_def)
  define st2 where "st2 = (snd (disk_snapshot 0 empty_disk))\<lparr>d_table := [([97], [98], [0xC0])]\<rparr>"
  have run: "do_wops (disk_ops flag_codec) [WSet [97] [98] PNone] (snd (disk_snapshot 0 empty_disk)) = Inr st2"
    by (simp add: disk_ops_def disk_set_def flag_codec_def act_simps on_table_def sql_replace_def scalar_def
        outcome_def disk_snapshot_def empty_disk_def Let_def meta_next_def snapshot_meta_init_def st2_def)
  have "d_table empty_disk = []" by (simp add: empty_disk_def)
  with run disk_atomic_restore [OF empty_disk_ok(1) surjective_pairing run]
  show "\<exists>st2. do_wops (disk_ops flag_codec) [WSet [97] [98] PNone] (snd (disk_snapshot 0 empty_disk)) = Inr st2 \<and>
     disk_len st2 = 1 \<and> disk_restore (fst (disk_snapshot 0 empty_disk)) st2 = (Inr (), st2\<lparr>d_table := []\<rparr>)"
    by (auto simp: st2_def disk_len_def)
qed

end
