(* ===== verification/Saver_Props.thy ===== *)
theory Saver_Props
  imports Saver_Writes Disk_Store_Props
begin

text \<open>
  Properties of the checkpointer on the bundled stores: storing and reading back checkpoints, the
  latest-checkpoint pointer, and pending writes. The in-memory store exercises the pointer kept in
  the store, the SQLite store the indexed \<open>max_key\<close>.
\<close>

interpretation mem_saver: saver_lib "mem_ops C h" "mem_inv C h" "mem_content C h" is_text "storable C" E
  for C :: codec and h :: "pystr \<Rightarrow> nat" and E :: lg_env
  by unfold_locales

interpretation disk_saver: saver_lib "disk_ops C" "disk_inv C" "disk_content C" is_text "storable C" E
  for C :: codec and E :: lg_env
  by unfold_locales

section \<open>Parameters for the witnesses\<close>

text \<open>A serializer that knows the values of a list, by their position in it.\<close>

definition table_env :: "pyval list \<Rightarrow> lg_env" where
  "table_env vs =
     \<lparr>dumps_typed = (\<lambda>v. case index_of v vs of None \<Rightarrow> Inl TypeError | Some i \<Rightarrow> Inr (lit ''t'', replicate i 0)),
      loads_typed = (\<lambda>xs. case xs of [PStr t, PBytes b] \<Rightarrow>
          if length b < length vs then Inr (vs ! length b) else Inl (ValueError ''serde'')
        | _ \<Rightarrow> Inl (ValueError ''serde'')),
      WRITES_IDX_MAP = (\<lambda>ch. if ch = lit ''__error__'' then Some (- 1) else None),
      get_checkpoint_id = (\<lambda>cfg. cfg_id cfg),
      get_checkpoint_metadata = (\<lambda>cfg md. Inr md),
      py_eq = (=), other_str = (\<lambda>_. []), walk_fuel = 100\<rparr>"

lemma table_env_serde: "v \<in> set vs \<Longrightarrow> serde_law (table_env vs) v"
  using index_of_in [of v vs] index_of_nth [of v vs] by (auto simp: serde_law_def table_env_def)

section \<open>Storing and reading back\<close>

lemma put_entries_other:
  "p \<notin> {(ckpt_ns t c, cid), (LATEST_NS, latest_key t c)} \<Longrightarrow>
   upd_all (put_entries sv t c cid rec) m p = m p"
  by (cases p) (auto intro!: upd_all_other simp: put_entries_def split: if_splits)

lemma put_entries_same: "upd_all (put_entries sv t c cid rec) m (ckpt_ns t c, cid) = Some rec"
  by (auto simp: put_entries_def)

lemma put_entries_latest:
  "upd_all (put_entries sv t c cid rec) m (LATEST_NS, latest_key t c) =
     (if publishes sv t c cid then Some (PStr cid) else m (LATEST_NS, latest_key t c))"
  by (simp add: put_entries_def)

lemma put_entries_keys:
  "ns_keys (upd_all (put_entries sv t c cid rec) m) (ckpt_ns t c) = insert cid (ns_keys m (ckpt_ns t c))"
  by (auto simp: put_entries_def ns_keys_def)

lemma writes_rep_cong: "(\<And>k. m (ns, k) = m' (ns, k)) \<Longrightarrow> writes_rep E m ns W \<longleftrightarrow> writes_rep E m' ns W"
  by (simp add: writes_rep_def)

context saver_lib
begin

text \<open>A put without retention, of a checkpoint with its values inline.\<close>

lemma put_whole:
  assumes "inv (sv_store sv)" "\<not> incremental sv" "max_checkpoints_per_thread sv = None"
    and enc: "encode_put E False config cp md nv = Inr (t, c, cid, rec, blobs)"
    and ok: "okt t" "okt c" "okt cid" "okv rec" "okv (PStr cid)"
  obtains s where "inv s" "content s = upd_all (put_entries sv t c cid rec) (content (sv_store sv))"
    "put ops E config cp md nv sv =
      (Inr (mk_config t c (PStr cid)), sv\<lparr>max_seen := put_hints sv t c cid, sv_store := s\<rparr>)"
proof -
  have b: "blobs = []" using encode_put_whole [OF enc] by simp
  obtain s where s: "inv s"
    "content s = upd_all (fresh_blobs (content (sv_store sv)) t c blobs @ put_entries sv t c cid rec) (content (sv_store sv))"
    "put ops E config cp md nv sv =
       thenA (if max_checkpoints_per_thread sv \<noteq> None then prune_thread ops E t c else retA ())
         (retA (mk_config t c (PStr cid))) (sv\<lparr>max_seen := put_hints sv t c cid, sv_store := s\<rparr>)"
    using do_put [OF assms(1), of config cp md nv t c cid rec blobs] enc assms(2) ok b by auto
  with that b assms(3) show ?thesis by (simp add: fresh_blobs_def act_simps)
qed

lemma put_then_get:
  assumes "inv (sv_store sv)" "\<not> incremental sv" "max_checkpoints_per_thread sv = None"
    and enc: "encode_put E False config cp md nv = Inr (t, c, cid, rec, blobs)"
    and ok: "okt t" "okt c" "okt cid" "cid \<noteq> []" "okv rec" "okv (PStr cid)"
    and md: "get_checkpoint_metadata E config md = Inr md'" "serde_law E cp" "serde_law E md'"
    and rd: "cfg_thread_id rcfg = Some t" "cfg_ns rcfg = c" "get_checkpoint_id E rcfg = PStr cid"
    and W: "writes_rep E (content (sv_store sv)) (writes_ns t c cid) W"
  shows "\<exists>sv'. put ops E config cp md nv sv = (Inr (mk_config t c (PStr cid)), sv') \<and> inv (sv_store sv') \<and>
    get_tuple ops E rcfg sv' =
      (Inr (Some \<lparr>t_config = mk_config t c (PStr cid), t_checkpoint = cp, t_metadata = md',
                   t_parent_config = parent_config t c (cfg_id config), t_pending_writes = writes_list W\<rparr>), sv') \<and>
    (\<forall>p. p \<notin> {(ckpt_ns t c, cid), (LATEST_NS, latest_key t c)} \<longrightarrow>
       content (sv_store sv') p = content (sv_store sv) p)"
proof -
  obtain s where s: "inv s" "content s = upd_all (put_entries sv t c cid rec) (content (sv_store sv))"
    "put ops E config cp md nv sv =
      (Inr (mk_config t c (PStr cid)), sv\<lparr>max_seen := put_hints sv t c cid, sv_store := s\<rparr>)"
    using put_whole [OF assms(1-3) enc ok(1-3,5,6)] .
  let ?sv = "sv\<lparr>max_seen := put_hints sv t c cid, sv_store := s\<rparr>"
  have r: "record_of E rec cp md' (cfg_id config)" using encode_put_whole(5) [OF enc] md(1) by simp
  have "resolve ops E rcfg ?sv = (Inr (Some (t, c, cid, rec)), ?sv)"
    using resolve_requested [of ?sv rcfg t cid rec] s rd ok(4)
      record_of_loads(4) [OF r md(2,3)] by (simp add: put_entries_same)
  moreover have "writes_rep E (content s) (writes_ns t c cid) W"
    unfolding s(2) using W by (subst writes_rep_cong [where m' = "content (sv_store sv)"])
      (simp_all add: put_entries_other)
  then have "build_tuple ops E t c cid rec PNone ?sv =
    Inr \<lparr>t_config = mk_config t c (PStr cid), t_checkpoint = cp, t_metadata = md',
         t_parent_config = parent_config t c (cfg_id config), t_pending_writes = writes_list W\<rparr>"
    using build_whole [of ?sv rec cp md' "cfg_id config" t c cid W] s(1) r md assms(2) by simp
  ultimately have "get_tuple ops E rcfg ?sv = (Inr (Some
      \<lparr>t_config = mk_config t c (PStr cid), t_checkpoint = cp, t_metadata = md',
       t_parent_config = parent_config t c (cfg_id config), t_pending_writes = writes_list W\<rparr>), ?sv)"
    by (simp add: get_tuple_def act_simps)
  moreover have "content s p = content (sv_store sv) p" if "p \<notin> {(ckpt_ns t c, cid), (LATEST_NS, latest_key t c)}" for p
    unfolding s(2) using that by (rule put_entries_other)
  ultimately show ?thesis using s by (intro exI [of _ ?sv]) simp
qed

end


text \<open>Example values: two checkpoints of a thread \<open>"a"\<close>, their metadata and their records.\<close>

definition ex_cp :: "pystr \<Rightarrow> pyval" where
  "ex_cp cid = PDict [(PStr (lit ''id''), PStr cid)]"

definition ex_md :: pyval where "ex_md = PDict []"

definition ex_serde :: "pyval list" where "ex_serde = [ex_md, ex_cp [49], ex_cp [50], PBool True]"

definition ex_rec :: "nat \<Rightarrow> pyval \<Rightarrow> pyval" where
  "ex_rec i parent = mk_record (PList [PStr (lit ''t''), PBytes (replicate i 0)]) (PList [PStr (lit ''t''), PBytes []]) parent"

definition ex_env :: lg_env where "ex_env = table_env ex_serde"

definition ex_write :: pyval where
  "ex_write = PList [PStr [120], PStr [99], PList [PStr (lit ''t''), PBytes (replicate 3 0)], PStr []]"

definition ex_codec :: codec where
  "ex_codec = table_codec [PStr [49], PStr [50], ex_rec 1 PNone, ex_rec 2 PNone, ex_rec 2 (PStr [49]), ex_write]"

definition ex_cfg :: "pyval option \<Rightarrow> config" where
  "ex_cfg parent = \<lparr>cfg_thread_id = Some [97], cfg_checkpoint_ns = None, cfg_checkpoint_id = parent, cfg_rest = PNone\<rparr>"

definition ex_saver :: "'s \<Rightarrow> bool \<Rightarrow> 's saver" where
  "ex_saver s indexed = \<lparr>sv_store = s, incremental = False, max_checkpoints_per_thread = None, max_seen = [],
     prune_floor = [], store_takes_prefix = True, store_indexes_max_key = indexed\<rparr>"

lemma ex_storable [simp]:
  "storable ex_codec (PStr [49])" "storable ex_codec (PStr [50])" "storable ex_codec (ex_rec 1 PNone)"
  "storable ex_codec (ex_rec 2 PNone)" "storable ex_codec (ex_rec 2 (PStr [49]))" "storable ex_codec ex_write"
  by (simp_all add: ex_codec_def table_codec_storable)

lemma ex_serde_law [simp]:
  "serde_law ex_env ex_md" "serde_law ex_env (ex_cp [49])" "serde_law ex_env (ex_cp [50])" "serde_law ex_env (PBool True)"
  by (simp_all add: ex_env_def ex_serde_def table_env_serde)

lemma ex_env_simps [simp]:
  "get_checkpoint_id ex_env = cfg_id" "get_checkpoint_metadata ex_env cfg md = Inr md"
  "walk_fuel ex_env = 100"
  by (simp_all add: ex_env_def table_env_def)

lemma ex_encode:
  "encode_put ex_env False (ex_cfg None) (ex_cp [49]) ex_md [] = Inr ([97], [], [49], ex_rec 1 PNone, [])"
  "encode_put ex_env False (ex_cfg None) (ex_cp [50]) ex_md [] = Inr ([97], [], [50], ex_rec 2 PNone, [])"
  "encode_put ex_env False (ex_cfg (Some (PStr [49]))) (ex_cp [50]) ex_md [] = Inr ([97], [], [50], ex_rec 2 (PStr [49]), [])"
  by (simp_all add: encode_put_def ex_cfg_def need_def ex_cp_def dumps_list_def ex_env_def table_env_def
      ex_serde_def ex_md_def cfg_ns_def cfg_id_def ex_rec_def mk_record_def numeral_2_eq_2)

lemma ex_saver_simps [simp]:
  "sv_store (ex_saver s b) = s" "\<not> incremental (ex_saver s b)" "max_checkpoints_per_thread (ex_saver s b) = None"
  "max_seen (ex_saver s b) = []" "store_indexes_max_key (ex_saver s b) = b"
  by (simp_all add: ex_saver_def)

lemma writes_rep_empty: "writes_rep E m ns Map.empty \<longleftrightarrow> (\<forall>k. m (ns, k) = None)"
  by (auto simp: writes_rep_def)

lemma writes_list_empty [simp]: "writes_list Map.empty = []"
  by (simp add: writes_list_def)


section \<open>The latest checkpoint\<close>

text \<open>
  The pointer in the store and the saver's hint agree with the stored ids: the pointer names the
  greatest one, and the hint, if there is one, too.
\<close>

definition latest_inv :: "content \<Rightarrow> (pystr \<times> pystr, pystr) dict \<Rightarrow> pystr \<Rightarrow> pystr \<Rightarrow> bool" where
  "latest_inv m hints t c \<longleftrightarrow> ckpts_ok m t c \<and>
     (let K = ns_keys m (ckpt_ns t c) in
      if K = {} then m (LATEST_NS, latest_key t c) = None \<and> dget hints (t, c) = None
      else m (LATEST_NS, latest_key t c) = Some (PStr (Max K)) \<and> dget hints (t, c) \<in> {None, Some (Max K)})"

lemma latest_inv_sound: "latest_inv m hints t c \<Longrightarrow> finite (dom m) \<Longrightarrow> ptr_sound m t c"
proof -
  assume l: "latest_inv m hints t c" and f: "finite (dom m)"
  show ?thesis
  proof (cases "ns_keys m (ckpt_ns t c) = {}")
    case False
    then have "Max (ns_keys m (ckpt_ns t c)) \<in> ns_keys m (ckpt_ns t c)"
      using finite_ns_keys [OF f] by (intro Max_in)
    with l False show ?thesis by (auto simp: latest_inv_def ptr_sound_def ckpts_ok_def ns_keys_def Let_def)
  qed (use l in \<open>simp add: latest_inv_def ptr_sound_def Let_def\<close>)
qed

lemma Max_insert_max: "finite K \<Longrightarrow> K \<noteq> {} \<Longrightarrow> Max (insert (x :: 'a :: linorder) K) = (if x > Max K then x else Max K)"
  by (metis Max_insert linorder_not_le max_def)

lemma put_latest_inv:
  assumes fin: "finite (dom m)" and l: "latest_inv m (max_seen sv) t c" and idx: "\<not> store_indexes_max_key sv"
    and new: "cid \<noteq> []" "rec \<noteq> PNone"
    and mono: "dget (max_seen sv) (t, c) = None \<Longrightarrow> \<forall>k \<in> ns_keys m (ckpt_ns t c). k \<le> cid"
  defines "m' \<equiv> upd_all (put_entries sv t c cid rec) m"
  shows "latest_inv m' (put_hints sv t c cid) t c"
proof -
  let ?K = "ns_keys m (ckpt_ns t c)"
  have K': "ns_keys m' (ckpt_ns t c) = insert cid ?K" unfolding m'_def by (rule put_entries_keys)
  have ptr: "m' (LATEST_NS, latest_key t c) =
      (if publishes sv t c cid then Some (PStr cid) else m (LATEST_NS, latest_key t c))"
    unfolding m'_def by (rule put_entries_latest)
  have ck: "ckpts_ok m' t c"
    using l new by (auto simp: m'_def latest_inv_def ckpts_ok_def put_entries_def)
  have finK: "finite ?K" by (rule finite_ns_keys [OF fin])
  have "m' (LATEST_NS, latest_key t c) = Some (PStr (Max (insert cid ?K))) \<and>
      dget (put_hints sv t c cid) (t, c) \<in> {None, Some (Max (insert cid ?K))}"
  proof (cases "publishes sv t c cid")
    case True
    have "Max (insert cid ?K) = cid"
    proof (rule Max_eqI)
      fix k assume "k \<in> insert cid ?K"
      then show "k \<le> cid"
        using True mono l Max_ge [OF finK]
        by (cases "?K = {}") (force simp: publishes_def latest_inv_def Let_def split: option.splits)+
    qed (use finK in auto)
    with True show ?thesis using ptr put_hints_seen [OF True] by simp
  next
    case False
    then obtain seen where s: "dget (max_seen sv) (t, c) = Some seen" "cid \<le> seen"
      using idx by (auto simp: publishes_def split: option.splits)
    then have "?K \<noteq> {}" "seen = Max ?K" "m (LATEST_NS, latest_key t c) = Some (PStr (Max ?K))"
      using l by (auto simp: latest_inv_def Let_def split: if_splits)
    with s False show ?thesis using ptr Max_insert_max [OF finK, of cid] by (auto simp: put_hints_def dest: leD)
  qed
  with ck K' show ?thesis by (simp add: latest_inv_def)
qed

context saver_lib
begin

lemma put_then_latest:
  assumes "inv (sv_store sv)" "\<not> incremental sv" "max_checkpoints_per_thread sv = None" "\<not> store_indexes_max_key sv"
    and enc: "encode_put E False config cp md nv = Inr (t, c, cid, rec, blobs)"
    and ok: "okt t" "okt c" "okt cid" "cid \<noteq> []" "okv rec" "okv (PStr cid)"
    and l: "latest_inv (content (sv_store sv)) (max_seen sv) t c"
    and mono: "dget (max_seen sv) (t, c) = None \<Longrightarrow> \<forall>k \<in> ns_keys (content (sv_store sv)) (ckpt_ns t c). k \<le> cid"
    and rd: "cfg_thread_id rcfg = Some t" "cfg_ns rcfg = c" "\<not> truthy (get_checkpoint_id E rcfg)"
  defines "newest \<equiv> Max (insert cid (ns_keys (content (sv_store sv)) (ckpt_ns t c)))"
  shows "\<exists>sv' saved. put ops E config cp md nv sv = (Inr (mk_config t c (PStr cid)), sv') \<and> inv (sv_store sv') \<and>
    latest_inv (content (sv_store sv')) (max_seen sv') t c \<and>
    content (sv_store sv') (ckpt_ns t c, newest) = Some saved \<and>
    resolve ops E rcfg sv' = (Inr (Some (t, c, newest, saved)), sv')"
proof -
  obtain s where s: "inv s" "content s = upd_all (put_entries sv t c cid rec) (content (sv_store sv))"
    "put ops E config cp md nv sv =
      (Inr (mk_config t c (PStr cid)), sv\<lparr>max_seen := put_hints sv t c cid, sv_store := s\<rparr>)"
    using put_whole [OF assms(1-3) enc ok(1-3,5,6)] .
  let ?sv = "sv\<lparr>max_seen := put_hints sv t c cid, sv_store := s\<rparr>"
  have "rec \<noteq> PNone" using encode_put_whole(5) [OF enc] by (auto simp: record_of_def)
  then have l': "latest_inv (content s) (put_hints sv t c cid) t c"
    unfolding s(2) by (rule put_latest_inv [OF finite_law [OF assms(1)] l assms(4) ok(4) _ mono])
  have K: "ns_keys (content s) (ckpt_ns t c) = insert cid (ns_keys (content (sv_store sv)) (ckpt_ns t c))"
    unfolding s(2) by (rule put_entries_keys)
  have "newest = Max (ns_keys (content s) (ckpt_ns t c))" unfolding newest_def K ..
  moreover have "ns_keys (content s) (ckpt_ns t c) \<noteq> {}" unfolding K by (rule insert_not_empty)
  ultimately have "newest \<in> ns_keys (content s) (ckpt_ns t c)"
    using Max_in [OF finite_ns_keys [OF finite_law [OF s(1)]]] by metis
  then obtain saved where saved: "content s (ckpt_ns t c, newest) = Some saved" by (auto simp: ns_keys_def)
  have ne: "newest \<noteq> []" "saved \<noteq> PNone"
    using l' saved by (auto simp: latest_inv_def ckpts_ok_def)
  have "content s (LATEST_NS, latest_key t c) = Some (PStr newest)"
    using l' K by (simp add: latest_inv_def newest_def Let_def)
  with saved ne rd assms(4) s(1) have "resolve ops E rcfg ?sv = (Inr (Some (t, c, newest, saved)), ?sv)"
    by (simp add: resolve_def resolve_latest_def need_def act_simps Let_def)
  with s l' saved show ?thesis by (intro exI [of _ ?sv] exI [of _ saved]) simp
qed

text \<open>A saver with no hint for the thread publishes whatever it puts.\<close>

lemma put_publishes_unhinted:
  assumes "inv (sv_store sv)" "\<not> incremental sv" "max_checkpoints_per_thread sv = None" "\<not> store_indexes_max_key sv"
    and enc: "encode_put E False config cp md nv = Inr (t, c, cid, rec, blobs)"
    and ok: "okt t" "okt c" "okt cid" "cid \<noteq> []" "okv rec" "okv (PStr cid)"
    and hint: "dget (max_seen sv) (t, c) = None"
    and rd: "cfg_thread_id rcfg = Some t" "cfg_ns rcfg = c" "\<not> truthy (get_checkpoint_id E rcfg)"
  shows "\<exists>sv'. put ops E config cp md nv sv = (Inr (mk_config t c (PStr cid)), sv') \<and>
    ns_keys (content (sv_store sv')) (ckpt_ns t c) = insert cid (ns_keys (content (sv_store sv)) (ckpt_ns t c)) \<and>
    resolve ops E rcfg sv' = (Inr (Some (t, c, cid, rec)), sv')"
proof -
  obtain s where s: "inv s" "content s = upd_all (put_entries sv t c cid rec) (content (sv_store sv))"
    "put ops E config cp md nv sv =
      (Inr (mk_config t c (PStr cid)), sv\<lparr>max_seen := put_hints sv t c cid, sv_store := s\<rparr>)"
    using put_whole [OF assms(1-3) enc ok(1-3,5,6)] .
  let ?sv = "sv\<lparr>max_seen := put_hints sv t c cid, sv_store := s\<rparr>"
  have r: "rec \<noteq> PNone" using encode_put_whole(5) [OF enc] by (auto simp: record_of_def)
  have "publishes sv t c cid" using hint assms(4) by (simp add: publishes_def)
  then have "content s (LATEST_NS, latest_key t c) = Some (PStr cid)"
    unfolding s(2) put_entries_latest by simp
  moreover have "content s (ckpt_ns t c, cid) = Some rec" unfolding s(2) by (rule put_entries_same)
  ultimately have "resolve ops E rcfg ?sv = (Inr (Some (t, c, cid, rec)), ?sv)"
    using r ok(4) rd assms(4) s(1) by (simp add: resolve_def resolve_latest_def need_def act_simps Let_def)
  moreover have "ns_keys (content s) (ckpt_ns t c) = insert cid (ns_keys (content (sv_store sv)) (ckpt_ns t c))"
    unfolding s(2) by (rule put_entries_keys)
  ultimately show ?thesis using s by (intro exI [of _ ?sv]) simp
qed

end


text \<open>
  The pointer can move backwards: a saver that has no hint for a thread (a second saver on a
  shared store, a restarted process, or one whose hints were dropped) publishes the id it puts
  even when the store already holds a greater one, and a read without an id then returns the older
  checkpoint.
\<close>

theorem mem_pointer_moves_back:
  assumes "mem_inv C h (sv_store sv)" "\<not> incremental sv" "max_checkpoints_per_thread sv = None"
    "\<not> store_indexes_max_key sv"
    and "encode_put E False config cp md nv = Inr (t, c, cid, rec, blobs)"
    and "is_text t" "is_text c" "is_text cid" "cid \<noteq> []" "storable C rec" "storable C (PStr cid)"
    and "dget (max_seen sv) (t, c) = None"
    and "cfg_thread_id rcfg = Some t" "cfg_ns rcfg = c" "\<not> truthy (get_checkpoint_id E rcfg)"
    and "k \<in> ns_keys (mem_content C h (sv_store sv)) (ckpt_ns t c)" "cid < k"
  shows "\<exists>sv'. put (mem_ops C h) E config cp md nv sv = (Inr (mk_config t c (PStr cid)), sv') \<and>
    k \<in> ns_keys (mem_content C h (sv_store sv')) (ckpt_ns t c) \<and> cid < k \<and>
    resolve (mem_ops C h) E rcfg sv' = (Inr (Some (t, c, cid, rec)), sv')"
  using mem_saver.put_publishes_unhinted [OF assms(1-15)] assms(16,17) by blast

text \<open>The store after the first saver has put checkpoint \<open>"2"\<close>.\<close>

lemma ex_after_two:
  obtains s where "mem_inv ex_codec sum_list s"
    "put (mem_ops ex_codec sum_list) ex_env (ex_cfg None) (ex_cp [50]) ex_md [] (ex_saver empty_mem False) =
      (Inr (mk_config [97] [] (PStr [50])), ex_saver empty_mem False\<lparr>max_seen := [(([97], []), [50])], sv_store := s\<rparr>)"
    "mem_content ex_codec sum_list s = [(ckpt_ns [97] [], [50]) \<mapsto> ex_rec 2 PNone, (LATEST_NS, latest_key [97] []) \<mapsto> PStr [50]]"
proof -
  let ?sv = "ex_saver empty_mem False"
  have i: "mem_inv ex_codec sum_list (sv_store ?sv)" by (simp add: empty_mem_ok)
  have tx: "is_text [97]" "is_text []" "is_text [50]" by simp_all
  have pub: "publishes ?sv [97] [] [50]" by (simp add: publishes_def)
  then have "put_hints ?sv [97] [] [50] = [(([97], []), [50])]"
    by (simp add: put_hints_def bounded_set_def)
  moreover have "upd_all (put_entries ?sv [97] [] [50] (ex_rec 2 PNone)) (mem_content ex_codec sum_list (sv_store ?sv)) =
      [(ckpt_ns [97] [], [50]) \<mapsto> ex_rec 2 PNone, (LATEST_NS, latest_key [97] []) \<mapsto> PStr [50]]"
    using pub by (simp add: put_entries_def empty_mem_ok)
  ultimately show ?thesis
    using mem_saver.put_whole [OF i ex_saver_simps(2,3) ex_encode(2) tx ex_storable(4,2)] that by metis
qed


theorem mem_pointer_moves_back_witness:
  "\<exists>sv1 sv2. put (mem_ops ex_codec sum_list) ex_env (ex_cfg None) (ex_cp [50]) ex_md [] (ex_saver empty_mem False) =
      (Inr (mk_config [97] [] (PStr [50])), sv1) \<and>
    put (mem_ops ex_codec sum_list) ex_env (ex_cfg None) (ex_cp [49]) ex_md [] (ex_saver (sv_store sv1) False) =
      (Inr (mk_config [97] [] (PStr [49])), sv2) \<and>
    resolve (mem_ops ex_codec sum_list) ex_env (ex_cfg None) sv2 =
      (Inr (Some ([97], [], [49], ex_rec 1 PNone)), sv2)"
proof -
  obtain s where s: "mem_inv ex_codec sum_list s"
    "put (mem_ops ex_codec sum_list) ex_env (ex_cfg None) (ex_cp [50]) ex_md [] (ex_saver empty_mem False) =
      (Inr (mk_config [97] [] (PStr [50])), ex_saver empty_mem False\<lparr>max_seen := [(([97], []), [50])], sv_store := s\<rparr>)"
    "mem_content ex_codec sum_list s = [(ckpt_ns [97] [], [50]) \<mapsto> ex_rec 2 PNone, (LATEST_NS, latest_key [97] []) \<mapsto> PStr [50]]"
    using ex_after_two .
  let ?sv = "ex_saver s False"
  have i: "mem_inv ex_codec sum_list (sv_store ?sv)" using s(1) by simp
  have tx: "is_text [97]" "is_text []" "is_text [49]" "[49] \<noteq> ([] :: pystr)" by simp_all
  have rd: "cfg_thread_id (ex_cfg None) = Some [97]" "cfg_ns (ex_cfg None) = []"
    "\<not> truthy (get_checkpoint_id ex_env (ex_cfg None))"
    by (simp_all add: ex_cfg_def cfg_ns_def cfg_id_def)
  have idx: "\<not> store_indexes_max_key ?sv" "dget (max_seen ?sv) ([97], []) = None" by simp_all
  have k: "[50] \<in> ns_keys (mem_content ex_codec sum_list (sv_store ?sv)) (ckpt_ns [97] [])" "[49] < [50 :: nat]"
    by (simp_all add: ns_keys_def s(3))
  show ?thesis
    using mem_pointer_moves_back [OF i ex_saver_simps(2,3) idx(1) ex_encode(1) tx ex_storable(3,1) idx(2) rd k] s(2)
    by auto
qed

section \<open>Pending writes\<close>

context saver_lib
begin

lemma pending_writes_read:
  assumes "inv (sv_store sv)" "writes_rep E (content (sv_store sv)) (writes_ns t c cid) W"
  shows "pending_writes ops E t c cid None sv = Inr (writes_list W)"
  using read_writes [OF assms] by (auto simp: pending_writes_def)

lemma put_writes_twice:
  assumes "inv (sv_store sv)" "cfg_thread_id config = Some t" "cfg_checkpoint_id config = Some (PStr cid)"
    and tx: "okt t" "okt (cfg_ns config)" "okt cid" "okt task"
    and ok: "\<forall>(ch, v) \<in> set ws. serde_law E v \<and> okv (write_row E task (ch, v, path))"
    and rep: "writes_rep E (content (sv_store sv)) (writes_ns t (cfg_ns config) cid) W"
  defines "W' \<equiv> add_writes E task path ws W"
  shows "\<exists>sv1 sv2. put_writes ops E config ws task path sv = (Inr (), sv1) \<and> inv (sv_store sv1) \<and>
    pending_writes ops E t (cfg_ns config) cid None sv1 = Inr (writes_list W') \<and>
    (\<forall>p. fst p \<noteq> writes_ns t (cfg_ns config) cid \<longrightarrow> content (sv_store sv1) p = content (sv_store sv) p) \<and>
    put_writes ops E config ws task path sv1 = (Inr (), sv2) \<and>
    pending_writes ops E t (cfg_ns config) cid None sv2 = Inr (writes_list W')"
proof -
  obtain s1 where s1: "put_writes ops E config ws task path sv = (Inr (), sv\<lparr>sv_store := s1\<rparr>)" "inv s1"
      "writes_rep E (content s1) (writes_ns t (cfg_ns config) cid) W'"
      "\<And>p. fst p \<noteq> writes_ns t (cfg_ns config) cid \<Longrightarrow> content s1 p = content (sv_store sv) p"
    using do_put_writes [OF assms(1-3) tx ok rep] unfolding W'_def by blast
  have i1: "inv (sv_store (sv\<lparr>sv_store := s1\<rparr>))"
      "writes_rep E (content (sv_store (sv\<lparr>sv_store := s1\<rparr>))) (writes_ns t (cfg_ns config) cid) W'"
    using s1 by simp_all
  obtain s2 where s2: "put_writes ops E config ws task path (sv\<lparr>sv_store := s1\<rparr>) = (Inr (), sv\<lparr>sv_store := s1\<rparr>\<lparr>sv_store := s2\<rparr>)"
      "inv s2" "writes_rep E (content s2) (writes_ns t (cfg_ns config) cid) (add_writes E task path ws W')"
    using do_put_writes [OF i1(1) assms(2,3) tx ok i1(2)] by blast
  have w: "add_writes E task path ws W' = W'" unfolding W'_def by (rule add_writes_again)
  show ?thesis
    using s1(1,2,4) s2(1) pending_writes_read [OF i1] pending_writes_read [of "sv\<lparr>sv_store := s2\<rparr>"] s2(2,3) w
    by (intro exI [of _ "sv\<lparr>sv_store := s1\<rparr>"] exI [of _ "sv\<lparr>sv_store := s1\<rparr>\<lparr>sv_store := s2\<rparr>"]) simp
qed

end



end
