(* ===== verification/Saver_Delete.thy ===== *)
theory Saver_Delete
  imports Saver_Props
begin

text \<open>
  Deleting a thread: \<open>delete_thread\<close> removes exactly the thread's entries, of every kind and
  checkpoint namespace, and its hints.
\<close>

lemma del_all_cong: "(\<And>p. m p \<noteq> None \<Longrightarrow> p \<in> A \<longleftrightarrow> p \<in> B) \<Longrightarrow> del_all A m = del_all B m"
proof
  fix p
  assume "\<And>p. m p \<noteq> None \<Longrightarrow> p \<in> A \<longleftrightarrow> p \<in> B"
  from this [of p] show "del_all A m p = del_all B m p" by (cases "m p") (auto simp: del_all_def)
qed

text \<open>The namespaces of a thread of one kind, and all its entries.\<close>

definition kind_prefix :: "string \<Rightarrow> pystr \<Rightarrow> pystr" where
  "kind_prefix kind t = lit kind @ SEP # t @ [SEP]"

definition thread_entries :: "bool \<Rightarrow> pystr \<Rightarrow> (pystr \<times> pystr) set" where
  "thread_entries indexed t =
     {(ns, k). \<exists>kind \<in> {''ck'', ''wr'', ''bl''}. startswith ns (kind_prefix kind t)} \<union>
     (if indexed then {} else {(ns, k). ns = LATEST_NS \<and> startswith k (t @ [SEP])})"

lemma split_kind:
  assumes "SEP \<notin> set t" "SEP \<notin> set (lit kind)" "startswith ns (kind_prefix kind t)"
  shows "take 1 (drop 1 (split_on SEP ns)) = [t]"
proof -
  obtain r where r: "ns = lit kind @ SEP # t @ SEP # r"
    using assms(3) by (auto simp: startswith_iff kind_prefix_def)
  show ?thesis unfolding r using split_on_append [OF assms(2)] split_on_append [OF assms(1)] by simp
qed

lemma kinds_SEP: "kind \<in> {''ck'', ''wr'', ''bl''} \<Longrightarrow> SEP \<notin> set (lit kind)"
  by (auto simp: SEP_def)

lemma thread_entries_iff:
  assumes "SEP \<notin> set t" "SEP \<notin> set t'"
  shows "(ckpt_ns t' c, k) \<in> thread_entries b t \<longleftrightarrow> t' = t"
    "(writes_ns t' c i, k) \<in> thread_entries b t \<longleftrightarrow> t' = t"
    "(blobs_ns t' c, k) \<in> thread_entries b t \<longleftrightarrow> t' = t"
    "(LATEST_NS, latest_key t' c) \<in> thread_entries b t \<longleftrightarrow> \<not> b \<and> t' = t"
proof -
  have sw: "startswith (lit kind @ SEP # t' @ SEP # r) (kind_prefix kind' t) \<longleftrightarrow> kind = kind' \<and> t' = t"
    if "kind \<in> {''ck'', ''wr'', ''bl''}" "kind' \<in> {''ck'', ''wr'', ''bl''}" for kind kind' r
  proof -
    have "startswith (lit kind @ SEP # t' @ SEP # r) (kind_prefix kind' t) \<longleftrightarrow> lit kind = lit kind' \<and> t' = t"
    proof
      assume "startswith (lit kind @ SEP # t' @ SEP # r) (kind_prefix kind' t)"
      then obtain r' where "lit kind @ SEP # t' @ SEP # r = lit kind' @ SEP # t @ SEP # r'"
        by (auto simp: startswith_iff kind_prefix_def)
      then show "lit kind = lit kind' \<and> t' = t"
        using sep_append_inj kinds_SEP that assms by metis
    qed (auto simp: startswith_iff kind_prefix_def)
    moreover have "lit kind = lit kind' \<longleftrightarrow> kind = kind'" using that by auto
    ultimately show ?thesis by blast
  qed
  have lt: "\<not> startswith LATEST_NS (kind_prefix kind t)" for kind
    by (auto simp: startswith_iff kind_prefix_def LATEST_NS_def SEP_def Cons_eq_append_conv)
  show "(ckpt_ns t' c, k) \<in> thread_entries b t \<longleftrightarrow> t' = t"
    using sw [of "''ck''" _ c, folded ckpt_ns_def] by (auto simp: thread_entries_def)
  show "(writes_ns t' c i, k) \<in> thread_entries b t \<longleftrightarrow> t' = t"
    using sw [of "''wr''" _ "c @ SEP # i", folded writes_ns_def] by (auto simp: thread_entries_def)
  show "(blobs_ns t' c, k) \<in> thread_entries b t \<longleftrightarrow> t' = t"
    using sw [of "''bl''" _ c, folded blobs_ns_def] by (auto simp: thread_entries_def)
  have "startswith (latest_key t' c) (t @ [SEP]) \<longleftrightarrow> t' = t"
    using sep_append_inj [OF assms] by (auto simp: startswith_iff latest_key_def) metis+
  with lt show "(LATEST_NS, latest_key t' c) \<in> thread_entries b t \<longleftrightarrow> \<not> b \<and> t' = t"
    by (auto simp: thread_entries_def)
qed

context saver_lib
begin

lemma do_thread_namespaces:
  assumes "inv (sv_store sv)" "okt t" "SEP \<notin> set t" "kind \<in> {''ck'', ''wr'', ''bl''}"
  obtains nss b where "thread_namespaces ops kind t sv = (Inr nss, sv\<lparr>store_takes_prefix := b\<rparr>)" "distinct nss"
    "set nss = {ns \<in> ns_names (content (sv_store sv)). startswith ns (kind_prefix kind t)}"
proof -
  have "okt (kind_prefix kind t)" using assms(2,4) by (auto simp: kind_prefix_def simp del: lit_simps)
  then obtain nss b where n: "namespaces ops (kind_prefix kind t) sv = (Inr nss, sv\<lparr>store_takes_prefix := b\<rparr>)" "distinct nss"
    "set nss = {ns \<in> ns_names (content (sv_store sv)). startswith ns (kind_prefix kind t)}"
    using do_namespaces [OF assms(1)] by blast
  have "filter (\<lambda>ns. take 1 (drop 1 (split_on SEP ns)) = [t]) nss = nss"
    using split_kind [OF assms(3)] kinds_SEP [OF assms(4)] n(3) by (intro filter_True) blast
  then have "thread_namespaces ops kind t sv = (Inr nss, sv\<lparr>store_takes_prefix := b\<rparr>)"
    using n(1) by (simp add: thread_namespaces_def act_simps kind_prefix_def)
  from that [OF this n(2,3)] show ?thesis .
qed

lemma do_delete_namespaces:
  assumes "inv (sv_store sv)"
  shows "\<exists>s. forA (delete_namespace ops) nss sv = (Inr (), sv\<lparr>sv_store := s\<rparr>) \<and> inv s \<and>
    content s = del_all {p. fst p \<in> set nss} (content (sv_store sv))"
  using assms
proof (induction nss arbitrary: sv)
  case Nil
  then show ?case by (auto simp: act_simps intro!: exI [of _ "sv_store sv"])
next
  case (Cons ns nss)
  obtain s where s: "delete_namespace ops ns sv = (Inr (), sv\<lparr>sv_store := s\<rparr>)" "inv s"
      "content s = del_all {p. fst p = ns} (content (sv_store sv))"
    using do_delete_namespace [OF Cons.prems] .
  obtain s' where "forA (delete_namespace ops) nss (sv\<lparr>sv_store := s\<rparr>) = (Inr (), sv\<lparr>sv_store := s'\<rparr>)" "inv s'"
      "content s' = del_all {p. fst p \<in> set nss} (content s)"
    using Cons.IH [of "sv\<lparr>sv_store := s\<rparr>"] s(2) by auto
  moreover have "{p. fst p \<in> set nss} \<union> {p. fst p = ns} = {p :: pystr \<times> pystr. fst p \<in> set (ns # nss)}" by auto
  then have "del_all {p. fst p \<in> set nss} (content s) = del_all {p. fst p \<in> set (ns # nss)} (content (sv_store sv))"
    unfolding s(3) del_all_union by simp
  ultimately show ?case using s(1) by (intro exI [of _ s']) (simp add: act_simps)
qed

lemma do_delete_kind:
  assumes "inv (sv_store sv)" "okt t" "SEP \<notin> set t" "kind \<in> {''ck'', ''wr'', ''bl''}"
  shows "\<exists>s b. bindA (thread_namespaces ops kind t) (forA (delete_namespace ops)) sv =
      (Inr (), sv\<lparr>store_takes_prefix := b, sv_store := s\<rparr>) \<and> inv s \<and>
    content s = del_all {p. startswith (fst p) (kind_prefix kind t)} (content (sv_store sv))"
proof -
  obtain nss b where n: "thread_namespaces ops kind t sv = (Inr nss, sv\<lparr>store_takes_prefix := b\<rparr>)"
    "set nss = {ns \<in> ns_names (content (sv_store sv)). startswith ns (kind_prefix kind t)}"
    using do_thread_namespaces [OF assms] by metis
  obtain s where s: "forA (delete_namespace ops) nss (sv\<lparr>store_takes_prefix := b\<rparr>) =
        (Inr (), sv\<lparr>store_takes_prefix := b, sv_store := s\<rparr>)" "inv s"
      "content s = del_all {p. fst p \<in> set nss} (content (sv_store sv))"
    using do_delete_namespaces [of "sv\<lparr>store_takes_prefix := b\<rparr>" nss] assms(1) by auto
  have "del_all {p. fst p \<in> set nss} (content (sv_store sv)) =
      del_all {p. startswith (fst p) (kind_prefix kind t)} (content (sv_store sv))"
    by (rule del_all_cong) (auto simp: n(2) ns_names_def ns_keys_def, blast)
  with n s show ?thesis by (intro exI [of _ s] exI [of _ b]) (simp add: act_simps)
qed

lemma do_delete_thread:
  assumes "inv (sv_store sv)" "okt t" "SEP \<notin> set t"
  shows "\<exists>sv'. delete_thread ops t sv = (Inr (), sv') \<and> inv (sv_store sv') \<and>
    content (sv_store sv') = del_all (thread_entries (store_indexes_max_key sv) t) (content (sv_store sv)) \<and>
    max_seen sv' = filter (\<lambda>(k, v). fst k \<noteq> t) (max_seen sv) \<and>
    prune_floor sv' = filter (\<lambda>(k, v). fst k \<noteq> t) (prune_floor sv) \<and>
    store_indexes_max_key sv' = store_indexes_max_key sv"
proof -
  let ?m = "content (sv_store sv)" and ?A = "\<lambda>kind. {p. startswith (fst p) (kind_prefix kind t)}"
  obtain s1 b1 where s1: "bindA (thread_namespaces ops ''ck'' t) (forA (delete_namespace ops)) sv =
      (Inr (), sv\<lparr>store_takes_prefix := b1, sv_store := s1\<rparr>)" "inv s1" "content s1 = del_all (?A ''ck'') ?m"
    using do_delete_kind [OF assms, of "''ck''"] by auto
  let ?sv1 = "sv\<lparr>store_takes_prefix := b1, sv_store := s1\<rparr>"
  obtain s2 b2 where s2: "bindA (thread_namespaces ops ''wr'' t) (forA (delete_namespace ops)) ?sv1 =
      (Inr (), ?sv1\<lparr>store_takes_prefix := b2, sv_store := s2\<rparr>)" "inv s2" "content s2 = del_all (?A ''wr'') (content s1)"
    using do_delete_kind [of ?sv1 t "''wr''"] assms s1(2) by auto
  let ?sv2 = "?sv1\<lparr>store_takes_prefix := b2, sv_store := s2\<rparr>"
  obtain s3 b3 where s3: "bindA (thread_namespaces ops ''bl'' t) (forA (delete_namespace ops)) ?sv2 =
      (Inr (), ?sv2\<lparr>store_takes_prefix := b3, sv_store := s3\<rparr>)" "inv s3" "content s3 = del_all (?A ''bl'') (content s2)"
    using do_delete_kind [of ?sv2 t "''bl''"] assms s2(2) by auto
  let ?sv3 = "?sv2\<lparr>store_takes_prefix := b3, sv_store := s3\<rparr>"
  have loop: "forA (\<lambda>kind. bindA (thread_namespaces ops kind t) (forA (delete_namespace ops)))
      [''ck'', ''wr'', ''bl''] sv = (Inr (), ?sv3)"
    using s1(1) s2(1) s3(1) by (simp add: act_simps)
  have c3: "content s3 = del_all (?A ''ck'' \<union> ?A ''wr'' \<union> ?A ''bl'') ?m"
    unfolding s3(3) s2(3) s1(3) del_all_union by (simp add: Un_ac)
  show ?thesis
  proof (cases "store_indexes_max_key sv")
    case True
    have "thread_entries True t = ?A ''ck'' \<union> ?A ''wr'' \<union> ?A ''bl''" by (auto simp: thread_entries_def)
    with True loop s3(2) c3 show ?thesis by (simp add: delete_thread_def act_simps)
  next
    case False
    define sv3 where "sv3 = ?sv3"
    have sv3: "sv_store sv3 = s3" "max_seen sv3 = max_seen sv" "prune_floor sv3 = prune_floor sv"
      "store_indexes_max_key sv3 = store_indexes_max_key sv" by (simp_all add: sv3_def)
    have i3: "inv (sv_store sv3)" using s3(2) sv3(1) by simp
    let ?L = "{p. fst p = LATEST_NS \<and> startswith (snd p) (t @ [SEP])}"
    have "okt (t @ [SEP])" using assms(2) by simp
    then obtain ks b4 where ks: "keys_with_prefix ops LATEST_NS (t @ [SEP]) sv3 = (Inr ks, sv3\<lparr>store_takes_prefix := b4\<rparr>)"
        "set ks = {k \<in> ns_keys (content (sv_store sv3)) LATEST_NS. startswith k (t @ [SEP])}"
      using do_keys_with_prefix [OF i3] by metis
    let ?sv4 = "sv3\<lparr>store_takes_prefix := b4\<rparr>"
    have i4: "inv (sv_store ?sv4)" using i3 by simp
    obtain s4 where s4: "delete_many ops (map (\<lambda>k. (LATEST_NS, k)) ks) ?sv4 = (Inr (), ?sv4\<lparr>sv_store := s4\<rparr>)" "inv s4"
        "content s4 = del_all (set (map (\<lambda>k. (LATEST_NS, k)) ks)) (content (sv_store ?sv4))"
      using do_delete_many [OF i4] .
    have "content s4 = del_all ?L (content s3)"
      unfolding s4(3) by (simp add: sv3(1), rule del_all_cong) (auto simp: ks(2) ns_keys_def sv3(1))
    moreover have "thread_entries False t = ?L \<union> (?A ''ck'' \<union> ?A ''wr'' \<union> ?A ''bl'')"
      by (auto simp: thread_entries_def)
    ultimately have "content s4 = del_all (thread_entries False t) ?m" unfolding c3 by (simp add: del_all_union)
    with False loop [folded sv3_def] ks(1) s4(1,2) sv3 show ?thesis by (simp add: delete_thread_def act_simps)
  qed
qed

end

text \<open>
  C15. \<open>delete_thread\<close> removes a thread and nothing else: afterwards the store holds exactly the
  entries that are not the thread's (its checkpoints, pending writes, channel blobs and pointers,
  in every checkpoint namespace), the saver has no hint about it, every other thread keeps all its
  entries even when its id extends the deleted one, and the thread resolves to no checkpoint.
\<close>

theorem mem_delete_thread_exact:
  assumes "mem_inv C h (sv_store sv)" "is_text t" "SEP \<notin> set t" "\<not> store_indexes_max_key sv"
    and "cfg_thread_id rcfg = Some t" "is_text (cfg_ns rcfg)" "\<not> truthy (get_checkpoint_id E rcfg)"
  shows "\<exists>sv'. delete_thread (mem_ops C h) t sv = (Inr (), sv') \<and> mem_inv C h (sv_store sv') \<and>
    (\<forall>p. mem_content C h (sv_store sv') p =
       (if p \<in> thread_entries False t then None else mem_content C h (sv_store sv) p)) \<and>
    (\<forall>t' c i k. SEP \<notin> set t' \<and> t' \<noteq> t \<longrightarrow>
       {(ckpt_ns t' c, k), (writes_ns t' c i, k), (blobs_ns t' c, k), (LATEST_NS, latest_key t' c)} \<inter>
         thread_entries False t = {}) \<and>
    (\<forall>c. dget (max_seen sv') (t, c) = None \<and> dget (prune_floor sv') (t, c) = None) \<and>
    resolve (mem_ops C h) E rcfg sv' = (Inr None, sv')"
proof -
  obtain sv' where sv': "delete_thread (mem_ops C h) t sv = (Inr (), sv')" "mem_inv C h (sv_store sv')"
      "mem_content C h (sv_store sv') = del_all (thread_entries False t) (mem_content C h (sv_store sv))"
      "max_seen sv' = filter (\<lambda>(k, v). fst k \<noteq> t) (max_seen sv)"
      "prune_floor sv' = filter (\<lambda>(k, v). fst k \<noteq> t) (prune_floor sv)" "\<not> store_indexes_max_key sv'"
    using mem_saver.do_delete_thread [OF assms(1-3)] assms(4) by auto
  let ?m = "mem_content C h (sv_store sv')" and ?c = "cfg_ns rcfg"
  have gone: "?m (ckpt_ns t c, k) = None" "?m (LATEST_NS, latest_key t c) = None" for c k
    using sv'(3) thread_entries_iff [OF assms(3,3)] by (simp_all add: del_all_def)
  have "store_keys (mem_ops C h) (ckpt_ns t ?c) sv' = []"
    using mem_saver.read_keys [OF sv'(2), of "ckpt_ns t ?c"] gone(1) by (simp add: ns_keys_def)
  then have "resolve (mem_ops C h) E rcfg sv' = (Inr None, sv')"
    using assms(5,7) sv'(2,6) gone
    by (simp add: resolve_def resolve_latest_def need_def act_simps Let_def mem_saver.read_get)
  moreover have "dget (max_seen sv') (t, c) = None \<and> dget (prune_floor sv') (t, c) = None" for c
    unfolding sv'(4,5) by (auto simp: dget_None_iff)
  ultimately show ?thesis
    using sv'(1-3) thread_entries_iff [OF assms(3)] by (auto simp: del_all_def)
qed

text \<open>Witness of C15: thread \<open>"a"\<close> after its checkpoint \<open>"2"\<close> was stored.\<close>

theorem mem_delete_thread_exact_witness:
  "\<exists>sv1 sv2. put (mem_ops ex_codec sum_list) ex_env (ex_cfg None) (ex_cp [50]) ex_md [] (ex_saver empty_mem False) =
      (Inr (mk_config [97] [] (PStr [50])), sv1) \<and>
     delete_thread (mem_ops ex_codec sum_list) [97] sv1 = (Inr (), sv2) \<and>
     resolve (mem_ops ex_codec sum_list) ex_env (ex_cfg None) sv2 = (Inr None, sv2)"
proof -
  obtain s where s: "mem_inv ex_codec sum_list s"
    "put (mem_ops ex_codec sum_list) ex_env (ex_cfg None) (ex_cp [50]) ex_md [] (ex_saver empty_mem False) =
      (Inr (mk_config [97] [] (PStr [50])), ex_saver empty_mem False\<lparr>max_seen := [(([97], []), [50])], sv_store := s\<rparr>)"
    using ex_after_two by metis
  let ?sv = "ex_saver empty_mem False\<lparr>max_seen := [(([97], []), [50])], sv_store := s\<rparr>"
  have i: "mem_inv ex_codec sum_list (sv_store ?sv)" using s(1) by simp
  have tx: "is_text [97]" "SEP \<notin> set [97]" by (simp_all add: SEP_def)
  have idx: "\<not> store_indexes_max_key ?sv" by simp
  have rd: "cfg_thread_id (ex_cfg None) = Some [97]" "is_text (cfg_ns (ex_cfg None))"
    "\<not> truthy (get_checkpoint_id ex_env (ex_cfg None))"
    by (simp_all add: ex_cfg_def cfg_ns_def cfg_id_def)
  from mem_delete_thread_exact [OF i tx idx rd] show ?thesis
  proof (elim exE conjE, goal_cases)
    case (1 sv2)
    with s(2) show ?case by (intro exI conjI)
  qed
qed

end
