(* ===== verification/Saver_Retention.thy ===== *)
theory Saver_Retention
  imports Saver_Delete
begin

text \<open>
  Retention: what \<open>_drop_checkpoints\<close>, \<open>_trim\<close> and \<open>_prune_thread\<close> delete and what they keep. A
  thread without delta channels ends up with its newest checkpoints; their pending writes and every
  channel blob they reference survive.
\<close>

section \<open>Dropping checkpoints\<close>

text \<open>The entries that go with a set of dropped checkpoints; \<open>keep\<close> are the referenced blobs, if the
  saver is incremental.\<close>

definition dropped :: "pystr \<Rightarrow> pystr \<Rightarrow> pystr set \<Rightarrow> pystr set option \<Rightarrow> (pystr \<times> pystr) set" where
  "dropped t c doomed keep =
     {(ns, k). (ns = ckpt_ns t c \<and> k \<in> doomed) \<or> ns \<in> writes_ns t c ` doomed \<or>
               (ns = blobs_ns t c \<and> (case keep of None \<Rightarrow> False | Some ks \<Rightarrow> k \<notin> ks))}"

lemma dropped_other: "ns \<noteq> ckpt_ns t c \<Longrightarrow> ns \<notin> writes_ns t c ` doomed \<Longrightarrow> ns \<noteq> blobs_ns t c \<Longrightarrow> (ns, k) \<notin> dropped t c doomed keep"
  by (auto simp: dropped_def)

lemma dropped_latest [simp]: "(LATEST_NS, k) \<notin> dropped t c doomed keep"
  by (auto simp: dropped_def)

context saver_lib
begin

lemma do_delete_writes:
  assumes "inv (sv_store sv)"
  shows "\<exists>s. forA (\<lambda>cid. delete_namespace ops (writes_ns t c cid)) doomed sv = (Inr (), sv\<lparr>sv_store := s\<rparr>) \<and> inv s \<and>
    content s = del_all {p. fst p \<in> writes_ns t c ` set doomed} (content (sv_store sv))"
proof -
  have "forA (\<lambda>cid. delete_namespace ops (writes_ns t c cid)) doomed = forA (delete_namespace ops) (map (writes_ns t c) doomed)"
    by (induction doomed) auto
  then show ?thesis using do_delete_namespaces [OF assms, of "map (writes_ns t c) doomed"] by simp
qed

lemma do_drop:
  assumes i: "inv (sv_store sv)" and tx: "okt t" "okt c"
    and keep: "incremental sv \<Longrightarrow> referenced_blobs ops E t c kept records sv = Inr keep"
    and ptr: "content (sv_store sv) (LATEST_NS, latest_key t c) = None \<or>
      (\<exists>j. content (sv_store sv) (LATEST_NS, latest_key t c) = Some (PStr j) \<and> j \<notin> set doomed)"
  defines "D \<equiv> dropped t c (set doomed) (if incremental sv then Some (set keep) else None)"
  shows "\<exists>s. drop_checkpoints ops E t c doomed kept records sv = (Inr (), sv\<lparr>sv_store := s\<rparr>) \<and> inv s \<and>
    content s = del_all D (content (sv_store sv))"
proof -
  let ?m = "content (sv_store sv)" and ?B = "{p. incremental sv \<and> fst p = blobs_ns t c \<and> snd p \<notin> set keep}"
  have "\<exists>s. (bindA (askA incremental) (\<lambda>incr.
           if incr then
             bindA (readA (referenced_blobs ops E t c kept records)) (\<lambda>keep.
             bindA (askA (store_keys ops (blobs_ns t c))) (\<lambda>bs.
               delete_many ops (map (\<lambda>b. (blobs_ns t c, b)) (filter (\<lambda>b. b \<notin> set keep) bs))))
           else retA ())) sv = (Inr (), sv\<lparr>sv_store := s\<rparr>) \<and> inv s \<and> content s = del_all ?B ?m"
  proof (cases "incremental sv")
    case True
    let ?ps = "map (\<lambda>b. (blobs_ns t c, b)) (filter (\<lambda>b. b \<notin> set keep) (store_keys ops (blobs_ns t c) sv))"
    obtain s where s: "delete_many ops ?ps sv = (Inr (), sv\<lparr>sv_store := s\<rparr>)" "inv s" "content s = del_all (set ?ps) ?m"
      using do_delete_many [OF i] .
    have "del_all (set ?ps) ?m = del_all ?B ?m"
      using read_keys [OF i, of "blobs_ns t c"] True by (intro del_all_cong) (auto simp: ns_keys_def)
    with s True keep show ?thesis by (intro exI [of _ s]) (simp add: act_simps)
  qed (use i in \<open>auto simp: act_simps intro!: exI [of _ "sv_store sv"]\<close>)
  then obtain s1 where s1: "(bindA (askA incremental) (\<lambda>incr.
           if incr then
             bindA (readA (referenced_blobs ops E t c kept records)) (\<lambda>keep.
             bindA (askA (store_keys ops (blobs_ns t c))) (\<lambda>bs.
               delete_many ops (map (\<lambda>b. (blobs_ns t c, b)) (filter (\<lambda>b. b \<notin> set keep) bs))))
           else retA ())) sv = (Inr (), sv\<lparr>sv_store := s1\<rparr>)" "inv s1" "content s1 = del_all ?B ?m"
    by blast
  obtain s2 where s2: "forA (\<lambda>cid. delete_namespace ops (writes_ns t c cid)) doomed (sv\<lparr>sv_store := s1\<rparr>) =
        (Inr (), sv\<lparr>sv_store := s2\<rparr>)" "inv s2"
      "content s2 = del_all {p. fst p \<in> writes_ns t c ` set doomed} (content s1)"
    using do_delete_writes [of "sv\<lparr>sv_store := s1\<rparr>" t c doomed] s1(2) by auto
  obtain s3 where s3: "delete_many ops (map (\<lambda>cid. (ckpt_ns t c, cid)) doomed) (sv\<lparr>sv_store := s2\<rparr>) =
        (Inr (), sv\<lparr>sv_store := s3\<rparr>)" "inv s3"
      "content s3 = del_all (set (map (\<lambda>cid. (ckpt_ns t c, cid)) doomed)) (content s2)"
    using do_delete_many [of "sv\<lparr>sv_store := s2\<rparr>" "map (\<lambda>cid. (ckpt_ns t c, cid)) doomed"] s2(2) by auto
  have "set (map (\<lambda>cid. (ckpt_ns t c, cid)) doomed) \<union> ({p. fst p \<in> writes_ns t c ` set doomed} \<union> ?B) = D"
    by (auto simp: D_def dropped_def)
  then have c3: "content s3 = del_all D ?m" unfolding s3(3) s2(3) s1(3) del_all_union by simp
  have "content s3 (LATEST_NS, latest_key t c) = ?m (LATEST_NS, latest_key t c)"
    unfolding c3 D_def by (simp add: del_all_def)
  then have "in_str_set (the_default PNone (content s3 (LATEST_NS, latest_key t c))) doomed = Inr False"
    using ptr by auto
  with s1(1) s2(1) s3(1,2) c3 show ?thesis
    by (intro exI [of _ s3]) (auto simp: drop_checkpoints_def Let_def act_simps)
qed

section \<open>Trimming\<close>

lemma referenced_blobs_run:
  assumes i: "inv (sv_store sv)"
    and rd: "\<And>j rec. content (sv_store sv) (ckpt_ns t c, j) = Some rec \<Longrightarrow>
      \<exists>cp vs. loads_item E rec (lit ''cp'') = Inr cp \<and> channel_versions cp = Inr vs"
    and ids: "\<And>j. j \<in> set ids \<Longrightarrow> \<exists>rec. content (sv_store sv) (ckpt_ns t c, j) = Some rec \<and> rec \<noteq> PNone"
    and recs: "\<And>j r. dget records j = Some r \<Longrightarrow> r = the_default PNone (content (sv_store sv) (ckpt_ns t c, j))"
  shows "\<exists>keep. referenced_blobs ops E t c ids records sv = Inr keep \<and>
    (\<forall>j cp vs ch ver rec. j \<in> set ids \<longrightarrow> content (sv_store sv) (ckpt_ns t c, j) = Some rec \<longrightarrow>
       loads_item E rec (lit ''cp'') = Inr cp \<longrightarrow> channel_versions cp = Inr vs \<longrightarrow> (ch, ver) \<in> set vs \<longrightarrow>
       blob_key E ch ver \<in> set keep)"
proof -
  let ?m = "content (sv_store sv)"
  define missing where "missing = filter (\<lambda>j. dget records j = None) ids"
  define all where "all = (if missing = [] then records else
    fold (\<lambda>(k, v). dset k v) (zip missing (map (\<lambda>k. the_default PNone (?m (ckpt_ns t c, k))) missing)) records)"
  have all: "dget all j = ?m (ckpt_ns t c, j)" if j: "j \<in> set ids" for j
  proof -
    obtain rec where rec: "?m (ckpt_ns t c, j) = Some rec" using ids [OF j] by blast
    show ?thesis
    proof (cases "dget records j")
      case (Some r)
      then have nm: "j \<notin> set missing" by (auto simp: missing_def)
      have "map_of (rev (zip missing (map (\<lambda>k. the_default PNone (?m (ckpt_ns t c, k))) missing))) j = None"
        using nm by (auto simp: map_of_eq_None_iff dest: set_zip_leftD)
      then have "dget all j = dget records j" by (simp add: all_def fold_dset_dget map_add_def)
      with Some recs [OF Some] rec show ?thesis by simp
    next
      case None
      then have jm: "j \<in> set missing" using j by (simp add: missing_def)
      have "map_of (rev (zip missing (map (\<lambda>k. the_default PNone (?m (ckpt_ns t c, k))) missing))) j = Some rec"
      proof -
        have "map_of (rev (zip missing (map (\<lambda>k. the_default PNone (?m (ckpt_ns t c, k))) missing))) j =
            (if j \<in> fst ` set (rev (zip missing (map (\<lambda>k. the_default PNone (?m (ckpt_ns t c, k))) missing)))
             then Some (the_default PNone (?m (ckpt_ns t c, j))) else None)"
          by (rule map_of_functional) (auto simp: set_zip)
        moreover have "j \<in> fst ` set (rev (zip missing (map (\<lambda>k. the_default PNone (?m (ckpt_ns t c, k))) missing)))"
          using jm by (force simp: zip_map2 zip_same_conv_map)
        ultimately show ?thesis using rec by simp
      qed
      with jm rec show ?thesis by (auto simp: all_def fold_dset_dget map_add_def)
    qed
  qed
  let ?f = "\<lambda>i. let saved = the_default PNone (dget all i) in
      if saved = PNone then Inr []
      else bindE (loads_item E saved (lit ''cp'')) (\<lambda>checkpoint.
           bindE (channel_versions checkpoint) (\<lambda>versions. Inr (map (\<lambda>(ch, ver). blob_key E ch ver) versions)))"
  have f: "\<exists>rec cp vs. ?m (ckpt_ns t c, j) = Some rec \<and> loads_item E rec (lit ''cp'') = Inr cp \<and>
      channel_versions cp = Inr vs \<and> ?f j = Inr (map (\<lambda>(ch, ver). blob_key E ch ver) vs)" if j: "j \<in> set ids" for j
  proof -
    obtain rec where rec: "?m (ckpt_ns t c, j) = Some rec" "rec \<noteq> PNone" using ids [OF j] by blast
    obtain cp vs where "loads_item E rec (lit ''cp'') = Inr cp" "channel_versions cp = Inr vs" using rd [OF rec(1)] by blast
    with rec all [OF j] show ?thesis by (simp add: Let_def del: lit_simps)
  qed
  then have "\<nexists>e. mapE ?f ids = Inl e" unfolding mapE_fails by fastforce
  then obtain kss where kss: "mapE ?f ids = Inr kss" by (cases "mapE ?f ids") auto
  have a: "(if missing = [] then Inr records else bindE (get_many ops (ckpt_ns t c) missing sv) (\<lambda>rs.
      Inr (fold (\<lambda>(k, v). dset k v) (zip missing rs) records))) = Inr all"
    by (simp add: all_def read_many [OF i])
  have run: "referenced_blobs ops E t c ids records sv = Inr (concat kss)"
    unfolding referenced_blobs_def Let_def missing_def [symmetric] a bindE_simps kss [unfolded Let_def] ..
  moreover have "blob_key E ch ver \<in> set (concat kss)"
    if h: "j \<in> set ids" "?m (ckpt_ns t c, j) = Some rec" "loads_item E rec (lit ''cp'') = Inr cp"
      "channel_versions cp = Inr vs" "(ch, ver) \<in> set vs" for j cp vs ch ver rec
  proof -
    obtain ks where ks: "ks \<in> set kss" "?f j = Inr ks" using mapE_set [OF kss h(1)] by blast
    moreover have "?f j = Inr (map (\<lambda>(ch, ver). blob_key E ch ver) vs)" using f [OF h(1)] h(2-4) by auto
    ultimately have "blob_key E ch ver \<in> set ks" using h(5) by force
    with ks(1) show ?thesis by auto
  qed
  ultimately show ?thesis by blast
qed

end

text \<open>A stored record that can be decoded and belongs to no delta channel state.\<close>

definition plain_record :: "lg_env \<Rightarrow> pyval \<Rightarrow> bool" where
  "plain_record E rec \<longleftrightarrow> rec \<noteq> PNone \<and>
     (\<exists>cp vs. loads_item E rec (lit ''cp'') = Inr cp \<and> channel_versions cp = Inr vs) \<and>
     (\<exists>md. loads_item E rec (lit ''md'') = Inr md \<and>
        (is_dict md \<longrightarrow> (\<exists>d. get_key md DELTA_COUNTERS = Inr d \<and> \<not> truthy d)))"

text \<open>The \<open>n\<close> greatest ids of a set.\<close>

definition newest_ids :: "int \<Rightarrow> pystr set \<Rightarrow> pystr set" where
  "newest_ids n K = {k \<in> K. int (card {k' \<in> K. k < k'}) < n}"

lemma in_set_drop_nth: "x \<in> set (drop n xs) \<longleftrightarrow> (\<exists>i. n \<le> i \<and> i < length xs \<and> x = xs ! i)"
proof
  assume "x \<in> set (drop n xs)"
  then obtain j where "j < length xs - n" "x = xs ! (n + j)" by (auto simp: in_set_conv_nth)
  then show "\<exists>i. n \<le> i \<and> i < length xs \<and> x = xs ! i" by (intro exI [of _ "n + j"]) auto
next
  assume "\<exists>i. n \<le> i \<and> i < length xs \<and> x = xs ! i"
  then obtain i where "n \<le> i" "i < length xs" "x = xs ! i" by blast
  then show "x \<in> set (drop n xs)" by (auto simp: in_set_conv_nth intro!: exI [of _ "i - n"])
qed

lemma drop_newest:
  assumes "sorted xs" "distinct xs" "1 \<le> n"
  shows "set (drop (length xs - nat n) xs) = newest_ids n (set xs)"
proof -
  have above: "card {k' \<in> set xs. xs ! i < k'} = length xs - Suc i" if "i < length xs" for i
  proof -
    have "{k' \<in> set xs. xs ! i < k'} = set (drop (Suc i) xs)"
    proof (intro equalityI subsetI)
      fix k assume "k \<in> {k' \<in> set xs. xs ! i < k'}"
      then obtain j where j: "j < length xs" "k = xs ! j" "xs ! i < xs ! j" by (auto simp: in_set_conv_nth)
      then have "i < j" using sorted_nth_mono [OF assms(1), of j i] that by (meson leD leI)
      then have "Suc i \<le> j" by simp
      with j show "k \<in> set (drop (Suc i) xs)" unfolding in_set_drop_nth by blast
    next
      fix k assume "k \<in> set (drop (Suc i) xs)"
      then obtain j where j: "Suc i \<le> j" "j < length xs" "k = xs ! j" by (auto simp: in_set_drop_nth)
      then have "xs ! i \<le> xs ! j" "xs ! i \<noteq> xs ! j"
        using sorted_nth_mono [OF assms(1), of i j] nth_eq_iff_index_eq [OF assms(2), of i j] that by auto
      with j show "k \<in> {k' \<in> set xs. xs ! i < k'}" by auto
    qed
    then show ?thesis using distinct_card [OF distinct_drop [OF assms(2)], of "Suc i"] by simp
  qed
  show ?thesis
  proof (rule set_eqI)
    fix k
    have "k \<in> set (drop (length xs - nat n) xs) \<longleftrightarrow> (\<exists>i < length xs. k = xs ! i \<and> length xs - nat n \<le> i)"
      by (auto simp: in_set_drop_nth)
    also have "\<dots> \<longleftrightarrow> (\<exists>i < length xs. k = xs ! i \<and> int (length xs - Suc i) < n)"
      using assms(3) by (intro ex_cong1 conj_cong refl) linarith
    also have "\<dots> \<longleftrightarrow> k \<in> newest_ids n (set xs)"
      using above by (auto simp: newest_ids_def in_set_conv_nth)
    finally show "k \<in> set (drop (length xs - nat n) xs) \<longleftrightarrow> k \<in> newest_ids n (set xs)" .
  qed
qed

text \<open>
  What retention promises of a thread: only its oldest checkpoints go, at most a bounded number
  stays, the kept ones keep their rows, their pending writes and every blob they reference, and
  nothing outside the thread's checkpoints, writes and blobs changes.
\<close>

definition retains :: "lg_env \<Rightarrow> int \<Rightarrow> pystr \<Rightarrow> pystr \<Rightarrow> content \<Rightarrow> content \<Rightarrow> bool" where
  "retains E limit t c m m' \<longleftrightarrow>
     (let K = ns_keys m (ckpt_ns t c); K' = ns_keys m' (ckpt_ns t c) in
      (K' = K \<or> K' = newest_ids limit K) \<and>
      int (card K') \<le> limit + max PRUNE_SLACK (limit div 4) \<and>
      (\<forall>j \<in> K'. m' (ckpt_ns t c, j) = m (ckpt_ns t c, j) \<and>
        (\<forall>k. m' (writes_ns t c j, k) = m (writes_ns t c j, k)) \<and>
        (\<forall>rec cp vs ch ver. m (ckpt_ns t c, j) = Some rec \<and> loads_item E rec (lit ''cp'') = Inr cp \<and>
           channel_versions cp = Inr vs \<and> (ch, ver) \<in> set vs \<longrightarrow>
           m' (blobs_ns t c, blob_key E ch ver) = m (blobs_ns t c, blob_key E ch ver))) \<and>
      (\<forall>ns k. ns \<noteq> ckpt_ns t c \<and> ns \<notin> range (writes_ns t c) \<and> ns \<noteq> blobs_ns t c \<longrightarrow> m' (ns, k) = m (ns, k)))"

lemma writes_ns_inj_id [simp]: "writes_ns t c i = writes_ns t c i' \<longleftrightarrow> i = i'"
  by (simp add: writes_ns_def)

lemma retains_refl:
  "int (card (ns_keys m (ckpt_ns t c))) \<le> limit + max PRUNE_SLACK (limit div 4) \<Longrightarrow> retains E limit t c m m"
  by (simp add: retains_def)

lemma retains_dropped:
  assumes "finite K" "1 \<le> limit" and K: "K = ns_keys m (ckpt_ns t c)"
    and keep: "\<And>ks j rec cp vs ch ver. keep = Some ks \<Longrightarrow> j \<in> newest_ids limit K \<Longrightarrow> m (ckpt_ns t c, j) = Some rec \<Longrightarrow>
      loads_item E rec (lit ''cp'') = Inr cp \<Longrightarrow> channel_versions cp = Inr vs \<Longrightarrow> (ch, ver) \<in> set vs \<Longrightarrow>
      blob_key E ch ver \<in> ks"
  shows "retains E limit t c m (del_all (dropped t c (K - newest_ids limit K) keep) m)"
proof -
  let ?N = "newest_ids limit K" and ?m' = "del_all (dropped t c (K - newest_ids limit K) keep) m"
  have sub: "?N \<subseteq> K" by (auto simp: newest_ids_def)
  have K': "ns_keys ?m' (ckpt_ns t c) = ?N"
  proof (rule set_eqI)
    fix k
    have "?m' (ckpt_ns t c, k) = (if k \<in> K - ?N then None else m (ckpt_ns t c, k))"
      by (auto simp: del_all_def dropped_def)
    then show "k \<in> ns_keys ?m' (ckpt_ns t c) \<longleftrightarrow> k \<in> ?N" using sub by (auto simp: ns_keys_def K)
  qed
  have "int (card ?N) \<le> limit"
  proof -
    let ?xs = "sorted_list_of_set K"
    have "set (drop (length ?xs - nat limit) ?xs) = ?N"
      using drop_newest [of ?xs limit] assms(1,2) by simp
    then have "card ?N \<le> length (drop (length ?xs - nat limit) ?xs)" by (metis card_length)
    then show ?thesis using assms(2) by simp
  qed
  moreover have "0 \<le> max PRUNE_SLACK (limit div 4)" by (simp add: PRUNE_SLACK_def)
  ultimately have bound: "int (card ?N) \<le> limit + max PRUNE_SLACK (limit div 4)" by linarith
  have rows: "?m' (ckpt_ns t c, j) = m (ckpt_ns t c, j)" "?m' (writes_ns t c j, k) = m (writes_ns t c j, k)"
    if "j \<in> ?N" for j k
    using that by (auto simp: del_all_def dropped_def)
  have blobs: "?m' (blobs_ns t c, blob_key E ch ver) = m (blobs_ns t c, blob_key E ch ver)"
    if "j \<in> ?N" "m (ckpt_ns t c, j) = Some rec" "loads_item E rec (lit ''cp'') = Inr cp"
      "channel_versions cp = Inr vs" "(ch, ver) \<in> set vs" for j rec cp vs ch ver
  proof (cases keep)
    case (Some ks)
    from keep [OF Some that] Some have "(blobs_ns t c, blob_key E ch ver) \<notin> dropped t c (K - ?N) keep"
      by (auto simp: dropped_def)
    then show ?thesis by (simp add: del_all_def)
  qed (auto simp: del_all_def dropped_def)
  have other: "?m' (ns, k) = m (ns, k)"
    if "ns \<noteq> ckpt_ns t c" "ns \<notin> range (writes_ns t c)" "ns \<noteq> blobs_ns t c" for ns k
    using that by (auto simp: del_all_def dropped_def)
  show ?thesis unfolding retains_def Let_def K'
  proof (intro conjI ballI allI impI)
    show "?N = ns_keys m (ckpt_ns t c) \<or> ?N = newest_ids limit (ns_keys m (ckpt_ns t c))" unfolding K by simp
    show "int (card ?N) \<le> limit + max PRUNE_SLACK (limit div 4)" by (rule bound)
    fix j assume j: "j \<in> ?N"
    show "?m' (ckpt_ns t c, j) = m (ckpt_ns t c, j)" using j by (rule rows)
    show "?m' (writes_ns t c j, k) = m (writes_ns t c j, k)" for k using j by (rule rows)
    show "?m' (blobs_ns t c, blob_key E ch ver) = m (blobs_ns t c, blob_key E ch ver)"
      if "m (ckpt_ns t c, j) = Some rec \<and> loads_item E rec (lit ''cp'') = Inr cp \<and>
        channel_versions cp = Inr vs \<and> (ch, ver) \<in> set vs" for rec cp vs ch ver
      using that j blobs by blast
  next
    show "?m' (ns, k) = m (ns, k)"
      if "ns \<noteq> ckpt_ns t c \<and> ns \<notin> range (writes_ns t c) \<and> ns \<noteq> blobs_ns t c" for ns k
      using that other by blast
  qed
qed

context saver_lib
begin

lemma delta_ancestors_plain:
  assumes "\<And>j. j \<in> set survivors \<Longrightarrow> plain_record E (the_default PNone (dget records j))"
  shows "delta_ancestors ops E t c survivors needed records sv = Inr (needed, records)"
  using assms
proof (induction survivors)
  case (Cons j js)
  obtain md where md: "loads_item E (the_default PNone (dget records j)) (lit ''md'') = Inr md"
      "is_dict md \<longrightarrow> (\<exists>d. get_key md DELTA_COUNTERS = Inr d \<and> \<not> truthy d)"
      "the_default PNone (dget records j) \<noteq> PNone"
    using Cons.prems [of j] by (auto simp: plain_record_def simp del: lit_simps)
  have "\<exists>d. (if is_dict md then get_key md DELTA_COUNTERS else Inr PNone) = Inr d \<and> \<not> truthy d"
    using md(2) by auto
  then obtain d where "(if is_dict md then get_key md DELTA_COUNTERS else Inr PNone) = Inr d" "\<not> truthy d" by blast
  with md(1,3) Cons show ?case by (simp add: Let_def del: lit_simps)
qed simp

lemma do_trim:
  assumes i: "inv (sv_store sv)" and tx: "okt t" "okt c" and n: "1 \<le> limit"
  defines "m \<equiv> content (sv_store sv)"
  defines "K \<equiv> ns_keys m (ckpt_ns t c)"
  assumes recs: "\<And>j rec. m (ckpt_ns t c, j) = Some rec \<Longrightarrow> plain_record E rec"
    and ptr: "m (LATEST_NS, latest_key t c) = None \<or> m (LATEST_NS, latest_key t c) = Some (PStr (Max K))"
    and big: "limit < int (card K)"
  shows "\<exists>s. trim ops E t c (sorted_list_of_set K) limit sv = (Inr limit, sv\<lparr>sv_store := s\<rparr>) \<and> inv s \<and>
    retains E limit t c m (content s)"
proof -
  let ?ids = "sorted_list_of_set K"
  define survivors where "survivors = drop (length ?ids - nat limit) ?ids"
  define records where "records = dict_of (zip survivors (map (\<lambda>k. the_default PNone (m (ckpt_ns t c, k))) survivors))"
  have fin: "finite K" unfolding K_def m_def by (rule finite_ns_keys [OF finite_law [OF i]])
  have sv: "set survivors = newest_ids limit K" "distinct survivors" "length survivors = nat limit"
    unfolding survivors_def using drop_newest [of ?ids limit] n fin big by simp_all
  have sub: "set survivors \<subseteq> K" unfolding survivors_def using fin by (metis set_drop_subset set_sorted_list_of_set)
  have row: "\<exists>rec. m (ckpt_ns t c, j) = Some rec \<and> plain_record E rec" if "j \<in> K" for j
    using that recs by (auto simp: K_def ns_keys_def)
  have dg: "dget records j = (if j \<in> set survivors then Some (the_default PNone (m (ckpt_ns t c, j))) else None)" for j
  proof -
    have "dget records j = map_of (zip survivors (map (\<lambda>k. the_default PNone (m (ckpt_ns t c, k))) survivors)) j"
      unfolding records_def by (subst dget_dict_of_distinct) (use sv(2) in simp_all)
    then show ?thesis by (simp add: map_of_zip_map)
  qed
  have delta: "delta_ancestors ops E t c survivors [] records sv = Inr ([], records)"
    using row sub dg by (intro delta_ancestors_plain) fastforce
  have lst: "last_ids limit ?ids = survivors" using n by (simp add: last_ids_def survivors_def)
  define doomed where "doomed = filter (\<lambda>j. j \<notin> set survivors) ?ids"
  have dm: "set doomed = K - newest_ids limit K" unfolding doomed_def sv(1)[symmetric] using fin by auto
  have "doomed \<noteq> []"
  proof
    assume "doomed = []"
    then have "K = set survivors" using dm sub sv(1) by auto
    then have "card K = nat limit" using distinct_card [OF sv(2)] sv(3) by simp
    with big n show False by simp
  qed
  have refs: "\<exists>keep. referenced_blobs ops E t c (sort survivors) records sv = Inr keep \<and>
    (\<forall>j cp vs ch ver rec. j \<in> set (sort survivors) \<longrightarrow> content (sv_store sv) (ckpt_ns t c, j) = Some rec \<longrightarrow>
       loads_item E rec (lit ''cp'') = Inr cp \<longrightarrow> channel_versions cp = Inr vs \<longrightarrow> (ch, ver) \<in> set vs \<longrightarrow>
       blob_key E ch ver \<in> set keep)"
  proof (rule referenced_blobs_run [OF i])
    show "\<exists>cp vs. loads_item E rec (lit ''cp'') = Inr cp \<and> channel_versions cp = Inr vs"
      if "content (sv_store sv) (ckpt_ns t c, j) = Some rec" for j rec
      using recs [of j rec] that by (simp add: m_def plain_record_def del: lit_simps)
    show "\<exists>rec. content (sv_store sv) (ckpt_ns t c, j) = Some rec \<and> rec \<noteq> PNone" if "j \<in> set (sort survivors)" for j
      using row [of j] sub that by (auto simp: m_def plain_record_def simp del: lit_simps)
    show "r = the_default PNone (content (sv_store sv) (ckpt_ns t c, j))" if "dget records j = Some r" for j r
      using dg [of j] that by (auto simp: m_def split: if_splits)
  qed
  then obtain keep where keep: "referenced_blobs ops E t c (sort survivors) records sv = Inr keep"
    "\<And>j cp vs ch ver rec. j \<in> set survivors \<Longrightarrow> m (ckpt_ns t c, j) = Some rec \<Longrightarrow>
       loads_item E rec (lit ''cp'') = Inr cp \<Longrightarrow> channel_versions cp = Inr vs \<Longrightarrow> (ch, ver) \<in> set vs \<Longrightarrow>
       blob_key E ch ver \<in> set keep"
    unfolding m_def by auto
  have mx: "Max K \<notin> set doomed"
  proof
    assume d: "Max K \<in> set doomed"
    then have "Max K \<in> K" "Max K \<notin> newest_ids limit K" using dm by auto
    moreover have "{k' \<in> K. Max K < k'} = {}" using Max_ge [OF fin] leD by blast
    ultimately show False using n by (simp add: newest_ids_def)
  qed
  have ptr': "m (LATEST_NS, latest_key t c) = None \<or> (\<exists>j. m (LATEST_NS, latest_key t c) = Some (PStr j) \<and> j \<notin> set doomed)"
    using ptr mx by blast
  obtain s where s: "drop_checkpoints ops E t c doomed (sort survivors) records sv = (Inr (), sv\<lparr>sv_store := s\<rparr>)" "inv s"
      "content s = del_all (dropped t c (set doomed) (if incremental sv then Some (set keep) else None)) m"
    using do_drop [OF i tx, of "sort survivors" records keep doomed] keep(1) ptr' unfolding m_def by blast
  have "trim ops E t c ?ids limit sv = (Inr limit, sv\<lparr>sv_store := s\<rparr>)"
    unfolding trim_def lst Let_def using s(1) delta \<open>doomed \<noteq> []\<close> n sv(3)
    by (simp add: act_simps read_many [OF i] m_def [symmetric] records_def [symmetric] doomed_def [symmetric]
        distinct_remdups_id [OF sv(2)] del: length_sorted_list_of_set)
  moreover have "retains E limit t c m (content s)"
    unfolding s(3) dm
    by (rule retains_dropped [OF fin n K_def [THEN meta_eq_to_obj_eq]])
      (use keep(2) sv(1) in \<open>simp split: if_splits del: lit_simps\<close>)
  ultimately show ?thesis using s(2) by blast
qed

end

lemma newest_ids_Max: "finite K \<Longrightarrow> K \<noteq> {} \<Longrightarrow> 1 \<le> n \<Longrightarrow> Max K \<in> newest_ids n K"
proof -
  assume K: "finite K" "K \<noteq> {}" "1 \<le> n"
  then have e: "{k' \<in> K. Max K < k'} = {}" using Max_ge [of K] leD by blast
  have "int (card {k' \<in> K. Max K < k'}) < n" unfolding e using K(3) by simp
  then show ?thesis using Max_in [OF K(1,2)] unfolding newest_ids_def by blast
qed

lemma retainsD:
  assumes "retains E limit t c m m'"
  shows "ns_keys m' (ckpt_ns t c) = ns_keys m (ckpt_ns t c) \<or>
      ns_keys m' (ckpt_ns t c) = newest_ids limit (ns_keys m (ckpt_ns t c))"
    "j \<in> ns_keys m' (ckpt_ns t c) \<Longrightarrow> m' (ckpt_ns t c, j) = m (ckpt_ns t c, j)"
    "m' (LATEST_NS, k) = m (LATEST_NS, k)"
proof -
  note r = assms [unfolded retains_def Let_def]
  show "ns_keys m' (ckpt_ns t c) = ns_keys m (ckpt_ns t c) \<or>
      ns_keys m' (ckpt_ns t c) = newest_ids limit (ns_keys m (ckpt_ns t c))"
    by (rule r [THEN conjunct1])
  show "m' (ckpt_ns t c, j) = m (ckpt_ns t c, j)" if "j \<in> ns_keys m' (ckpt_ns t c)"
    by (rule r [THEN conjunct2, THEN conjunct2, THEN conjunct1, THEN bspec [OF _ that], THEN conjunct1])
  have "LATEST_NS \<notin> range (writes_ns t c)" by auto
  then show "m' (LATEST_NS, k) = m (LATEST_NS, k)"
    by (intro r [THEN conjunct2, THEN conjunct2, THEN conjunct2, rule_format]) simp
qed

lemma retains_latest:
  assumes "retains E limit t c m m'" "latest_inv m hints t c" "finite (dom m)" "1 \<le> limit"
  shows "latest_inv m' hints t c"
proof -
  let ?K = "ns_keys m (ckpt_ns t c)" and ?K' = "ns_keys m' (ckpt_ns t c)"
  have fin: "finite ?K" by (rule finite_ns_keys [OF assms(3)])
  note K' = retainsD(1) [OF assms(1)] and row = retainsD(2) [OF assms(1)]
  have lt: "m' (LATEST_NS, latest_key t c) = m (LATEST_NS, latest_key t c)" by (rule retainsD(3) [OF assms(1)])
  have sub: "?K' \<subseteq> ?K" using K' by (auto simp: newest_ids_def)
  have "m' (ckpt_ns t c, j) \<noteq> Some PNone \<and> m' (ckpt_ns t c, []) = None" for j
    using assms(2) row [of j] row [of "[]"] by (force simp: latest_inv_def ckpts_ok_def ns_keys_def)
  then have ck: "ckpts_ok m' t c" by (simp add: ckpts_ok_def)
  show ?thesis
  proof (cases "?K = {}")
    case True
    with sub ck lt assms(2) show ?thesis by (simp add: latest_inv_def)
  next
    case False
    then have mx: "Max ?K \<in> ?K'" using K' newest_ids_Max [OF fin False assms(4)] Max_in [OF fin False] by auto
    have "Max ?K' = Max ?K" using mx sub fin by (intro Max_eqI) (auto intro: finite_subset)
    with mx False ck lt assms(2) show ?thesis by (auto simp: latest_inv_def Let_def)
  qed
qed

lemma retains_rows:
  "retains E limit t c m m' \<Longrightarrow> m' (ckpt_ns t c, j) = Some rec \<Longrightarrow> m (ckpt_ns t c, j) = Some rec"
  using retainsD(2) [of E limit t c m m' j] by (simp add: ns_keys_def)

lemma fresh_blobs_other: "fst p \<noteq> blobs_ns t c \<Longrightarrow> upd_all (fresh_blobs m' t c blobs) m p = m p"
  by (cases p) (auto intro!: upd_all_other simp: fresh_blobs_def)

lemma ns_keys_cong: "(\<And>k. m (ns, k) = m' (ns, k)) \<Longrightarrow> ns_keys m ns = ns_keys m' ns"
  by (simp add: ns_keys_def)

lemma latest_inv_cong:
  "(\<And>k. m (ckpt_ns t c, k) = m' (ckpt_ns t c, k)) \<Longrightarrow> m (LATEST_NS, latest_key t c) = m' (LATEST_NS, latest_key t c) \<Longrightarrow>
   latest_inv m hints t c \<longleftrightarrow> latest_inv m' hints t c"
  by (simp add: latest_inv_def ckpts_ok_def ns_keys_def)

context saver_lib
begin

lemma do_prune_thread:
  assumes i: "inv (sv_store sv)" and tx: "okt t" "okt c"
    and mx: "max_checkpoints_per_thread sv = Some limit" "1 \<le> limit"
    and fl: "dget (prune_floor sv) (t, c) \<in> {None, Some limit}"
  defines "m \<equiv> content (sv_store sv)"
  assumes recs: "\<And>j rec. m (ckpt_ns t c, j) = Some rec \<Longrightarrow> plain_record E rec"
    and ptr: "m (LATEST_NS, latest_key t c) = None \<or>
      m (LATEST_NS, latest_key t c) = Some (PStr (Max (ns_keys m (ckpt_ns t c))))"
  shows "\<exists>s pf. prune_thread ops E t c sv = (Inr (), sv\<lparr>sv_store := s, prune_floor := pf\<rparr>) \<and> inv s \<and>
    retains E limit t c m (content s) \<and> dget pf (t, c) \<in> {None, Some limit}"
proof -
  let ?K = "ns_keys m (ckpt_ns t c)" and ?ids = "store_keys ops (ckpt_ns t c) sv"
  have ids: "distinct ?ids" "set ?ids = ?K" using read_keys [OF i, of "ckpt_ns t c"] by (auto simp: m_def)
  have len: "length ?ids = card ?K" using distinct_card [OF ids(1)] ids(2) by simp
  have srt: "sort ?ids = sorted_list_of_set ?K"
    using ids by (metis sorted_list_of_set_sort_remdups distinct_remdups_id)
  have floor: "max limit (the_default limit (dget (prune_floor sv) (t, c))) = limit" using fl by auto
  show ?thesis
  proof (cases "int (card ?K) \<le> limit + max PRUNE_SLACK (limit div 4)")
    case True
    have "sv\<lparr>sv_store := sv_store sv, prune_floor := prune_floor sv\<rparr> = sv" by simp
    with True mx(1) floor len have "prune_thread ops E t c sv = (Inr (), sv\<lparr>sv_store := sv_store sv, prune_floor := prune_floor sv\<rparr>)"
      by (simp add: prune_thread_def act_simps)
    with i fl retains_refl [OF True] show ?thesis by (metis m_def)
  next
    case False
    then have "limit < int (card ?K)" by (simp add: PRUNE_SLACK_def)
    then obtain s where s: "trim ops E t c (sorted_list_of_set ?K) limit sv = (Inr limit, sv\<lparr>sv_store := s\<rparr>)" "inv s"
        "retains E limit t c m (content s)"
      using do_trim [OF i tx mx(2)] recs ptr unfolding m_def by blast
    have "prune_thread ops E t c sv =
        (Inr (), sv\<lparr>sv_store := s, prune_floor := bounded_set (prune_floor sv) (t, c) limit\<rparr>)"
      using False mx(1) floor len srt s(1) by (simp add: prune_thread_def act_simps)
    with s(2,3) show ?thesis
      by (intro exI [of _ s] exI [of _ "bounded_set (prune_floor sv) (t, c) limit"]) (simp add: bounded_set_def dget_dset)
  qed
qed

lemma put_retains:
  assumes "inv (sv_store sv)" "max_checkpoints_per_thread sv = Some limit" "1 \<le> limit" "\<not> store_indexes_max_key sv"
    "dget (prune_floor sv) (t, c) \<in> {None, Some limit}"
    and enc: "encode_put E (incremental sv) config cp md nv = Inr (t, c, cid, rec, blobs)"
    and ok: "okt t" "okt c" "okt cid" "cid \<noteq> []" "okv rec" "okv (PStr cid)"
      "\<forall>(k, v) \<in> set blobs. okt k \<and> okv v"
    and l: "latest_inv (content (sv_store sv)) (max_seen sv) t c"
    and mono: "dget (max_seen sv) (t, c) = None \<Longrightarrow> \<forall>k \<in> ns_keys (content (sv_store sv)) (ckpt_ns t c). k \<le> cid"
    and recs: "\<forall>j r. content (sv_store sv) (ckpt_ns t c, j) = Some r \<longrightarrow> plain_record E r" "plain_record E rec"
  defines "m1 \<equiv> upd_all (fresh_blobs (content (sv_store sv)) t c blobs @ put_entries sv t c cid rec) (content (sv_store sv))"
  shows "\<exists>sv'. put ops E config cp md nv sv = (Inr (mk_config t c (PStr cid)), sv') \<and> inv (sv_store sv') \<and>
    retains E limit t c m1 (content (sv_store sv')) \<and>
    latest_inv (content (sv_store sv')) (max_seen sv') t c \<and>
    dget (prune_floor sv') (t, c) \<in> {None, Some limit} \<and>
    (\<forall>j r. content (sv_store sv') (ckpt_ns t c, j) = Some r \<longrightarrow> plain_record E r)"
proof -
  let ?m = "content (sv_store sv)" and ?fb = "fresh_blobs (content (sv_store sv)) t c blobs"
  obtain s where s: "inv s" "content s = m1"
    "put ops E config cp md nv sv =
       thenA (if max_checkpoints_per_thread sv \<noteq> None then prune_thread ops E t c else retA ())
         (retA (mk_config t c (PStr cid))) (sv\<lparr>max_seen := put_hints sv t c cid, sv_store := s\<rparr>)"
    using do_put [OF assms(1) enc ok(1-3,5,6)] ok(7) unfolding m1_def by blast
  let ?after = "sv\<lparr>max_seen := put_hints sv t c cid, sv_store := s\<rparr>" and ?base = "upd_all ?fb ?m"
  have m1: "m1 = upd_all (put_entries sv t c cid rec) ?base" by (simp add: m1_def upd_all_append)
  have m0: "?base (ckpt_ns t c, k) = ?m (ckpt_ns t c, k)" "?base (LATEST_NS, latest_key t c) = ?m (LATEST_NS, latest_key t c)" for k
    by (simp_all add: fresh_blobs_other)
  have fin0: "finite (dom ?base)" using finite_law [OF assms(1)] by simp
  have K0: "ns_keys ?base (ckpt_ns t c) = ns_keys ?m (ckpt_ns t c)" by (rule ns_keys_cong) (rule m0(1))
  have l0: "latest_inv ?base (max_seen sv) t c" using l latest_inv_cong [of ?base t c ?m, OF m0] by blast
  have rne: "rec \<noteq> PNone" using recs(2) by (simp add: plain_record_def)
  have l1: "latest_inv m1 (put_hints sv t c cid) t c"
    unfolding m1 by (rule put_latest_inv [OF fin0 l0 assms(4) ok(4) rne]) (use mono in \<open>simp add: K0\<close>)
  have r1: "plain_record E r" if "m1 (ckpt_ns t c, j) = Some r" for j r
    using that recs m0 unfolding m1
    by (cases "j = cid") (auto simp: put_entries_same put_entries_other)
  have p1: "m1 (LATEST_NS, latest_key t c) = None \<or>
      m1 (LATEST_NS, latest_key t c) = Some (PStr (Max (ns_keys m1 (ckpt_ns t c))))"
    using l1 by (auto simp: latest_inv_def Let_def split: if_splits)
  have "\<exists>s' pf. prune_thread ops E t c ?after = (Inr (), ?after\<lparr>sv_store := s', prune_floor := pf\<rparr>) \<and> inv s' \<and>
    retains E limit t c (content (sv_store ?after)) (content s') \<and> dget pf (t, c) \<in> {None, Some limit}"
    by (rule do_prune_thread) (use s(1,2) ok(1,2) assms(2,3,5) r1 p1 in simp_all)
  then obtain s' pf where pr: "prune_thread ops E t c ?after = (Inr (), ?after\<lparr>sv_store := s', prune_floor := pf\<rparr>)"
      "inv s'" "retains E limit t c m1 (content s')" "dget pf (t, c) \<in> {None, Some limit}"
    using s(2) by auto
  have fin1: "finite (dom m1)" using finite_law [OF s(1)] s(2) by simp
  have "latest_inv (content s') (put_hints sv t c cid) t c" using retains_latest [OF pr(3) l1 fin1 assms(3)] .
  moreover have "plain_record E r" if "content s' (ckpt_ns t c, j) = Some r" for j r
    using r1 retains_rows [OF pr(3) that] by blast
  ultimately show ?thesis
    using s(3) assms(2) pr by (intro exI [of _ "?after\<lparr>sv_store := s', prune_floor := pf\<rparr>"]) (simp add: act_simps)
qed

end


lemma ex_plain: "plain_record ex_env (ex_rec 1 PNone)"
  by (simp add: plain_record_def ex_rec_def mk_record_def loads_item_def ex_env_def table_env_def ex_serde_def
      ex_md_def ex_cp_def channel_versions_def)


end
