(* ===== verification/Portability.thy ===== *)
theory Portability
  imports Store_Contract
begin

text \<open>
  \<^verbatim>\<open>src/python/swarmstate/portability.py\<close>: copying the entries of one store into another, writing
  them to a dump file and reading a dump back. The source store is only read, so it is an argument;
  the destination store and the file are the states of the actions. Entries are produced batch by
  batch, so that a batch that cannot be read raises after the earlier ones were written. \<open>C\<close> is the
  Rust codec behind \<open>dumps\<close> and \<open>loads\<close>; \<open>room\<close> is the number of bytes the device can hold for
  the file, beyond which a write raises \<open>OSError\<close>.
\<close>

definition BATCH :: nat where "BATCH = 1000"

definition MAGIC :: bytes where "MAGIC = [83, 87, 83, 84, 65, 84, 69]"

definition FORMAT_VERSION :: "8 word" where "FORMAT_VERSION = 1"

section \<open>Batches\<close>

text \<open>One batch: \<open>get_many\<close> of a slice of the keys of a namespace, without the keys that vanished.\<close>

definition read_batch :: "'s store_ops \<Rightarrow> 's \<Rightarrow> pystr \<Rightarrow> pystr list \<Rightarrow> exc + entry list" where
  "read_batch ops s ns chunk =
     (case op_get_many ops of
        None \<Rightarrow> Inl AttributeError
      | Some getter \<Rightarrow> bindE (getter s (map (\<lambda>k. (ns, k)) chunk)) (\<lambda>values.
          Inr (List.map_filter (\<lambda>(k, v). if v \<noteq> PNone \<or> op_contains ops s ns k then Some (ns, k, v) else None)
            (zip chunk values))))"

definition entries ::
  "'s store_ops \<Rightarrow> 's \<Rightarrow> pystr option \<Rightarrow> nat \<Rightarrow> exc + (exc + entry list) list" where
  "entries ops s pre batch_size =
     bindE (case pre of None \<Rightarrow> Inr (op_namespaces ops s) | Some p \<Rightarrow> op_namespaces_prefix ops s p) (\<lambda>nss.
       Inr (concat (map (\<lambda>ns. map (read_batch ops s ns) (chunks batch_size (op_keys ops s ns))) nss)))"

text \<open>\<open>store.set_many(batch)\<close>; a store without it raises.\<close>

definition store_set_many :: "'s store_ops \<Rightarrow> entry list \<Rightarrow> ('s, unit) act" where
  "store_set_many ops es s =
     (case op_set_many ops of
        None \<Rightarrow> (Inl AttributeError, s)
      | Some setter \<Rightarrow> (case setter s es of Inl e \<Rightarrow> (Inl e, s) | Inr s' \<Rightarrow> (Inr (), s')))"

section \<open>Copying\<close>

fun copy_batches :: "'s store_ops \<Rightarrow> (exc + entry list) list \<Rightarrow> nat \<Rightarrow> ('s, nat) act" where
  "copy_batches dst [] copied = retA copied"
| "copy_batches dst (b # bs) copied =
     bindA (liftE b) (\<lambda>batch.
       if batch \<noteq> [] then thenA (store_set_many dst batch) (copy_batches dst bs (copied + length batch))
       else copy_batches dst bs copied)"

definition copy_store ::
  "'a store_ops \<Rightarrow> 'a \<Rightarrow> 'b store_ops \<Rightarrow> pystr option \<Rightarrow> int \<Rightarrow> ('b, nat) act" where
  "copy_store src s dst pre batch_size =
     (if batch_size < 1 then raiseA (ValueError ''batch_size must be >= 1'')
      else bindA (liftE (entries src s pre (nat batch_size))) (\<lambda>bs. copy_batches dst bs 0))"

section \<open>Dump files\<close>

text \<open>\<open>struct.Struct(">I")\<close>: four bytes, most significant first.\<close>

definition frame_pack :: "nat \<Rightarrow> exc + bytes" where
  "frame_pack n =
     (if n < 2 ^ 32 then Inr (map (\<lambda>i. word_of_nat (n div 256 ^ i mod 256)) [3, 2, 1, 0])
      else Inl StructError)"

definition frame_unpack :: "bytes \<Rightarrow> nat" where
  "frame_unpack bs = foldl (\<lambda>a b. 256 * a + unat b) 0 bs"

text \<open>\<open>f.write\<close> on a device with room for the first \<open>room\<close> bytes of the file.\<close>

definition f_write :: "nat \<Rightarrow> bytes \<Rightarrow> (bytes, unit) act" where
  "f_write room b f =
     (if length f + length b \<le> room then (Inr (), f @ b) else (Inl OSError, take room (f @ b)))"

definition write_entry_frame :: "codec \<Rightarrow> nat \<Rightarrow> entry \<Rightarrow> (bytes, unit) act" where
  "write_entry_frame C room = (\<lambda>(ns, key, v).
     bindA (liftE (encode C (PList [PStr ns, PStr key, v]))) (\<lambda>frame.
     bindA (liftE (frame_pack (length frame))) (\<lambda>size.
       thenA (f_write room size) (f_write room frame))))"

fun write_batches :: "codec \<Rightarrow> nat \<Rightarrow> (exc + entry list) list \<Rightarrow> nat \<Rightarrow> (bytes, nat) act" where
  "write_batches C room [] count = retA count"
| "write_batches C room (b # bs) count =
     bindA (liftE b) (\<lambda>batch.
       thenA (forA (write_entry_frame C room) batch) (write_batches C room bs (count + length batch)))"

text \<open>\<open>_write\<close>: the header, then one frame per entry.\<close>

definition write_dump :: "codec \<Rightarrow> nat \<Rightarrow> 's store_ops \<Rightarrow> 's \<Rightarrow> pystr option \<Rightarrow> (bytes, nat) act" where
  "write_dump C room ops s pre =
     thenA (f_write room (MAGIC @ [FORMAT_VERSION]))
       (bindA (liftE (entries ops s pre BATCH)) (\<lambda>bs. write_batches C room bs 0))"

text \<open>\<open>dump_store\<close> to a path: the directory maps paths to file contents; a temporary file is written
  and moved into place, and removed when anything raised.\<close>

type_synonym directory = "pystr \<rightharpoonup> bytes"

definition tmp_path :: "pystr \<Rightarrow> pystr" where
  "tmp_path path = path @ lit ''.tmp''"

definition dump_store ::
  "codec \<Rightarrow> nat \<Rightarrow> 's store_ops \<Rightarrow> 's \<Rightarrow> pystr \<Rightarrow> pystr option \<Rightarrow> (directory, nat) act" where
  "dump_store C room ops s path pre dir =
     (case write_dump C room ops s pre [] of
        (Inl e, _) \<Rightarrow> (Inl e, dir(tmp_path path := None))
      | (Inr count, f) \<Rightarrow> (Inr count, dir(tmp_path path := None, path \<mapsto> f)))"

section \<open>Reading a dump\<close>

type_synonym raw_entry = "pyval \<times> pyval \<times> pyval"

text \<open>\<open>store.set_many\<close> of decoded entries: namespaces and keys must be strings.\<close>

definition set_raw :: "'s store_ops \<Rightarrow> raw_entry list \<Rightarrow> ('s, unit) act" where
  "set_raw ops batch =
     bindA (liftE (mapE (\<lambda>(a, b, v). bindE (as_str a) (\<lambda>ns. bindE (as_str b) (\<lambda>k. Inr (ns, k, v)))) batch))
       (store_set_many ops)"

definition dump_entry :: "pyval \<Rightarrow> exc + raw_entry" where
  "dump_entry entry =
     (case entry of PList [a, b, v] \<Rightarrow> Inr (a, b, v) | _ \<Rightarrow> Inl (ValueError ''corrupt swarmstate dump entry''))"

function read_frames ::
  "codec \<Rightarrow> 's store_ops \<Rightarrow> bytes \<Rightarrow> raw_entry list \<Rightarrow> ('s, unit) act" where
  "read_frames C ops f batch =
     (let size = take 4 f; f1 = drop 4 f in
      if size = [] then (if batch \<noteq> [] then set_raw ops batch else retA ())
      else if length size \<noteq> 4 then raiseA (ValueError ''truncated swarmstate dump'')
      else let n = frame_unpack size; frame = take n f1; f2 = drop n f1 in
        if length frame \<noteq> n then raiseA (ValueError ''truncated swarmstate dump'')
        else bindA (liftE (bindE (decode C frame) dump_entry)) (\<lambda>e.
          if length (batch @ [e]) \<ge> BATCH
          then thenA (set_raw ops (batch @ [e])) (read_frames C ops f2 [])
          else read_frames C ops f2 (batch @ [e])))"
  by pat_completeness auto
termination
  by (relation "measure (\<lambda>(C, ops, f, batch). length f)") (auto simp: Let_def)

declare read_frames.simps [simp del]

text \<open>\<open>_read\<close>: the header, then the frames.\<close>

definition read_dump :: "codec \<Rightarrow> 's store_ops \<Rightarrow> bytes \<Rightarrow> ('s, unit) act" where
  "read_dump C ops f =
     (let header = take (length MAGIC + 1) f in
      if take (length MAGIC) header \<noteq> MAGIC then raiseA (ValueError ''not a swarmstate dump (bad header)'')
      else if length header \<le> length MAGIC then raiseA IndexError
      else if header ! length MAGIC \<noteq> FORMAT_VERSION then raiseA (ValueError ''unsupported swarmstate dump version'')
      else read_frames C ops (drop (length MAGIC + 1) f) [])"

text \<open>\<open>load_store\<close> of a path; the target store is the state.\<close>

definition load_store :: "codec \<Rightarrow> 's store_ops \<Rightarrow> directory \<Rightarrow> pystr \<Rightarrow> ('s, unit) act" where
  "load_store C ops dir path =
     (case dir path of None \<Rightarrow> raiseA OSError | Some f \<Rightarrow> read_dump C ops f)"

end
