(* ===== verification/Portability_Laws.thy ===== *)
theory Portability_Laws
  imports Portability
begin

text \<open>
  What reading and writing batches does to the map of entries of any store that keeps the contract,
  and the dump format: packing of frame lengths, reading a sequence of frames, and what happens when
  it is cut short.
\<close>

section \<open>Listings of a map\<close>

text \<open>The entries of the namespaces with a prefix, all of them without one.\<close>

definition selected :: "pystr option \<Rightarrow> content \<Rightarrow> content" where
  "selected pre m = (\<lambda>(ns, k). if (case pre of None \<Rightarrow> True | Some p \<Rightarrow> startswith ns p) then m (ns, k) else None)"

lemma selected_None [simp]: "selected None m = m"
  by (auto simp: selected_def)

lemma selected_Some: "selected pre m (ns, k) = Some v \<Longrightarrow> m (ns, k) = Some v"
  by (auto simp: selected_def split: if_splits)

definition listing :: "entry list \<Rightarrow> content \<Rightarrow> bool" where
  "listing es m \<longleftrightarrow> distinct (map (\<lambda>(ns, k, v). (ns, k)) es) \<and>
     (\<forall>ns k v. (ns, k, v) \<in> set es \<longleftrightarrow> m (ns, k) = Some v)"

lemma listing_upd_all:
  assumes "listing es m"
  shows "upd_all es m0 = m0 ++ m"
proof
  fix p :: "pystr \<times> pystr"
  obtain ns k where p: "p = (ns, k)" by (cases p)
  show "upd_all es m0 p = (m0 ++ m) p"
  proof (cases "m (ns, k)")
    case None
    then have "\<And>v. (ns, k, v) \<notin> set es" using assms by (simp add: listing_def)
    then show ?thesis using None upd_all_other [of ns k es m0] by (simp add: p map_add_def)
  next
    case (Some v)
    then have "(ns, k, v) \<in> set es" using assms by (simp add: listing_def)
    then show ?thesis using assms Some upd_all_in [of es ns k v m0] by (simp add: p listing_def)
  qed
qed

lemma listing_length:
  assumes "listing es m"
  shows "length es = card (dom m)"
proof -
  have "(\<lambda>(ns, k, v). (ns, k)) ` set es = dom m" using assms by (force simp: listing_def)
  then show ?thesis using assms
    by (metis (no_types, lifting) distinct_card length_map list.set_map listing_def)
qed

lemma distinct_concat_owner:
  assumes "distinct nss" "\<And>ns. ns \<in> set nss \<Longrightarrow> distinct (g ns)"
    and "\<And>ns x. ns \<in> set nss \<Longrightarrow> x \<in> set (g ns) \<Longrightarrow> owner x = ns"
  shows "distinct (concat (map g nss))"
  using assms
proof (induction nss)
  case (Cons a nss)
  have "False" if "x \<in> set (g a)" "ns \<in> set nss" "x \<in> set (g ns)" for x ns
    using Cons.prems(3) [of a x] Cons.prems(3) [of ns x] Cons.prems(1) that by simp
  then have "set (g a) \<inter> \<Union> (set ` g ` set nss) = {}" by blast
  moreover have "distinct (concat (map g nss))" using Cons.prems by (intro Cons.IH) auto
  ultimately show ?case using Cons.prems(2) [of a] by simp
qed simp

lemma listing_parts:
  assumes "distinct nss" "\<And>ns. ns \<in> set nss \<Longrightarrow> listing (f ns) (\<lambda>(n, k). if n = ns then m (n, k) else None)"
    and "\<And>ns k. m (ns, k) \<noteq> None \<Longrightarrow> ns \<in> set nss"
  shows "listing (concat (map f nss)) m"
proof -
  have own: "n = ns" if "ns \<in> set nss" "(n, k, v) \<in> set (f ns)" for ns n k v
    using assms(2) [OF that(1)] that(2) by (simp add: listing_def split: if_splits)
  have "distinct (concat (map (\<lambda>ns. map (\<lambda>(ns, k, v). (ns, k)) (f ns)) nss))"
  proof (rule distinct_concat_owner [OF assms(1)])
    show "distinct (map (\<lambda>(ns, k, v). (ns, k)) (f ns))" if "ns \<in> set nss" for ns
      using assms(2) [OF that] by (simp add: listing_def)
    show "fst x = ns" if "ns \<in> set nss" "x \<in> set (map (\<lambda>(ns, k, v). (ns, k)) (f ns))" for ns x
      using that own by force
  qed
  moreover have "(ns, k, v) \<in> set (concat (map f nss)) \<longleftrightarrow> m (ns, k) = Some v" for ns k v
  proof
    assume "(ns, k, v) \<in> set (concat (map f nss))"
    then obtain a where a: "a \<in> set nss" "(ns, k, v) \<in> set (f a)" by auto
    with assms(2) [OF a(1)] own [OF a] show "m (ns, k) = Some v" by (simp add: listing_def)
  next
    assume v: "m (ns, k) = Some v"
    then have "ns \<in> set nss" using assms(3) by blast
    moreover from this v assms(2) [of ns] have "(ns, k, v) \<in> set (f ns)" by (simp add: listing_def)
    ultimately show "(ns, k, v) \<in> set (concat (map f nss))" by auto
  qed
  ultimately show ?thesis by (simp add: listing_def map_concat o_def)
qed

section \<open>Batches of any store\<close>

lemma runs_store_set_many:
  "store_set_many ops es s = (Inr (), s') \<longleftrightarrow> (\<exists>f. op_set_many ops = Some f \<and> f s es = Inr s')"
  by (auto simp: store_set_many_def split: option.splits sum.splits)

text \<open>The contract of the bundled stores: the batch operations and the \<open>prefix\<close> argument are there.\<close>

locale batch_store = store_like ops inv content okt okv
  for ops :: "'s store_ops" and inv content okt okv +
  assumes has_get_many: "op_get_many ops \<noteq> None"
    and has_set_many: "op_set_many ops \<noteq> None"
    and takes_prefix: "\<exists>nss. op_namespaces_prefix ops s p = Inr nss"
begin

lemma read_batch_law:
  assumes "inv s" "set chunk \<subseteq> ns_keys (content s) ns"
  shows "read_batch ops s ns chunk = Inr (map (\<lambda>k. (ns, k, the (content s (ns, k)))) chunk)"
proof -
  obtain g where g: "op_get_many ops = Some g" using has_get_many by blast
  have "List.map_filter (\<lambda>(k, v). if v \<noteq> PNone \<or> op_contains ops s ns k then Some (ns, k, v) else None)
      (zip chunk (map (\<lambda>k. case content s (ns, k) of None \<Rightarrow> PNone | Some v \<Rightarrow> v) chunk)) =
    map (\<lambda>k. (ns, k, the (content s (ns, k)))) chunk"
    using assms(2)
  proof (induction chunk)
    case (Cons k chunk)
    then obtain v where "content s (ns, k) = Some v" by (auto simp: ns_keys_def)
    with Cons show ?case by (simp add: map_filter_simps contains_law [OF assms(1)])
  qed (simp add: map_filter_simps)
  then show ?thesis using get_many_law [OF g assms(1)] by (simp add: read_batch_def g o_def)
qed

lemma entries_law:
  assumes "inv s" "0 < n" "\<And>p. pre = Some p \<Longrightarrow> okt p"
  obtains bss where "entries ops s pre n = Inr (map Inr bss)" "listing (concat bss) (selected pre (content s))"
proof -
  let ?m = "selected pre (content s)"
  obtain nss where nss: "(case pre of None \<Rightarrow> Inr (op_namespaces ops s) | Some p \<Rightarrow> op_namespaces_prefix ops s p) = Inr nss"
    "distinct nss" "set nss = {ns \<in> ns_names (content s). case pre of None \<Rightarrow> True | Some p \<Rightarrow> startswith ns p}"
  proof (cases pre)
    case None
    with namespaces_law [OF assms(1)] that show ?thesis by auto
  next
    case (Some p)
    with assms(3) takes_prefix obtain nss where "okt p" "op_namespaces_prefix ops s p = Inr nss" by blast
    with namespaces_prefix_law [OF assms(1), of p nss] Some that show ?thesis by auto
  qed
  let ?row = "\<lambda>ns k. (ns, k, the (content s (ns, k)))"
  let ?batches = "\<lambda>ns. map (map (?row ns)) (chunks n (op_keys ops s ns))"
  have keys: "distinct (op_keys ops s ns)" "set (op_keys ops s ns) = ns_keys (content s) ns" for ns
    using keys_law [OF assms(1)] by auto
  have "map (read_batch ops s ns) (chunks n (op_keys ops s ns)) = map Inr (?batches ns)" for ns
  proof -
    have "set c \<subseteq> ns_keys (content s) ns" if "c \<in> set (chunks n (op_keys ops s ns))" for c
      using that set_chunks [OF assms(2), of "op_keys ops s ns"] keys(2) [of ns] by blast
    then show ?thesis using read_batch_law [OF assms(1)] by auto
  qed
  then have "map (\<lambda>ns. map (read_batch ops s ns) (chunks n (op_keys ops s ns))) nss = map (map Inr) (map ?batches nss)"
    by simp
  then have "entries ops s pre n = Inr (map Inr (concat (map ?batches nss)))"
    unfolding entries_def nss(1) bindE_simps map_concat by (simp only:)
  moreover have "listing (concat (concat (map ?batches nss))) ?m"
  proof -
    have "concat (concat (map ?batches nss)) = concat (map (\<lambda>ns. concat (?batches ns)) nss)"
      by (induction nss) simp_all
    also have "\<dots> = concat (map (\<lambda>ns. map (?row ns) (op_keys ops s ns)) nss)"
      unfolding map_concat [symmetric] concat_chunks [OF assms(2)] by (rule refl)
    also have "listing \<dots> ?m"
    proof (rule listing_parts [OF nss(2)])
      fix ns assume ns: "ns \<in> set nss"
      show "listing (map (?row ns) (op_keys ops s ns)) (\<lambda>(n, k). if n = ns then ?m (n, k) else None)"
        using keys [of ns] ns nss(3)
        by (auto simp: listing_def selected_def distinct_map inj_on_def ns_keys_def o_def)
    next
      fix ns k assume "?m (ns, k) \<noteq> None"
      then show "ns \<in> set nss"
        using nss(3) by (cases pre) (auto simp: selected_def ns_names_iff split: if_splits)
    qed
    finally show ?thesis .
  qed
  ultimately show ?thesis by (rule that)
qed

lemma set_many_run:
  assumes "inv s" "\<And>ns k v. (ns, k, v) \<in> set es \<Longrightarrow> okt ns \<and> okt k \<and> okv v"
  obtains s' where "store_set_many ops es s = (Inr (), s')" "inv s'" "content s' = upd_all es (content s)"
proof -
  obtain f where f: "op_set_many ops = Some f" using has_set_many by blast
  from set_many_law [OF f assms(1,2)] f that show ?thesis by (auto simp: runs_store_set_many)
qed

lemma copy_batches_run:
  assumes "inv s" "\<And>ns k v. (ns, k, v) \<in> set (concat bss) \<Longrightarrow> okt ns \<and> okt k \<and> okv v"
  shows "\<exists>s'. copy_batches ops (map Inr bss) c s = (Inr (c + length (concat bss)), s') \<and> inv s' \<and>
    content s' = upd_all (concat bss) (content s)"
  using assms
proof (induction bss arbitrary: s c)
  case (Cons b bss)
  obtain s1 where s1: "store_set_many ops b s = (Inr (), s1)" "inv s1" "content s1 = upd_all b (content s)"
  proof (rule set_many_run [OF Cons.prems(1), of b])
    show "okt ns \<and> okt k \<and> okv v" if "(ns, k, v) \<in> set b" for ns k v by (rule Cons.prems(2)) (simp add: that)
  qed
  have ok: "okt ns \<and> okt k \<and> okv v" if "(ns, k, v) \<in> set (concat bss)" for ns k v
    by (rule Cons.prems(2)) (use that in auto)
  from Cons.IH [OF s1(2) ok, of "c + length b"] Cons.IH [OF Cons.prems(1) ok, of c] s1
  show ?case by (cases "b = []") (simp_all add: act_simps upd_all_append add.assoc)
qed (simp add: act_simps)

end

section \<open>Copying between two stores\<close>

locale store_pair =
  src: batch_store sops sinv scontent sokt sokv + dst: batch_store dops dinv dcontent dokt dokv
  for sops :: "'a store_ops" and sinv scontent sokt sokv
    and dops :: "'b store_ops" and dinv dcontent dokt dokv
begin

lemma copy_exact:
  assumes "sinv s" "dinv d" "1 \<le> n" "\<And>p. pre = Some p \<Longrightarrow> sokt p"
    and "\<And>ns k v. selected pre (scontent s) (ns, k) = Some v \<Longrightarrow> dokt ns \<and> dokt k \<and> dokv v"
  shows "\<exists>d'. copy_store sops s dops pre n d = (Inr (card (dom (selected pre (scontent s)))), d') \<and>
    dinv d' \<and> dcontent d' = dcontent d ++ selected pre (scontent s)"
proof -
  obtain bss where bss: "entries sops s pre (nat n) = Inr (map Inr bss)"
      "listing (concat bss) (selected pre (scontent s))"
    using src.entries_law [OF assms(1) _ assms(4), of "nat n"] assms(3) by auto
  have "dokt ns \<and> dokt k \<and> dokv v" if "(ns, k, v) \<in> set (concat bss)" for ns k v
    using that bss(2) assms(5) unfolding listing_def by blast
  from dst.copy_batches_run [OF assms(2), of bss 0] this bss(1) assms(3)
    listing_upd_all [OF bss(2)] listing_length [OF bss(2)]
  show ?thesis by (auto simp: copy_store_def act_simps)
qed

end

section \<open>Frames\<close>

lemma frame_unpack_pack: "frame_pack n = Inr bs \<Longrightarrow> length bs = 4 \<and> frame_unpack bs = n"
proof -
  assume "frame_pack n = Inr bs"
  then have n: "n < 2 ^ 32"
    and bs: "bs = map (\<lambda>i. word_of_nat (n div 256 ^ i mod 256)) [3, 2, 1, 0]"
    by (auto simp: frame_pack_def split: if_splits)
  have u: "unat (word_of_nat (x mod 256) :: 8 word) = x mod 256" for x :: nat
    by (simp add: unat_of_nat)
  have d: "n div 16777216 < 256" using n by simp
  have "256 * (256 * (256 * (n div 16777216) + n div 65536 mod 256) + n div 256 mod 256) + n mod 256 = n"
  proof -
    have "n = 256 * (n div 256) + n mod 256" by simp
    moreover have "n div 256 = 256 * (n div 65536) + n div 256 mod 256"
      using mult_div_mod_eq [of 256 "n div 256"] by (simp add: div_mult2_eq [symmetric])
    moreover have "n div 65536 = 256 * (n div 16777216) + n div 65536 mod 256"
      using mult_div_mod_eq [of 256 "n div 65536"] by (simp add: div_mult2_eq [symmetric])
    ultimately show ?thesis by (metis (no_types, lifting))
  qed
  moreover have "unat (word_of_nat (n div 16777216) :: 8 word) = n div 16777216" using u [of "n div 16777216"] d by simp
  ultimately show ?thesis using d unfolding bs frame_unpack_def by (simp add: u)
qed

text \<open>The bytes of an entry in a dump, and the entries a dump can hold.\<close>

definition entry_bytes :: "codec \<Rightarrow> entry \<Rightarrow> bytes" where
  "entry_bytes C = (\<lambda>(ns, k, v). case encode C (PList [PStr ns, PStr k, v]) of Inl _ \<Rightarrow> [] | Inr b \<Rightarrow> b)"

definition dumpable :: "codec \<Rightarrow> entry \<Rightarrow> bool" where
  "dumpable C e \<longleftrightarrow> (case e of (ns, k, v) \<Rightarrow> storable C (PList [PStr ns, PStr k, v])) \<and>
     length (entry_bytes C e) < 2 ^ 32"

definition framed :: "codec \<Rightarrow> entry \<Rightarrow> bytes" where
  "framed C e = (case frame_pack (length (entry_bytes C e)) of Inl _ \<Rightarrow> [] | Inr b \<Rightarrow> b) @ entry_bytes C e"

definition dump_bytes :: "codec \<Rightarrow> entry list \<Rightarrow> bytes" where
  "dump_bytes C es = MAGIC @ [FORMAT_VERSION] @ concat (map (framed C) es)"

lemma dumpableE:
  assumes "dumpable C (ns, k, v)"
  obtains size b where "encode C (PList [PStr ns, PStr k, v]) = Inr b" "decode C b = Inr (PList [PStr ns, PStr k, v])"
    "frame_pack (length b) = Inr size" "length size = 4" "frame_unpack size = length b"
    "framed C (ns, k, v) = size @ b" "entry_bytes C (ns, k, v) = b"
proof -
  obtain b where b: "encode C (PList [PStr ns, PStr k, v]) = Inr b" "decode C b = Inr (PList [PStr ns, PStr k, v])"
    "length b < 2 ^ 32" "entry_bytes C (ns, k, v) = b"
    using assms by (auto simp: dumpable_def storable_iff entry_bytes_def)
  then obtain size where s: "frame_pack (length b) = Inr size" by (auto simp: frame_pack_def)
  with frame_unpack_pack [OF s] b that show ?thesis by (simp add: framed_def)
qed

lemma write_frame_run:
  assumes "dumpable C e" "length f + length (framed C e) \<le> room"
  shows "write_entry_frame C room e f = (Inr (), f @ framed C e)"
proof -
  obtain ns k v where e: "e = (ns, k, v)" by (cases e)
  from assms(1) [unfolded e] show ?thesis
    by (rule dumpableE) (use assms(2) in \<open>simp add: write_entry_frame_def act_simps f_write_def e\<close>)
qed

lemma write_frames_run:
  assumes "\<forall>e \<in> set es. dumpable C e" "length f + length (concat (map (framed C) es)) \<le> room"
  shows "forA (write_entry_frame C room) es f = (Inr (), f @ concat (map (framed C) es))"
  using assms
proof (induction es arbitrary: f)
  case (Cons e es)
  from Cons.prems have "write_entry_frame C room e f = (Inr (), f @ framed C e)"
    by (intro write_frame_run) auto
  with Cons.IH [of "f @ framed C e"] Cons.prems show ?case by (simp add: act_simps)
qed (simp add: act_simps)

lemma write_batches_run:
  assumes "\<forall>e \<in> set (concat bss). dumpable C e" "length f + length (concat (map (framed C) (concat bss))) \<le> room"
  shows "write_batches C room (map Inr bss) c f =
    (Inr (c + length (concat bss)), f @ concat (map (framed C) (concat bss)))"
  using assms
proof (induction bss arbitrary: f c)
  case (Cons b bss)
  have "forA (write_entry_frame C room) b f = (Inr (), f @ concat (map (framed C) b))"
    using Cons.prems by (intro write_frames_run) auto
  with Cons.IH [of "f @ concat (map (framed C) b)" "c + length b"] Cons.prems
  show ?case by (simp add: act_simps add.assoc)
qed (simp add: act_simps)

text \<open>A writing run that returns has written every frame.\<close>

lemma write_frame_complete:
  assumes "write_entry_frame C room e f = (Inr u, f')"
  shows "f' = f @ framed C e"
proof -
  obtain ns k v where e: "e = (ns, k, v)" by (cases e)
  from assms show ?thesis
    by (auto simp: e write_entry_frame_def act_simps f_write_def framed_def entry_bytes_def
        split: sum.splits if_splits)
qed

lemma write_frames_complete:
  "forA (write_entry_frame C room) es f = (Inr u, f') \<Longrightarrow> f' = f @ concat (map (framed C) es)"
proof (induction es arbitrary: f)
  case (Cons e es)
  then obtain f1 where "write_entry_frame C room e f = (Inr (), f1)"
      "forA (write_entry_frame C room) es f1 = (Inr u, f')"
    by (auto simp: act_simps split: prod.splits sum.splits)
  with Cons.IH [of f1] write_frame_complete [of C room e f] show ?case by simp
qed (simp add: act_simps)

lemma write_batches_complete:
  "write_batches C room (map Inr bss) c f = (Inr n, f') \<Longrightarrow>
   n = c + length (concat bss) \<and> f' = f @ concat (map (framed C) (concat bss))"
proof (induction bss arbitrary: f c)
  case (Cons b bss)
  then obtain f1 where "forA (write_entry_frame C room) b f = (Inr (), f1)"
      "write_batches C room (map Inr bss) (c + length b) f1 = (Inr n, f')"
    by (auto simp: act_simps split: prod.splits sum.splits)
  with Cons.IH [of "c + length b" f1] write_frames_complete [of C room b f] show ?case by simp
qed (simp add: act_simps)

text \<open>A position in a sequence of frames is a boundary or lies strictly inside a frame.\<close>

lemma cut_frames:
  assumes "n \<le> length (concat (map g es))"
  shows "(\<exists>i \<le> length es. n = length (concat (map g (take i es)))) \<or>
    (\<exists>i j. i < length es \<and> 0 < j \<and> j < length (g (es ! i)) \<and>
       take n (concat (map g es)) = concat (map g (take i es)) @ take j (g (es ! i)))"
  using assms
proof (induction es arbitrary: n)
  case (Cons e es)
  consider "n = 0" | "0 < n" "n < length (g e)" | "length (g e) \<le> n" by linarith
  then show ?case
  proof cases
    case 1
    then have "n = length (concat (map g (take 0 (e # es))))" by simp
    then show ?thesis by blast
  next
    case 2
    then have "take n (concat (map g (e # es))) = concat (map g (take 0 (e # es))) @ take n (g ((e # es) ! 0))" by simp
    with 2 show ?thesis by (metis length_greater_0_conv list.simps(3) nth_Cons_0)
  next
    case 3
    from Cons.prems have "n - length (g e) \<le> length (concat (map g es))" by simp
    from Cons.IH [OF this] show ?thesis
    proof (elim disjE exE conjE)
      fix i assume i: "i \<le> length es" "n - length (g e) = length (concat (map g (take i es)))"
      with 3 have "n = length (concat (map g (take (Suc i) (e # es))))" by simp
      with i(1) show ?thesis by (metis Suc_le_mono length_Cons)
    next
      fix i j assume i: "i < length es" "0 < j" "j < length (g (es ! i))"
        "take (n - length (g e)) (concat (map g es)) = concat (map g (take i es)) @ take j (g (es ! i))"
      with 3 have "take n (concat (map g (e # es))) =
          concat (map g (take (Suc i) (e # es))) @ take j (g ((e # es) ! Suc i))" by simp
      with i(1-3) show ?thesis by (metis Suc_mono length_Cons nth_Cons_Suc)
    qed
  qed
qed simp

section \<open>Reading frames\<close>

abbreviation raw :: "entry \<Rightarrow> raw_entry" where
  "raw \<equiv> \<lambda>(ns, k, v). (PStr ns, PStr k, v)"

lemma set_raw_entries: "set_raw ops (map raw es) = store_set_many ops es"
proof -
  have "mapE (\<lambda>(a, b, v). bindE (as_str a) (\<lambda>ns. bindE (as_str b) (\<lambda>k. Inr (ns, k, v)))) (map raw es) = Inr es"
    by (induction es) auto
  then show ?thesis by (simp add: set_raw_def fun_eq_iff act_simps)
qed

lemma read_frames_Nil: "read_frames C ops [] batch = (if batch \<noteq> [] then set_raw ops batch else retA ())"
  by (subst read_frames.simps) simp

lemma read_frames_step:
  assumes "dumpable C e"
  shows "read_frames C ops (framed C e @ rest) batch =
    (if length batch + 1 \<ge> BATCH then thenA (set_raw ops (batch @ [raw e])) (read_frames C ops rest [])
     else read_frames C ops rest (batch @ [raw e]))"
proof -
  obtain ns k v where e: "e = (ns, k, v)" by (cases e)
  from assms [unfolded e] show ?thesis
  proof (rule dumpableE, goal_cases)
    case (1 size b)
    then have "size \<noteq> []" by auto
    with 1 show ?case
      by (subst read_frames.simps) (simp add: e dump_entry_def fun_eq_iff act_simps)
  qed
qed

lemma read_frames_cut:
  assumes "dumpable C e" "0 < j" "j < length (framed C e)"
  shows "read_frames C ops (take j (framed C e)) batch = raiseA (ValueError ''truncated swarmstate dump'')"
proof -
  obtain ns k v where e: "e = (ns, k, v)" by (cases e)
  from assms(1) [unfolded e] show ?thesis
  proof (rule dumpableE, goal_cases)
    case (1 size b)
    show ?case
    proof (cases "j < 4")
      case True
      with 1 assms(2) have "take 4 (take j (framed C e)) \<noteq> []" "length (take 4 (take j (framed C e))) = j"
        by (auto simp: e)
      with True show ?thesis by (subst read_frames.simps) (simp add: Let_def)
    next
      case False
      with 1 assms(3) have "take j (framed C e) = size @ take (j - 4) b" "j - 4 < length b" "size \<noteq> []"
        by (auto simp: e)
      with 1 show ?thesis by (subst read_frames.simps) (simp add: Let_def)
    qed
  qed
qed

context batch_store
begin

lemma read_frames_run:
  assumes "inv s" "\<forall>e \<in> set es. dumpable C e"
    and "\<And>ns k v. (ns, k, v) \<in> set (batch @ es) \<Longrightarrow> okt ns \<and> okt k \<and> okv v"
  shows "\<exists>s'. read_frames C ops (concat (map (framed C) es)) (map raw batch) s = (Inr (), s') \<and> inv s' \<and>
    content s' = upd_all (batch @ es) (content s)"
  using assms
proof (induction es arbitrary: batch s)
  case Nil
  obtain s' where "store_set_many ops batch s = (Inr (), s')" "inv s'" "content s' = upd_all batch (content s)"
    by (rule set_many_run [OF Nil.prems(1), of batch]) (use Nil.prems(3) in simp)+
  with Nil.prems(1) show ?case by (cases "batch = []") (auto simp: read_frames_Nil set_raw_entries act_simps)
next
  case (Cons e es)
  have d: "dumpable C e" using Cons.prems(2) by simp
  note step = read_frames_step [OF d, of ops "concat (map (framed C) es)" "map raw batch"]
  have m: "map raw batch @ [raw e] = map raw (batch @ [e])" by simp
  have ok: "okt ns \<and> okt k \<and> okv v" if "(ns, k, v) \<in> set (batch @ [e]) \<union> set es" for ns k v
    by (rule Cons.prems(3)) (use that in auto)
  show ?case
  proof (cases "BATCH \<le> length batch + 1")
    case True
    obtain s1 where s1: "store_set_many ops (batch @ [e]) s = (Inr (), s1)" "inv s1"
        "content s1 = upd_all (batch @ [e]) (content s)"
      by (rule set_many_run [OF Cons.prems(1), of "batch @ [e]"]) (use ok in blast)+
    obtain s' where "read_frames C ops (concat (map (framed C) es)) (map raw []) s1 = (Inr (), s')" "inv s'"
        "content s' = upd_all ([] @ es) (content s1)"
      using Cons.IH [OF s1(2), of "[]"] Cons.prems(2) ok by auto
    with s1 True show ?thesis
      using upd_all_append [of "[e]" es "upd_all batch (content s)"]
      by (simp add: step m set_raw_entries act_simps upd_all_append del: map_append)
  next
    case False
    have "\<exists>s'. read_frames C ops (concat (map (framed C) es)) (map raw (batch @ [e])) s = (Inr (), s') \<and> inv s' \<and>
        content s' = upd_all ((batch @ [e]) @ es) (content s)"
      using Cons.prems(2) ok by (intro Cons.IH [OF Cons.prems(1)]) auto
    with False show ?thesis by (simp add: step)
  qed
qed

lemma read_frames_truncated:
  assumes "inv s" "\<forall>e \<in> set (es @ [e]). dumpable C e" "0 < j" "j < length (framed C e)"
    and "\<And>ns k v. (ns, k, v) \<in> set (batch @ es) \<Longrightarrow> okt ns \<and> okt k \<and> okv v"
  shows "\<exists>s'. read_frames C ops (concat (map (framed C) es) @ take j (framed C e)) (map raw batch) s =
    (Inl (ValueError ''truncated swarmstate dump''), s')"
  using assms
proof (induction es arbitrary: batch s)
  case Nil
  then show ?case using read_frames_cut [of C e j ops "map raw batch"] by (simp add: act_simps)
next
  case (Cons x es)
  have d: "dumpable C x" using Cons.prems(2) by simp
  note step = read_frames_step [OF d, of ops "concat (map (framed C) es) @ take j (framed C e)" "map raw batch"]
  have m: "map raw batch @ [raw x] = map raw (batch @ [x])" by simp
  have ok: "okt ns \<and> okt k \<and> okv v" if "(ns, k, v) \<in> set (batch @ [x]) \<union> set es" for ns k v
    by (rule Cons.prems(5)) (use that in auto)
  show ?case
  proof (cases "BATCH \<le> length batch + 1")
    case True
    obtain s1 where s1: "store_set_many ops (batch @ [x]) s = (Inr (), s1)" "inv s1"
      by (rule set_many_run [OF Cons.prems(1), of "batch @ [x]"]) (use ok in blast)+
    obtain s' where "read_frames C ops (concat (map (framed C) es) @ take j (framed C e)) (map raw []) s1 =
        (Inl (ValueError ''truncated swarmstate dump''), s')"
      using Cons.IH [OF s1(2) _ Cons.prems(3,4), of "[]"] Cons.prems(2) ok by auto
    with s1 True show ?thesis by (simp add: step m set_raw_entries act_simps del: map_append)
  next
    case False
    have "\<exists>s'. read_frames C ops (concat (map (framed C) es) @ take j (framed C e)) (map raw (batch @ [x])) s =
        (Inl (ValueError ''truncated swarmstate dump''), s')"
      using Cons.prems(2) ok by (intro Cons.IH [OF Cons.prems(1) _ Cons.prems(3,4)]) auto
    with False show ?thesis by (simp add: step)
  qed
qed

lemma write_dump_complete:
  assumes "inv s" "\<And>p. pre = Some p \<Longrightarrow> okt p"
    and "write_dump C room ops s pre [] = (Inr n, f)"
  shows "\<exists>es. listing es (selected pre (content s)) \<and> n = length es \<and> f = dump_bytes C es"
proof -
  obtain bss where bss: "entries ops s pre BATCH = Inr (map Inr bss)" "listing (concat bss) (selected pre (content s))"
    using entries_law [OF assms(1) _ assms(2), of BATCH] by (auto simp: BATCH_def)
  have "write_batches C room (map Inr bss) 0 (MAGIC @ [FORMAT_VERSION]) = (Inr n, f)"
    using assms(3) by (auto simp: write_dump_def act_simps bss(1) f_write_def split: if_splits)
  from write_batches_complete [OF this] bss(2) show ?thesis by (auto simp: dump_bytes_def)
qed

lemma write_dump_run:
  assumes "inv s" "\<And>p. pre = Some p \<Longrightarrow> okt p"
    and "\<And>ns k v. selected pre (content s) (ns, k) = Some v \<Longrightarrow> dumpable C (ns, k, v)"
    and "\<And>es. listing es (selected pre (content s)) \<Longrightarrow> length (dump_bytes C es) \<le> room"
  shows "\<exists>es. listing es (selected pre (content s)) \<and> write_dump C room ops s pre [] = (Inr (length es), dump_bytes C es)"
proof -
  obtain bss where bss: "entries ops s pre BATCH = Inr (map Inr bss)" "listing (concat bss) (selected pre (content s))"
    using entries_law [OF assms(1) _ assms(2), of BATCH] by (auto simp: BATCH_def)
  have d: "\<forall>e \<in> set (concat bss). dumpable C e" using bss(2) assms(3) unfolding listing_def by (metis prod_cases3)
  have room: "length (MAGIC @ [FORMAT_VERSION]) + length (concat (map (framed C) (concat bss))) \<le> room"
    using assms(4) [OF bss(2)] by (simp add: dump_bytes_def)
  have "write_dump C room ops s pre [] = (Inr (length (concat bss)), dump_bytes C (concat bss))"
    using write_batches_run [OF d room, of 0] room
    by (simp add: write_dump_def act_simps bss(1) f_write_def dump_bytes_def)
  with bss(2) show ?thesis by blast
qed

lemma read_dump_run:
  assumes "inv s" "\<forall>e \<in> set es. dumpable C e"
    and "\<And>ns k v. (ns, k, v) \<in> set es \<Longrightarrow> okt ns \<and> okt k \<and> okv v"
  shows "\<exists>s'. read_dump C ops (dump_bytes C es) s = (Inr (), s') \<and> inv s' \<and> content s' = upd_all es (content s)"
  using read_frames_run [OF assms(1,2), of "[]"] assms(3)
  by (simp add: read_dump_def dump_bytes_def Let_def MAGIC_def)

lemma read_dump_cut:
  assumes "inv s" "\<forall>e \<in> set es. dumpable C e"
    and "\<And>ns k v. (ns, k, v) \<in> set es \<Longrightarrow> okt ns \<and> okt k \<and> okv v"
    and "length MAGIC < n" "n \<le> length (dump_bytes C es)"
    and "\<forall>i \<le> length es. n \<noteq> length (dump_bytes C (take i es))"
  shows "\<exists>s'. read_dump C ops (take n (dump_bytes C es)) s = (Inl (ValueError ''truncated swarmstate dump''), s')"
proof -
  let ?m = "n - (length MAGIC + 1)" and ?g = "framed C"
  have "?m \<le> length (concat (map ?g es))" using assms(4,5) by (simp add: dump_bytes_def)
  moreover have "\<not> (\<exists>i \<le> length es. ?m = length (concat (map ?g (take i es))))"
    using assms(4,6) by (auto simp: dump_bytes_def)
  ultimately obtain i j where ij: "i < length es" "0 < j" "j < length (?g (es ! i))"
      "take ?m (concat (map ?g es)) = concat (map ?g (take i es)) @ take j (?g (es ! i))"
    using cut_frames [of ?m ?g es] by blast
  have "\<forall>e \<in> set (take i es @ [es ! i]). dumpable C e"
    using assms(2) ij(1) by (auto dest: in_set_takeD)
  moreover have "okt ns \<and> okt k \<and> okv v" if "(ns, k, v) \<in> set ([] @ take i es)" for ns k v
    by (rule assms(3)) (use that in \<open>auto dest: in_set_takeD\<close>)
  ultimately have "\<exists>s'. read_frames C ops (take ?m (concat (map ?g es))) (map raw []) s =
      (Inl (ValueError ''truncated swarmstate dump''), s')"
    unfolding ij(4) by (rule read_frames_truncated [OF assms(1) _ ij(2,3)])
  moreover have "take n (dump_bytes C es) = MAGIC @ [FORMAT_VERSION] @ take ?m (concat (map ?g es))"
    using assms(4) by (simp add: dump_bytes_def MAGIC_def take_Cons')
  ultimately show ?thesis by (simp add: read_dump_def Let_def MAGIC_def)
qed

end

end
