(* ===== verification/Portability_Props.thy ===== *)
theory Portability_Props
  imports Portability_Laws Disk_Store_Props
begin

text \<open>
  Moving state: copying the in-memory store into a SQLite store, dump files and their round trip,
  what an interrupted dump leaves behind, and what a truncated file loads.
\<close>

interpretation mem_batch: batch_store "mem_ops C h" "mem_inv C h" "mem_content C h" is_text "storable C"
  for C :: codec and h :: "pystr \<Rightarrow> nat"
  by unfold_locales (simp_all add: mem_ops_def)

interpretation disk_batch: batch_store "disk_ops C" "disk_inv C" "disk_content C" is_text "storable C" for C :: codec
  by unfold_locales (simp_all add: disk_ops_def)

interpretation mem_to_disk: store_pair "mem_ops C h" "mem_inv C h" "mem_content C h" is_text "storable C"
    "disk_ops D" "disk_inv D" "disk_content D" is_text "storable D"
  for C :: codec and h :: "pystr \<Rightarrow> nat" and D :: codec
  by unfold_locales

lemma selected_text:
  "mem_inv C h s \<Longrightarrow> selected pre (mem_content C h s) (ns, k) = Some v \<Longrightarrow> is_text ns \<and> is_text k"
  using mem.text_law [of C h s ns k] by (auto dest: selected_Some)

text \<open>
  C17. \<open>copy_store\<close> from the in-memory store to a SQLite store, whole or restricted to a namespace
  prefix and in batches of any size: it returns the number of selected entries, and afterwards the
  destination holds exactly its old entries overwritten by the selected ones, stored \<open>None\<close> values
  included.
\<close>

theorem copy_mem_to_disk:
  assumes "mem_inv C h s" "disk_inv D d" "1 \<le> n" "\<forall>p. pre = Some p \<longrightarrow> is_text p"
    and "\<forall>ns k v. selected pre (mem_content C h s) (ns, k) = Some v \<longrightarrow> storable D v"
  shows "\<exists>d'. copy_store (mem_ops C h) s (disk_ops D) pre n d =
      (Inr (card (dom (selected pre (mem_content C h s)))), d') \<and> disk_inv D d' \<and>
    (\<forall>ns k v. disk_get D d' ns k v = Inr (case selected pre (mem_content C h s) (ns, k) of
       Some x \<Rightarrow> x | None \<Rightarrow> (case disk_content D d (ns, k) of Some x \<Rightarrow> x | None \<Rightarrow> v)))"
proof -
  have "\<exists>d'. copy_store (mem_ops C h) s (disk_ops D) pre n d =
      (Inr (card (dom (selected pre (mem_content C h s)))), d') \<and> disk_inv D d' \<and>
    disk_content D d' = disk_content D d ++ selected pre (mem_content C h s)"
    by (rule mem_to_disk.copy_exact) (use assms selected_text [OF assms(1), of pre] in auto)
  then show ?thesis
    using disk.get_law [of D] by (auto simp: disk_ops_def map_add_def split: option.splits)
qed

text \<open>Witness of C17: a stored \<open>None\<close> and a stored \<open>True\<close>, copied one at a time.\<close>

lemma ex_two_entries:
  obtains s where "mem_inv flag_codec sum_list s"
    "mem_content flag_codec sum_list s = [([97], [98]) \<mapsto> PNone, ([99], [100]) \<mapsto> PBool True]"
    "do_wops (mem_ops flag_codec sum_list) [WSet [97] [98] PNone, WSet [99] [100] (PBool True)] empty_mem = Inr s"
  using mem.do_wops_law [OF empty_mem_ok(1) mem_has_batch, of "[WSet [97] [98] PNone, WSet [99] [100] (PBool True)]" flag_codec sum_list]
  by (auto simp: scalar_def empty_mem_ok(2))

theorem copy_mem_to_disk_witness:
  "\<exists>s d'. do_wops (mem_ops flag_codec sum_list) [WSet [97] [98] PNone, WSet [99] [100] (PBool True)] empty_mem = Inr s \<and>
     copy_store (mem_ops flag_codec sum_list) s (disk_ops flag_codec) (Some [97]) 1 empty_disk = (Inr 1, d') \<and>
     disk_get flag_codec d' [97] [98] (PInt 0) = Inr PNone \<and> disk_get flag_codec d' [99] [100] (PInt 0) = Inr (PInt 0)"
proof -
  obtain s where s: "mem_inv flag_codec sum_list s"
    "mem_content flag_codec sum_list s = [([97], [98]) \<mapsto> PNone, ([99], [100]) \<mapsto> PBool True]"
    "do_wops (mem_ops flag_codec sum_list) [WSet [97] [98] PNone, WSet [99] [100] (PBool True)] empty_mem = Inr s"
    by (rule ex_two_entries)
  have sel: "selected (Some [97]) (mem_content flag_codec sum_list s) = [([97], [98]) \<mapsto> PNone]"
    unfolding s(2) by (auto simp: selected_def startswith_def fun_eq_iff)
  have p: "\<forall>p. Some [97] = Some p \<longrightarrow> is_text p" by (simp add: scalar_def)
  have v: "\<forall>ns k v. selected (Some [97]) (mem_content flag_codec sum_list s) (ns, k) = Some v \<longrightarrow> storable flag_codec v"
    unfolding sel by auto
  from copy_mem_to_disk [OF s(1) empty_disk_ok(1) _ p v, of 1] s(3) show ?thesis
    unfolding sel by (auto simp: empty_disk_ok(2))
qed

section \<open>Dump files\<close>

lemma path_not_tmp [simp]: "path \<noteq> tmp_path path" "tmp_path path \<noteq> path"
  by (simp_all add: tmp_path_def)

text \<open>
  C18. A dump round trip: when every selected entry can be encoded in a frame and the device has
  room for the file, \<open>dump_store\<close> of the in-memory store succeeds and returns the number of entries,
  and \<open>load_store\<close> of the file into any in-memory store (with its own shard hash) overwrites exactly
  the selected entries there; loaded into an empty store this is a copy of the selection.
\<close>

theorem dump_load_roundtrip:
  assumes "mem_inv C h s" "\<forall>p. pre = Some p \<longrightarrow> is_text p"
    and "\<forall>ns k v. selected pre (mem_content C h s) (ns, k) = Some v \<longrightarrow> storable C v \<and> dumpable C (ns, k, v)"
    and "\<forall>es. listing es (selected pre (mem_content C h s)) \<longrightarrow> length (dump_bytes C es) \<le> room"
    and "mem_inv C h' st"
  shows "\<exists>dir' st'. dump_store C room (mem_ops C h) s path pre dir =
      (Inr (card (dom (selected pre (mem_content C h s)))), dir') \<and>
    load_store C (mem_ops C h') dir' path st = (Inr (), st') \<and> mem_inv C h' st' \<and>
    mem_content C h' st' = mem_content C h' st ++ selected pre (mem_content C h s)"
proof -
  let ?m = "selected pre (mem_content C h s)"
  have "\<exists>es. listing es ?m \<and> write_dump C room (mem_ops C h) s pre [] = (Inr (length es), dump_bytes C es)"
    by (rule mem_batch.write_dump_run [OF assms(1)]) (use assms(2-4) in auto)
  then obtain es where es: "listing es ?m" "write_dump C room (mem_ops C h) s pre [] = (Inr (length es), dump_bytes C es)"
    by blast
  have ok: "is_text ns \<and> is_text k \<and> storable C v \<and> dumpable C (ns, k, v)" if "(ns, k, v) \<in> set es" for ns k v
  proof -
    have "?m (ns, k) = Some v" using that es(1) by (simp add: listing_def)
    with assms(3) selected_text [OF assms(1)] show ?thesis by blast
  qed
  then have "\<forall>e \<in> set es. dumpable C e" by auto
  from mem_batch.read_dump_run [OF assms(5) this] ok
  obtain st' where "read_dump C (mem_ops C h') (dump_bytes C es) st = (Inr (), st')" "mem_inv C h' st'"
      "mem_content C h' st' = upd_all es (mem_content C h' st)" by blast
  with es show ?thesis
    by (auto simp: dump_store_def load_store_def listing_upd_all listing_length)
qed

text \<open>The codec of the witness knows two entries and their values.\<close>

definition dump_codec :: codec where
  "dump_codec = table_codec [PNone, PList [PStr [97], PStr [98], PNone]]"

lemma dump_codec_ok: "storable dump_codec PNone" "dumpable dump_codec ([97], [98], PNone)"
  "length (framed dump_codec ([97], [98], PNone)) = 5"
proof -
  show "storable dump_codec PNone" unfolding dump_codec_def by (rule table_codec_storable) simp
  have st: "storable dump_codec (PList [PStr [97], PStr [98], PNone])"
    unfolding dump_codec_def by (rule table_codec_storable) simp
  moreover have b: "entry_bytes dump_codec ([97], [98], PNone) = [0]"
    by (simp add: entry_bytes_def dump_codec_def table_codec_def)
  ultimately show d: "dumpable dump_codec ([97], [98], PNone)" by (simp add: dumpable_def)
  show "length (framed dump_codec ([97], [98], PNone)) = 5"
    using b by (simp add: framed_def frame_pack_def)
qed

lemma listing_single: "listing es [(ns, k) \<mapsto> v] \<longleftrightarrow> es = [(ns, k, v)]"
proof
  assume l: "listing es [(ns, k) \<mapsto> v]"
  then have "e \<in> set es \<longleftrightarrow> e = (ns, k, v)" for e
    by (cases e) (simp add: listing_def; blast)
  then have "set es = {(ns, k, v)}" by blast
  moreover have "distinct es" using l by (simp add: listing_def distinct_map)
  ultimately have "set es = {(ns, k, v)}" "distinct es" by auto
  then show "es = [(ns, k, v)]" by (cases es; cases "tl es") auto
qed (auto simp: listing_def)

lemma ex_one_entry:
  obtains s where "mem_inv dump_codec sum_list s" "mem_content dump_codec sum_list s = [([97], [98]) \<mapsto> PNone]"
    "mem_set dump_codec sum_list empty_mem [97] [98] PNone = Inr s"
  using mem.set_law [OF empty_mem_ok(1), of "[97]" "[98]" dump_codec PNone sum_list] dump_codec_ok(1)
  by (auto simp: scalar_def empty_mem_ok(2) mem_ops_def)

theorem dump_load_roundtrip_witness:
  "\<exists>s dir' st'. mem_set dump_codec sum_list empty_mem [97] [98] PNone = Inr s \<and>
     dump_store dump_codec 13 (mem_ops dump_codec sum_list) s [102] None Map.empty = (Inr 1, dir') \<and>
     load_store dump_codec (mem_ops dump_codec length) dir' [102] empty_mem = (Inr (), st') \<and>
     mem_content dump_codec length st' = [([97], [98]) \<mapsto> PNone]"
proof -
  obtain s where s: "mem_inv dump_codec sum_list s" "mem_content dump_codec sum_list s = [([97], [98]) \<mapsto> PNone]"
    "mem_set dump_codec sum_list empty_mem [97] [98] PNone = Inr s"
    by (rule ex_one_entry)
  have p: "\<forall>p. None = Some p \<longrightarrow> is_text p" by simp
  have v: "\<forall>ns k v. selected None (mem_content dump_codec sum_list s) (ns, k) = Some v \<longrightarrow>
      storable dump_codec v \<and> dumpable dump_codec (ns, k, v)"
    using dump_codec_ok by (auto simp: s(2) split: if_splits)
  have room: "\<forall>es. listing es (selected None (mem_content dump_codec sum_list s)) \<longrightarrow> length (dump_bytes dump_codec es) \<le> 13"
    by (simp add: s(2) listing_single dump_bytes_def dump_codec_ok(3) MAGIC_def)
  from dump_load_roundtrip [where h' = length, OF s(1) p v room empty_mem_ok(1), of "[102]" Map.empty] s(3)
  show ?thesis by (auto simp: s(2) empty_mem_ok(2))
qed



text \<open>
  C20. Loading the first \<open>n\<close> bytes of a dump of \<open>es\<close>. Shorter than the magic: \<open>ValueError\<close>. Exactly
  the magic: \<open>IndexError\<close>. Cut at the end of the \<open>i\<close>-th frame: the first \<open>i\<close> entries are loaded
  and nothing is reported, since the format has no count or end marker. Anywhere else:
  \<open>ValueError\<close> (truncated).
\<close>

theorem load_truncated_dump:
  assumes "mem_inv C h st" "n \<le> length (dump_bytes C es)"
    and "\<forall>(ns, k, v) \<in> set es. is_text ns \<and> is_text k \<and> storable C v \<and> dumpable C (ns, k, v)"
  shows "(n < 7 \<longrightarrow> read_dump C (mem_ops C h) (take n (dump_bytes C es)) st =
        (Inl (ValueError ''not a swarmstate dump (bad header)''), st)) \<and>
    (n = 7 \<longrightarrow> read_dump C (mem_ops C h) (take n (dump_bytes C es)) st = (Inl IndexError, st)) \<and>
    (\<forall>i \<le> length es. n = length (dump_bytes C (take i es)) \<longrightarrow>
       (\<exists>st'. read_dump C (mem_ops C h) (take n (dump_bytes C es)) st = (Inr (), st') \<and> mem_inv C h st' \<and>
          mem_content C h st' = upd_all (take i es) (mem_content C h st))) \<and>
    (7 < n \<and> (\<forall>i \<le> length es. n \<noteq> length (dump_bytes C (take i es))) \<longrightarrow>
       (\<exists>st'. read_dump C (mem_ops C h) (take n (dump_bytes C es)) st =
          (Inl (ValueError ''truncated swarmstate dump''), st')))"
proof (intro conjI impI allI)
  have ok: "is_text ns \<and> is_text k \<and> storable C v" if "(ns, k, v) \<in> set es" for ns k v using that assms(3) by blast
  have d: "\<forall>e \<in> set es. dumpable C e" using assms(3) by fastforce
  show "read_dump C (mem_ops C h) (take n (dump_bytes C es)) st = (Inl (ValueError ''not a swarmstate dump (bad header)''), st)"
    if "n < 7"
  proof -
    have "length (take (length MAGIC) (take (length MAGIC + 1) (take n (dump_bytes C es)))) < length MAGIC"
      using that by (simp add: MAGIC_def)
    then have "take (length MAGIC) (take (length MAGIC + 1) (take n (dump_bytes C es))) \<noteq> MAGIC" by (metis less_irrefl)
    then show ?thesis unfolding read_dump_def Let_def by (simp add: act_simps)
  qed
  show "read_dump C (mem_ops C h) (take n (dump_bytes C es)) st = (Inl IndexError, st)" if "n = 7"
    using that by (simp add: read_dump_def dump_bytes_def MAGIC_def Let_def act_simps)
  show "\<exists>st'. read_dump C (mem_ops C h) (take n (dump_bytes C es)) st = (Inr (), st') \<and> mem_inv C h st' \<and>
      mem_content C h st' = upd_all (take i es) (mem_content C h st)"
    if "i \<le> length es" "n = length (dump_bytes C (take i es))" for i
  proof -
    have "dump_bytes C es = dump_bytes C (take i es) @ concat (map (framed C) (drop i es))"
      by (simp add: dump_bytes_def) (metis append_take_drop_id concat_append map_append)
    then have "take n (dump_bytes C es) = dump_bytes C (take i es)" using that(2) by simp
    moreover have "\<forall>e \<in> set (take i es). dumpable C e" using d by (auto dest: in_set_takeD)
    moreover have "is_text ns \<and> is_text k \<and> storable C v" if "(ns, k, v) \<in> set (take i es)" for ns k v
      using in_set_takeD [OF that] by (rule ok)
    ultimately show ?thesis using mem_batch.read_dump_run [OF assms(1), of "take i es" C] by simp
  qed
  show "\<exists>st'. read_dump C (mem_ops C h) (take n (dump_bytes C es)) st = (Inl (ValueError ''truncated swarmstate dump''), st')"
    if "7 < n \<and> (\<forall>i \<le> length es. n \<noteq> length (dump_bytes C (take i es)))"
    using mem_batch.read_dump_cut [OF assms(1) d ok, of n] assms(2) that by (simp add: MAGIC_def)
qed

text \<open>Witness of C20: the dump of one entry, cut everywhere.\<close>

theorem load_truncated_dump_witness:
  "read_dump dump_codec (mem_ops dump_codec sum_list) (take 7 (dump_bytes dump_codec [([97], [98], PNone)])) empty_mem =
     (Inl IndexError, empty_mem) \<and>
   (\<exists>st'. read_dump dump_codec (mem_ops dump_codec sum_list) (take 8 (dump_bytes dump_codec [([97], [98], PNone)])) empty_mem = (Inr (), st')) \<and>
   (\<exists>st'. read_dump dump_codec (mem_ops dump_codec sum_list) (take 11 (dump_bytes dump_codec [([97], [98], PNone)])) empty_mem =
     (Inl (ValueError ''truncated swarmstate dump''), st'))"
proof -
  let ?es = "[([97], [98], PNone)]"
  have l: "length (dump_bytes dump_codec ?es) = 13" "length (dump_bytes dump_codec []) = 8"
    by (simp_all add: dump_bytes_def dump_codec_ok(3) MAGIC_def)
  have ok: "\<forall>(ns, k, v) \<in> set ?es. is_text ns \<and> is_text k \<and> storable dump_codec v \<and> dumpable dump_codec (ns, k, v)"
    by (simp add: dump_codec_ok scalar_def)
  have b: "i \<le> length ?es \<Longrightarrow> length (dump_bytes dump_codec (take i ?es)) = (if i = 0 then 8 else 13)" for i
    by (cases i) (simp_all add: l)
  have n: "7 \<le> length (dump_bytes dump_codec ?es)" "8 \<le> length (dump_bytes dump_codec ?es)"
      "11 \<le> length (dump_bytes dump_codec ?es)" by (simp_all add: l)
  have i0: "8 = length (dump_bytes dump_codec (take 0 ?es))" by (simp add: l)
  have nb: "7 < (11 :: nat) \<and> (\<forall>i \<le> length ?es. 11 \<noteq> length (dump_bytes dump_codec (take i ?es)))" using b by simp
  have "read_dump dump_codec (mem_ops dump_codec sum_list) (take 7 (dump_bytes dump_codec ?es)) empty_mem = (Inl IndexError, empty_mem)"
    by (rule load_truncated_dump [OF empty_mem_ok(1) n(1) ok, THEN conjunct2, THEN conjunct1, THEN mp, OF refl])
  moreover have "\<exists>st'. read_dump dump_codec (mem_ops dump_codec sum_list) (take 8 (dump_bytes dump_codec ?es)) empty_mem = (Inr (), st')"
    using load_truncated_dump [OF empty_mem_ok(1) n(2) ok, THEN conjunct2, THEN conjunct2, THEN conjunct1, THEN spec,
        THEN mp, OF le0, THEN mp, OF i0] by blast
  moreover have "\<exists>st'. read_dump dump_codec (mem_ops dump_codec sum_list) (take 11 (dump_bytes dump_codec ?es)) empty_mem =
      (Inl (ValueError ''truncated swarmstate dump''), st')"
    by (rule load_truncated_dump [OF empty_mem_ok(1) n(3) ok, THEN conjunct2, THEN conjunct2, THEN conjunct2, THEN mp, OF nb])
  ultimately show ?thesis by blast
qed

end
