(* ===== verification/Crew.thy ===== *)
theory Crew
  imports Store_Contract "HOL-Library.Product_Lexorder"
begin

text \<open>
  \<^verbatim>\<open>src/python/swarmstate/integrations/crewai.py\<close>: a keyword memory kept in one namespace of a
  store. Parameters (\<open>crew_env\<close>): \<open>str.lower\<close> (the Unicode tables), \<open>str(v)\<close> of arbitrary values,
  and float arithmetic: the quotient of two integers, zero, and rounding to four places, over any
  linearly ordered type of scores. The eight hexadecimal digits of a random UUID are an argument of
  \<open>save\<close>. The lock around the counter is not modelled: each call runs alone.
\<close>

record 'f crew_env =
  ce_lower :: "pystr \<Rightarrow> pystr"
  ce_str :: "pyval \<Rightarrow> pystr"
  ce_div :: "nat \<Rightarrow> nat \<Rightarrow> 'f"
  ce_zero :: 'f
  ce_round :: "'f \<Rightarrow> 'f"

record 's crew =
  cr_store :: 's
  cr_namespace :: pystr
  cr_seq :: "int option"

section \<open>Tokens\<close>

text \<open>\<open>re.findall("[a-z0-9]+", text)\<close>: the maximal runs of lower case letters and digits.\<close>

definition token_char :: "nat \<Rightarrow> bool" where
  "token_char c \<longleftrightarrow> (97 \<le> c \<and> c \<le> 122) \<or> (48 \<le> c \<and> c \<le> 57)"

function find_tokens :: "pystr \<Rightarrow> pystr list" where
  "find_tokens s =
     (let t = dropWhile (\<lambda>c. \<not> token_char c) s
      in if t = [] then [] else takeWhile token_char t # find_tokens (dropWhile token_char t))"
  by pat_completeness auto
termination
proof (relation "measure length", goal_cases)
  case (2 s t)
  then have "token_char (hd t)" by (metis hd_dropWhile)
  with 2(2) have "length (dropWhile token_char t) < length t"
    by (cases t) (auto simp: le_imp_less_Suc length_dropWhile_le)
  also have "\<dots> \<le> length s" using 2(1) by (simp add: length_dropWhile_le)
  finally show ?case by simp
qed simp

declare find_tokens.simps [simp del]

definition tokens :: "'f crew_env \<Rightarrow> pystr \<Rightarrow> pystr set" where
  "tokens CE text = set (find_tokens (ce_lower CE text))"

section \<open>Keys\<close>

text \<open>\<open>f"{seq:012d}-{suffix}"\<close> for a positive number.\<close>

definition pad12 :: "int \<Rightarrow> pystr" where
  "pad12 seq = (let d = show_int seq in replicate (12 - length d) 48 @ d)"

definition memory_key :: "int \<Rightarrow> pystr \<Rightarrow> pystr" where
  "memory_key seq suffix = pad12 seq @ 45 # suffix"

text \<open>\<open>key.split("-", 1)[0]\<close> as an integer.\<close>

definition key_seq :: "pystr \<Rightarrow> exc + int" where
  "key_seq key = parse_int (takeWhile (\<lambda>c. c \<noteq> 45) key)"

definition highest_seq :: "'s store_ops \<Rightarrow> 's crew \<Rightarrow> int" where
  "highest_seq ops cr =
     fold (\<lambda>key highest. case key_seq key of Inl _ \<Rightarrow> highest | Inr n \<Rightarrow> max highest n)
       (op_keys ops (cr_store cr) (cr_namespace cr)) 0"

definition next_key :: "'s store_ops \<Rightarrow> pystr \<Rightarrow> ('s crew, pystr) act" where
  "next_key ops suffix =
     bindA (askA (\<lambda>cr. case cr_seq cr of None \<Rightarrow> highest_seq ops cr | Some n \<Rightarrow> n)) (\<lambda>n.
       thenA (updA (\<lambda>cr. cr\<lparr>cr_seq := Some (n + 1)\<rparr>)) (retA (memory_key (n + 1) suffix)))"

section \<open>Operations\<close>

text \<open>\<open>_as_text\<close>; the items of a dictionary as \<open>"k: v"\<close>, joined by spaces.\<close>

definition item_text :: "'f crew_env \<Rightarrow> pyval \<times> pyval \<Rightarrow> pystr" where
  "item_text CE = (\<lambda>(k, v). ce_str CE k @ lit '': '' @ ce_str CE v)"

fun as_text :: "'f crew_env \<Rightarrow> pyval \<Rightarrow> pystr" where
  "as_text CE (PStr s) = s"
| "as_text CE (PDict d) = join_with 32 (map (item_text CE) d)"
| "as_text CE v = ce_str CE v"

definition memory :: "'f crew_env \<Rightarrow> pyval \<Rightarrow> pyval \<Rightarrow> pyval" where
  "memory CE v metadata =
     PDict [(PStr (lit ''value''), PStr (as_text CE v)),
            (PStr (lit ''metadata''), if truthy metadata then metadata else PDict [])]"

definition crew_save ::
  "'s store_ops \<Rightarrow> 'f crew_env \<Rightarrow> pyval \<Rightarrow> pyval \<Rightarrow> pystr \<Rightarrow> ('s crew, unit) act" where
  "crew_save ops CE v metadata suffix =
     bindA (next_key ops suffix) (\<lambda>key cr.
       case op_set ops (cr_store cr) (cr_namespace cr) key (memory CE v metadata) of
         Inl e \<Rightarrow> (Inl e, cr) | Inr s \<Rightarrow> (Inr (), cr\<lparr>cr_store := s\<rparr>))"

text \<open>The entries that pass the threshold, as \<open>(key, score, entry)\<close>, in the order of the keys.\<close>

definition score_of :: "'f crew_env \<Rightarrow> pystr set \<Rightarrow> pyval \<Rightarrow> exc + 'f" where
  "score_of CE q text =
     bindE (case text of PStr s \<Rightarrow> Inr s | _ \<Rightarrow> Inl AttributeError) (\<lambda>s.
       Inr (if q = {} then ce_zero CE else ce_div CE (card (q \<inter> tokens CE s)) (card q)))"

fun search_keys ::
  "'s store_ops \<Rightarrow> 'f::linorder crew_env \<Rightarrow> pystr set \<Rightarrow> 'f \<Rightarrow> 's crew \<Rightarrow> pystr list \<Rightarrow>
   exc + (pystr \<times> 'f \<times> pyval) list" where
  "search_keys ops CE q threshold cr [] = Inr []"
| "search_keys ops CE q threshold cr (key # ks) =
     bindE (op_get ops (cr_store cr) (cr_namespace cr) key PNone) (\<lambda>entry.
       if \<not> truthy entry then search_keys ops CE q threshold cr ks
       else
         bindE (bindE (get_key entry (lit ''value'')) (\<lambda>t. if has_key entry (lit ''value'') then Inr t else Inr (PStr []))) (\<lambda>text.
         bindE (score_of CE q text) (\<lambda>score.
         bindE (search_keys ops CE q threshold cr ks) (\<lambda>rs.
           Inr (if threshold \<le> score then (key, score, entry) # rs else rs)))))"

record 'f recall =
  rc_context :: pyval
  rc_metadata :: pyval
  rc_score :: 'f

definition recall_of :: "'f crew_env \<Rightarrow> 'f \<Rightarrow> pyval \<Rightarrow> exc + 'f recall" where
  "recall_of CE s e =
     bindE (getitem e (lit ''value'')) (\<lambda>v.
     bindE (get_key e (lit ''metadata'')) (\<lambda>m.
       Inr \<lparr>rc_context = v, rc_metadata = (if has_key e (lit ''metadata'') then m else PDict []),
            rc_score = ce_round CE s\<rparr>))"

text \<open>\<open>results.sort(key=lambda r: (r[1], r[0]), reverse=True)\<close> (the keys of a store are distinct),
  and the slice \<open>[:limit]\<close>.\<close>

definition slice_to :: "int \<Rightarrow> 'a list \<Rightarrow> 'a list" where
  "slice_to limit xs = (if 0 \<le> limit then take (nat limit) xs else take (length xs - nat (- limit)) xs)"

definition rank :: "(pystr \<times> 'f::linorder \<times> pyval) list \<Rightarrow> (pystr \<times> 'f \<times> pyval) list" where
  "rank results = rev (sort_key (\<lambda>(key, score, _). (score, key)) results)"

definition crew_search ::
  "'s store_ops \<Rightarrow> 'f::linorder crew_env \<Rightarrow> pystr \<Rightarrow> int \<Rightarrow> 'f \<Rightarrow> 's crew \<Rightarrow> exc + 'f recall list" where
  "crew_search ops CE query limit threshold cr =
     bindE (search_keys ops CE (tokens CE query) threshold cr (op_keys ops (cr_store cr) (cr_namespace cr)))
       (\<lambda>results. mapE (\<lambda>(_, s, e). recall_of CE s e) (slice_to limit (rank results)))"

definition crew_reset :: "'s store_ops \<Rightarrow> 's crew \<Rightarrow> 's crew" where
  "crew_reset ops cr =
     cr\<lparr>cr_store := fold (\<lambda>key s. snd (op_delete ops s (cr_namespace cr) key))
       (op_keys ops (cr_store cr) (cr_namespace cr)) (cr_store cr)\<rparr>"

definition crew_len :: "'s store_ops \<Rightarrow> 's crew \<Rightarrow> nat" where
  "crew_len ops cr = length (op_keys ops (cr_store cr) (cr_namespace cr))"

end
