(* ===== verification/Crew_Props.thy ===== *)
theory Crew_Props
  imports Crew Disk_Store_Props
begin

text \<open>
  The keyword memory: keys that sort by insertion, saving without overwriting, and what a search
  returns, on every store that keeps the contract (locale \<open>crew_lib\<close>), and on the in-memory store.
\<close>

section \<open>Zero-padded numbers\<close>

text \<open>The value of a sequence of digits; among sequences of one length the order of the strings is
  the order of the values.\<close>

definition dval :: "pystr \<Rightarrow> nat" where
  "dval ds = foldl (\<lambda>a c. 10 * a + (c - 48)) 0 ds"

lemma dval_foldl: "foldl (\<lambda>a c. 10 * a + (c - 48)) a ds = a * 10 ^ length ds + dval ds"
proof (induction ds arbitrary: a)
  case (Cons d ds)
  show ?case
    using Cons.IH [of "10 * a + (d - 48)"] Cons.IH [of "d - 48"] by (simp add: dval_def algebra_simps)
qed (simp add: dval_def)

lemma dval_Cons: "dval (d # ds) = (d - 48) * 10 ^ length ds + dval ds"
  using dval_foldl [of "d - 48" ds] by (simp add: dval_def)

lemma dval_less: "set ds \<subseteq> {48..57} \<Longrightarrow> dval ds < 10 ^ length ds"
proof (induction ds)
  case (Cons d ds)
  then have d: "d - 48 \<le> 9" "dval ds < 10 ^ length ds" by auto
  from d(1) have "(d - 48) * 10 ^ length ds \<le> 9 * 10 ^ length ds" by (rule mult_le_mono1)
  with d(2) have "(d - 48) * 10 ^ length ds + dval ds < 10 * 10 ^ length ds" by linarith
  then show ?case by (simp add: dval_Cons)
qed (simp add: dval_def)

lemma digits_order:
  assumes "length xs = length ys" "set xs \<subseteq> {48..57}" "set ys \<subseteq> {48..57}" "dval xs < dval ys"
  shows "xs @ u < ys @ v"
  using assms
proof (induction xs ys rule: list_induct2)
  case (Cons x xs y ys)
  consider "x < y" | "x = y" | "y < x" by linarith
  then show ?case
  proof cases
    case 2
    with Cons show ?thesis by (simp add: dval_Cons)
  next
    case 3
    with Cons.prems(1,2) have "y - 48 + 1 \<le> x - 48" by auto
    then have "(y - 48 + 1) * 10 ^ length ys \<le> (x - 48) * 10 ^ length ys" by (rule mult_le_mono1)
    then have "dval (y # ys) < (x - 48) * 10 ^ length xs"
      using dval_less [of ys] Cons.prems(2) Cons.hyps by (simp add: dval_Cons add_mult_distrib)
    with Cons.prems(3) show ?thesis by (simp add: dval_Cons)
  qed simp
qed simp

lemma digits_val_dval: "set ds \<subseteq> {48..57} \<Longrightarrow> digits_val a ds = Some (a * 10 ^ length ds + dval ds)"
proof (induction ds arbitrary: a)
  case (Cons d ds)
  then have "digits_val a (d # ds) = Some ((10 * a + (d - 48)) * 10 ^ length ds + dval ds)" by auto
  then show ?case by (simp add: dval_Cons add_mult_distrib)
qed (simp add: dval_def)

lemma parse_digits:
  assumes "ds \<noteq> []" "set ds \<subseteq> {48..57}"
  shows "parse_int ds = Inr (int (dval ds))"
proof -
  obtain c cs where ds: "ds = c # cs" using assms(1) by (cases ds) auto
  have "\<forall>x \<in> set ds. \<not> is_space x" using assms(2) by auto
  then have "strip ds = ds" by (simp add: strip_def dropWhile_none)
  moreover have "nat_of_digits ds = Some (dval ds)"
    using assms(2) by (simp add: nat_of_digits_def ds digits_val_dval dval_Cons)
  moreover have "c \<noteq> 45" "c \<noteq> 43" using assms(2) ds by auto
  ultimately show ?thesis by (simp add: parse_int_def ds)
qed

lemma dval_replicate: "dval (replicate n 48 @ ds) = dval ds"
  by (induction n) (simp_all add: dval_Cons)

lemma show_nat_dval: "dval (show_nat n) = n"
  using digits_val_show_nat [of 0 n] digits_val_dval [OF show_nat_digits, of 0 n] by simp

lemma length_show_nat: "n < 10 ^ m \<Longrightarrow> 0 < m \<Longrightarrow> length (show_nat n) \<le> m"
proof (induction m arbitrary: n)
  case (Suc m)
  show ?case
  proof (cases "n < 10")
    case True
    then show ?thesis by (subst show_nat.simps) simp
  next
    case False
    then have "m \<noteq> 0" using Suc.prems(1) by (cases m) auto
    moreover have "n div 10 < 10 ^ m" using Suc.prems(1) by (simp add: less_mult_imp_div_less)
    ultimately have "length (show_nat (n div 10)) \<le> m" using Suc.IH by simp
    with False show ?thesis by (subst show_nat.simps) simp
  qed
qed simp

lemma pad12_digits: "0 \<le> n \<Longrightarrow> set (pad12 n) \<subseteq> {48..57}" "0 \<le> n \<Longrightarrow> dval (pad12 n) = nat n" "pad12 n \<noteq> []"
  using show_nat_digits [of "nat n"]
  by (auto simp: pad12_def show_int_def Let_def dval_replicate show_nat_dval)

lemma pad12_length: "0 \<le> n \<Longrightarrow> n < 10 ^ 12 \<Longrightarrow> length (pad12 n) = 12"
  using length_show_nat [of "nat n" 12] by (simp add: pad12_def show_int_def Let_def nat_less_iff)

lemma key_seq_memory_key: "0 \<le> n \<Longrightarrow> key_seq (memory_key n suffix) = Inr n"
proof -
  assume n: "0 \<le> n"
  have "\<forall>c \<in> set (pad12 n). c \<noteq> 45" using pad12_digits(1) [OF n] by auto
  then have "takeWhile (\<lambda>c. c \<noteq> 45) (memory_key n suffix) = pad12 n"
    by (simp add: memory_key_def takeWhile_append2)
  then show ?thesis using parse_digits [OF pad12_digits(3) pad12_digits(1) [OF n]] pad12_digits(2) [OF n] n
    by (simp add: key_seq_def)
qed

lemma memory_key_less:
  assumes "0 \<le> i" "i < j" "j < 10 ^ 12"
  shows "memory_key i s < memory_key j s'"
  unfolding memory_key_def
  using assms by (intro digits_order) (simp_all add: pad12_digits pad12_length)

section \<open>Saving\<close>

text \<open>The counter is unset or at least the number of every key of the namespace.\<close>

definition seq_ok :: "'s store_ops \<Rightarrow> 's crew \<Rightarrow> bool" where
  "seq_ok ops cr \<longleftrightarrow> (case cr_seq cr of None \<Rightarrow> True
     | Some n \<Rightarrow> 0 \<le> n \<and> (\<forall>k \<in> set (op_keys ops (cr_store cr) (cr_namespace cr)). \<forall>j. key_seq k = Inr j \<longrightarrow> j \<le> n))"

lemma fold_max_seq:
  "a \<le> fold (\<lambda>key m. case key_seq key of Inl _ \<Rightarrow> m | Inr n \<Rightarrow> max m n) ks a \<and>
   (\<forall>k \<in> set ks. \<forall>j. key_seq k = Inr j \<longrightarrow> j \<le> fold (\<lambda>key m. case key_seq key of Inl _ \<Rightarrow> m | Inr n \<Rightarrow> max m n) ks a)"
proof (induction ks arbitrary: a)
  case (Cons k ks)
  show ?case
  proof (cases "key_seq k")
    case (Inl e)
    with Cons.IH [of a] show ?thesis by simp
  next
    case (Inr n)
    with Cons.IH [of "max a n"] show ?thesis by auto
  qed
qed simp

lemma next_key_run:
  assumes "seq_ok ops cr"
  obtains n where "next_key ops suffix cr = (Inr (memory_key (n + 1) suffix), cr\<lparr>cr_seq := Some (n + 1)\<rparr>)" "0 \<le> n"
    "\<And>k j. k \<in> set (op_keys ops (cr_store cr) (cr_namespace cr)) \<Longrightarrow> key_seq k = Inr j \<Longrightarrow> j \<le> n"
proof (cases "cr_seq cr")
  case None
  with fold_max_seq [of 0 "op_keys ops (cr_store cr) (cr_namespace cr)"] that [of "highest_seq ops cr"]
  show ?thesis by (auto simp: next_key_def act_simps highest_seq_def)
next
  case (Some n)
  with assms that [of n] show ?thesis by (auto simp: next_key_def act_simps seq_ok_def)
qed

locale crew_lib = store_like ops inv content okt okv
  for ops :: "'s store_ops" and inv content okt okv +
  fixes CE :: "'f::linorder crew_env"
begin

lemma memory_key_okt: "0 \<le> n \<Longrightarrow> okt suffix \<Longrightarrow> okt (memory_key n suffix)"
proof -
  assume n: "0 \<le> n" and s: "okt suffix"
  have "okt (pad12 n @ [45])" by (rule okt_ascii) (use pad12_digits(1) [OF n] in force)
  then have "okt ((pad12 n @ [45]) @ suffix)" using s by (simp only: okt_append)
  then show ?thesis by (simp add: memory_key_def)
qed

lemma save_fresh:
  assumes i: "inv (cr_store cr)" and tx: "okt (cr_namespace cr)" "okt suffix" and seq: "seq_ok ops cr"
    and v: "okv (memory CE v md)"
  shows "\<exists>n cr'. crew_save ops CE v md suffix cr = (Inr (), cr') \<and> inv (cr_store cr') \<and> seq_ok ops cr' \<and>
    cr_namespace cr' = cr_namespace cr \<and> cr_seq cr' = Some n \<and>
    content (cr_store cr) (cr_namespace cr, memory_key n suffix) = None \<and>
    content (cr_store cr') = (content (cr_store cr))((cr_namespace cr, memory_key n suffix) \<mapsto> memory CE v md) \<and>
    crew_len ops cr' = crew_len ops cr + 1 \<and>
    (\<forall>j s. memory_key j s \<in> ns_keys (content (cr_store cr)) (cr_namespace cr) \<and> 0 \<le> j \<and> n < 10 ^ 12 \<longrightarrow>
       memory_key j s < memory_key n suffix)"
proof -
  let ?ns = "cr_namespace cr"
  obtain n where n: "next_key ops suffix cr = (Inr (memory_key (n + 1) suffix), cr\<lparr>cr_seq := Some (n + 1)\<rparr>)" "0 \<le> n"
    "\<And>k j. k \<in> set (op_keys ops (cr_store cr) ?ns) \<Longrightarrow> key_seq k = Inr j \<Longrightarrow> j \<le> n"
    using next_key_run [OF seq, of suffix] by blast
  let ?key = "memory_key (n + 1) suffix"
  have ks: "set (op_keys ops (cr_store cr) ?ns) = ns_keys (content (cr_store cr)) ?ns"
    "distinct (op_keys ops (cr_store cr) ?ns)" using keys_law [OF i] by auto
  have kseq: "key_seq ?key = Inr (n + 1)" using n(2) by (intro key_seq_memory_key) simp
  have new: "?key \<notin> ns_keys (content (cr_store cr)) ?ns"
  proof
    assume "?key \<in> ns_keys (content (cr_store cr)) ?ns"
    with n(3) [OF _ kseq] ks(1) show False by simp
  qed
  have "okt ?key" using n(2) tx(2) by (intro memory_key_okt) simp_all
  then obtain s where s: "op_set ops (cr_store cr) ?ns ?key (memory CE v md) = Inr s" "inv s"
      "content s = (content (cr_store cr))((?ns, ?key) \<mapsto> memory CE v md)"
    using set_law [OF i tx(1) _ v] by blast
  let ?cr' = "cr\<lparr>cr_seq := Some (n + 1), cr_store := s\<rparr>"
  have keys': "set (op_keys ops s ?ns) = insert ?key (ns_keys (content (cr_store cr)) ?ns)"
    "distinct (op_keys ops s ?ns)" using keys_law [OF s(2), of ?ns] s(3) by (auto simp: ns_keys_def)
  have "crew_len ops ?cr' = Suc (crew_len ops cr)"
    using new keys' ks distinct_card [OF ks(2)] distinct_card [OF keys'(2)] finite_ns_keys [OF finite_law [OF i], of ?ns]
    by (simp add: crew_len_def)
  moreover have "seq_ok ops ?cr'" using n(2,3) keys'(1) kseq ks(1) by (fastforce simp: seq_ok_def)
  moreover have "memory_key j x < ?key"
    if "memory_key j x \<in> ns_keys (content (cr_store cr)) ?ns \<and> 0 \<le> j \<and> n + 1 < 10 ^ 12" for j x
    using that n(3) [of "memory_key j x" j] ks(1) key_seq_memory_key [of j x] by (intro memory_key_less) auto
  moreover have "content (cr_store cr) (?ns, ?key) = None" using new by (simp add: ns_keys_def)
  moreover have "crew_save ops CE v md suffix cr = (Inr (), ?cr')" using n(1) s(1) by (simp add: crew_save_def act_simps)
  ultimately show ?thesis using s(2,3) by (intro exI [of _ "n + 1"] exI [of _ ?cr']) simp
qed

end

section \<open>Searching\<close>

text \<open>An entry as \<open>save\<close> writes it, its text, and its score for a query.\<close>

definition is_memory :: "pyval \<Rightarrow> bool" where
  "is_memory e \<longleftrightarrow> (\<exists>text md. e = PDict [(PStr (lit ''value''), PStr text), (PStr (lit ''metadata''), md)])"

fun memory_text :: "pyval \<Rightarrow> pystr" where
  "memory_text (PDict ((_, PStr text) # _)) = text"
| "memory_text _ = []"

definition memory_recall :: "'f crew_env \<Rightarrow> 'f \<Rightarrow> pyval \<Rightarrow> 'f recall" where
  "memory_recall CE s e = (case recall_of CE s e of Inr r \<Rightarrow> r | Inl _ \<Rightarrow> undefined)"

definition overlap :: "'f crew_env \<Rightarrow> pystr \<Rightarrow> pystr \<Rightarrow> 'f" where
  "overlap CE query text =
     (if tokens CE query = {} then ce_zero CE
      else ce_div CE (card (tokens CE query \<inter> tokens CE text)) (card (tokens CE query)))"

lemma lit_value_metadata: "lit ''value'' \<noteq> lit ''metadata''"
  by simp

lemma recall_memory:
  "recall_of CE s (PDict [(PStr (lit ''value''), PStr text), (PStr (lit ''metadata''), md)]) =
     Inr \<lparr>rc_context = PStr text, rc_metadata = md, rc_score = ce_round CE s\<rparr>"
  using lit_value_metadata by (simp add: recall_of_def del: lit_simps)

lemma score_overlap: "score_of CE (tokens CE query) (PStr text) = Inr (overlap CE query text)"
  by (simp add: score_of_def overlap_def)

lemma search_memory:
  assumes "is_memory e" "op_get ops (cr_store cr) (cr_namespace cr) key PNone = Inr e"
  shows "search_keys ops CE (tokens CE query) th cr (key # ks) =
    bindE (search_keys ops CE (tokens CE query) th cr ks) (\<lambda>rs.
      Inr (if th \<le> overlap CE query (memory_text e) then (key, overlap CE query (memory_text e), e) # rs else rs))"
proof -
  obtain tx md where e: "e = PDict [(PStr (lit ''value''), PStr tx), (PStr (lit ''metadata''), md)]"
    using assms(1) by (auto simp: is_memory_def)
  have t: "memory_text e = tx" by (simp add: e)
  show ?thesis using assms(2) unfolding t unfolding e by (simp add: score_overlap del: lit_simps)
qed

text \<open>The first elements of a list in strictly descending order.\<close>

lemma rank_take:
  assumes d: "distinct (map fst rs)"
    and f: "\<And>k s e. (k, s, e) \<in> set rs \<longleftrightarrow> k \<in> P \<and> s = sc k \<and> e = en k"
  shows "\<exists>ks. take n (rank rs) = map (\<lambda>k. (k, sc k, en k)) ks \<and> distinct ks \<and> set ks \<subseteq> P \<and>
    length ks = min n (card P) \<and> sorted_wrt (\<lambda>a b. (sc b, b) < (sc a, a)) ks \<and>
    (\<forall>a \<in> set ks. \<forall>b \<in> P - set ks. (sc b, b) < (sc a, a))"
proof -
  let ?key = "\<lambda>(k, s, _). (s, k)"
  define zs where "zs = map fst (rank rs)"
  have set: "set zs = P" using f by (force simp: zs_def rank_def)
  have dz: "distinct zs"
  proof (rule card_distinct)
    have "set zs = set (map fst rs)" by (simp add: zs_def rank_def)
    then show "card (set zs) = length zs" using distinct_card [OF d] by (simp add: zs_def rank_def)
  qed
  have form: "rank rs = map (\<lambda>k. (k, sc k, en k)) zs"
  proof -
    have "(fst r, sc (fst r), en (fst r)) = r" if "r \<in> set (rank rs)" for r
    proof -
      obtain k x e where r: "r = (k, x, e)" by (cases r)
      have "(k, x, e) \<in> set rs" using that by (simp add: rank_def r)
      then show ?thesis unfolding f r by simp
    qed
    then show ?thesis unfolding zs_def by (simp add: map_idI)
  qed
  have "rev (map ?key (rank rs)) = map ?key (sort_key ?key rs)" by (simp only: rank_def rev_map rev_rev_ident)
  then have "sorted (rev (map ?key (rank rs)))" using sorted_sort_key [of ?key rs] by (simp only:)
  then have "sorted_wrt (\<lambda>a b. b \<le> a) (map ?key (rank rs))" by (simp only: sorted_wrt_rev)
  then have "sorted_wrt (\<lambda>a b. (sc b, b) \<le> (sc a, a)) zs" unfolding form by (simp add: sorted_wrt_map)
  moreover have "sorted_wrt (\<lambda>a b. (sc b, b) \<noteq> (sc a, a)) zs"
    using dz by (auto simp: sorted_wrt_iff_nth_less nth_eq_iff_index_eq)
  ultimately have srt: "sorted_wrt (\<lambda>a b. (sc b, b) < (sc a, a)) zs"
    unfolding sorted_wrt_iff_nth_less less_le by blast
  let ?ks = "take n zs"
  have "\<forall>a \<in> set ?ks. \<forall>b \<in> P - set ?ks. (sc b, b) < (sc a, a)"
  proof (intro ballI)
    fix a b assume a: "a \<in> set ?ks" and b: "b \<in> P - set ?ks"
    then have "b \<in> set (drop n zs)" using set by (metis Diff_iff Un_iff append_take_drop_id set_append)
    moreover have "\<forall>x \<in> set (take n zs). \<forall>y \<in> set (drop n zs). (sc y, y) < (sc x, x)"
      using srt sorted_wrt_append [of "\<lambda>a b. (sc b, b) < (sc a, a)" "take n zs" "drop n zs"]
      unfolding append_take_drop_id by blast
    ultimately show "(sc b, b) < (sc a, a)" using a by blast
  qed
  moreover have "sorted_wrt (\<lambda>a b. (sc b, b) < (sc a, a)) ?ks" using srt by (rule sorted_wrt_take)
  moreover have "length ?ks = min n (card P)" using distinct_card [OF dz] set by (simp add: min.commute)
  moreover have "set ?ks \<subseteq> P" using set set_take_subset by fastforce
  ultimately show ?thesis using form dz by (intro exI [of _ ?ks]) (simp add: take_map)
qed

context crew_lib
begin

lemma search_keys_run:
  assumes i: "inv (cr_store cr)" and mem: "\<forall>k e. content (cr_store cr) (cr_namespace cr, k) = Some e \<longrightarrow> is_memory e"
    and ks: "distinct ks" "set ks \<subseteq> ns_keys (content (cr_store cr)) (cr_namespace cr)"
  shows "\<exists>rs. search_keys ops CE (tokens CE query) th cr ks = Inr rs \<and> distinct (map fst rs) \<and>
    (\<forall>k s e. (k, s, e) \<in> set rs \<longleftrightarrow> k \<in> set ks \<and> content (cr_store cr) (cr_namespace cr, k) = Some e \<and>
       s = overlap CE query (memory_text e) \<and> th \<le> s)"
  using ks
proof (induction ks)
  case (Cons k ks)
  then obtain e where e: "content (cr_store cr) (cr_namespace cr, k) = Some e" by (auto simp: ns_keys_def)
  then have g: "op_get ops (cr_store cr) (cr_namespace cr) k PNone = Inr e" using get_law [OF i] by simp
  obtain rs where rs: "search_keys ops CE (tokens CE query) th cr ks = Inr rs" "distinct (map fst rs)"
    "\<And>k s e. (k, s, e) \<in> set rs \<longleftrightarrow> k \<in> set ks \<and> content (cr_store cr) (cr_namespace cr, k) = Some e \<and>
       s = overlap CE query (memory_text e) \<and> th \<le> s"
    using Cons by auto
  have "k \<notin> fst ` set rs" using rs(3) Cons.prems(1) by auto
  then show ?case
    using rs e Cons.prems(1) by (subst search_memory [OF mem [rule_format, OF e] g]) auto
qed simp

lemma search_best:
  fixes query :: pystr and th :: 'f and cr :: "'s crew"
  assumes i: "inv (cr_store cr)" and mem: "\<forall>k e. content (cr_store cr) (cr_namespace cr, k) = Some e \<longrightarrow> is_memory e"
    and "0 \<le> limit"
  defines "en \<equiv> \<lambda>k. the (content (cr_store cr) (cr_namespace cr, k))"
  defines "sc \<equiv> \<lambda>k. overlap CE query (memory_text (en k))"
  defines "P \<equiv> {k \<in> ns_keys (content (cr_store cr)) (cr_namespace cr). th \<le> sc k}"
  shows "\<exists>ks. crew_search ops CE query limit th cr = Inr (map (\<lambda>k. memory_recall CE (sc k) (en k)) ks) \<and>
    distinct ks \<and> set ks \<subseteq> P \<and> length ks = min (nat limit) (card P) \<and>
    sorted_wrt (\<lambda>a b. (sc b, b) < (sc a, a)) ks \<and> (\<forall>a \<in> set ks. \<forall>b \<in> P - set ks. (sc b, b) < (sc a, a))"
proof -
  let ?ns = "cr_namespace cr" and ?m = "content (cr_store cr)"
  have keys: "set (op_keys ops (cr_store cr) ?ns) = ns_keys ?m ?ns" "distinct (op_keys ops (cr_store cr) ?ns)"
    using keys_law [OF i] by auto
  obtain rs where rs: "search_keys ops CE (tokens CE query) th cr (op_keys ops (cr_store cr) ?ns) = Inr rs"
    "distinct (map fst rs)"
    "\<And>k s e. (k, s, e) \<in> set rs \<longleftrightarrow> k \<in> ns_keys ?m ?ns \<and> ?m (?ns, k) = Some e \<and>
       s = overlap CE query (memory_text e) \<and> th \<le> s"
    using search_keys_run [OF i mem keys(2), where query = query and th = th] keys(1) by auto
  have "(k, s, e) \<in> set rs \<longleftrightarrow> k \<in> P \<and> s = sc k \<and> e = en k" for k s e
    unfolding rs(3) by (auto simp: P_def sc_def en_def ns_keys_def)
  from rank_take [OF rs(2) this, of "nat limit"] obtain ks where ks:
    "take (nat limit) (rank rs) = map (\<lambda>k. (k, sc k, en k)) ks" "distinct ks" "set ks \<subseteq> P"
    "length ks = min (nat limit) (card P)" "sorted_wrt (\<lambda>a b. (sc b, b) < (sc a, a)) ks"
    "\<forall>a \<in> set ks. \<forall>b \<in> P - set ks. (sc b, b) < (sc a, a)" by blast
  have "recall_of CE (sc k) (en k) = Inr (memory_recall CE (sc k) (en k))" if "k \<in> set ks" for k
  proof -
    have "is_memory (en k)" using that ks(3) mem by (auto simp: P_def en_def ns_keys_def)
    then show ?thesis unfolding is_memory_def memory_recall_def by (auto simp: recall_memory simp del: lit_simps)
  qed
  then have "mapE (\<lambda>(_, s, e). recall_of CE s e) (map (\<lambda>k. (k, sc k, en k)) ks) =
      Inr (map (\<lambda>k. memory_recall CE (sc k) (en k)) ks)"
    using mapE_Inr_map [of "map (\<lambda>k. (k, sc k, en k)) ks" "\<lambda>(_, s, e). recall_of CE s e" "\<lambda>(_, s, e). memory_recall CE s e"]
    by (auto simp: o_def)
  then have "crew_search ops CE query limit th cr = Inr (map (\<lambda>k. memory_recall CE (sc k) (en k)) ks)"
    using rs(1) assms(3) by (simp add: crew_search_def slice_to_def ks(1))
  with ks(2-) show ?thesis by blast
qed

end

interpretation mem_crew: crew_lib "mem_ops C h" "mem_inv C h" "mem_content C h" is_text "storable C" CE
  for C :: codec and h :: "pystr \<Rightarrow> nat" and CE :: "'f::linorder crew_env"
  by unfold_locales

section \<open>Properties\<close>

text \<open>
  C21. Saving never overwrites a memory: with the counter at or above every number in use (or unset:
  it is then derived from the keys, so deleted entries cause no reuse), \<open>save\<close> stores exactly one new
  entry under a key that was free, the memory grows by one, the condition holds again, and while the
  counter stays below \<open>10^12\<close> the new key sorts after every key \<open>save\<close> has written before.
\<close>

theorem crew_save_fresh:
  fixes CE :: "'f::linorder crew_env"
  assumes "mem_inv C h (cr_store cr)" "is_text (cr_namespace cr)" "is_text suffix" "seq_ok (mem_ops C h) cr"
    and "storable C (memory CE v md)"
  shows "\<exists>n cr'. crew_save (mem_ops C h) CE v md suffix cr = (Inr (), cr') \<and> mem_inv C h (cr_store cr') \<and>
    seq_ok (mem_ops C h) cr' \<and> cr_namespace cr' = cr_namespace cr \<and> cr_seq cr' = Some n \<and>
    mem_content C h (cr_store cr) (cr_namespace cr, memory_key n suffix) = None \<and>
    mem_content C h (cr_store cr') =
      (mem_content C h (cr_store cr))((cr_namespace cr, memory_key n suffix) \<mapsto> memory CE v md) \<and>
    crew_len (mem_ops C h) cr' = crew_len (mem_ops C h) cr + 1 \<and>
    (\<forall>j s. memory_key j s \<in> ns_keys (mem_content C h (cr_store cr)) (cr_namespace cr) \<and> 0 \<le> j \<and> n < 10 ^ 12 \<longrightarrow>
       memory_key j s < memory_key n suffix)"
  using assms by (rule mem_crew.save_fresh)

text \<open>Witness of C21: the first memory of an empty store, \<open>"ok"\<close>.\<close>

definition ex_crew_env :: "nat crew_env" where
  "ex_crew_env = \<lparr>ce_lower = id, ce_str = (\<lambda>_. []), ce_div = (\<lambda>a b. 10000 * a div b), ce_zero = 0, ce_round = id\<rparr>"

definition ex_memory :: pyval where
  "ex_memory = memory ex_crew_env (PStr (lit ''ok'')) PNone"

definition ex_crew :: "mem_store crew" where
  "ex_crew = \<lparr>cr_store = empty_mem, cr_namespace = lit ''crewai'', cr_seq = None\<rparr>"

lemma ex_memory_ok: "storable (table_codec [ex_memory]) ex_memory" "is_memory ex_memory"
  by (rule table_codec_storable, simp) (simp add: ex_memory_def memory_def is_memory_def)

lemma ex_crew_ok: "mem_inv C h (cr_store ex_crew)" "is_text (cr_namespace ex_crew)" "seq_ok ops ex_crew"
  by (simp_all add: ex_crew_def empty_mem_ok seq_ok_def scalar_def)

theorem crew_save_fresh_witness:
  "\<exists>n cr'. crew_save (mem_ops (table_codec [ex_memory]) sum_list) ex_crew_env (PStr (lit ''ok'')) PNone (lit ''0a1b2c3d'') ex_crew =
       (Inr (), cr') \<and>
     mem_content (table_codec [ex_memory]) sum_list (cr_store cr') =
       [(lit ''crewai'', memory_key n (lit ''0a1b2c3d'')) \<mapsto> ex_memory]"
proof -
  have t: "is_text (lit ''0a1b2c3d'')" by (simp add: scalar_def)
  have v: "storable (table_codec [ex_memory]) (memory ex_crew_env (PStr (lit ''ok'')) PNone)"
    using ex_memory_ok(1) by (simp add: ex_memory_def)
  have ns: "cr_namespace ex_crew = lit ''crewai''" "cr_store ex_crew = empty_mem" by (simp_all add: ex_crew_def)
  from crew_save_fresh [OF ex_crew_ok(1,2) t ex_crew_ok(3) v] show ?thesis
    unfolding ns empty_mem_ok(2) ex_memory_def by blast
qed

text \<open>
  C22. A search over a namespace of saved memories returns without error the recalls of the best
  entries: all of them reach the threshold, there are \<open>limit\<close> of them or as many as reach it, they
  are listed by falling score and then by falling key (recency), and every other entry that reaches
  the threshold ranks below each of them. The score of an entry is the share of the query's tokens
  that occur in its text, and zero for a query without tokens.
\<close>

theorem crew_search_best:
  fixes CE :: "'f::linorder crew_env"
  assumes "mem_inv C h (cr_store cr)" "0 \<le> limit"
    and "\<forall>k e. mem_content C h (cr_store cr) (cr_namespace cr, k) = Some e \<longrightarrow> is_memory e"
  shows "let en = \<lambda>k. the (mem_content C h (cr_store cr) (cr_namespace cr, k));
      sc = \<lambda>k. overlap CE query (memory_text (en k));
      P = {k \<in> ns_keys (mem_content C h (cr_store cr)) (cr_namespace cr). threshold \<le> sc k}
    in \<exists>ks. crew_search (mem_ops C h) CE query limit threshold cr = Inr (map (\<lambda>k. memory_recall CE (sc k) (en k)) ks) \<and>
      distinct ks \<and> set ks \<subseteq> P \<and> length ks = min (nat limit) (card P) \<and>
      sorted_wrt (\<lambda>a b. (sc b, b) < (sc a, a)) ks \<and> (\<forall>a \<in> set ks. \<forall>b \<in> P - set ks. (sc b, b) < (sc a, a))"
  unfolding Let_def using assms(1,3,2) by (rule mem_crew.search_best)

text \<open>Witness of C22: one memory, found by one of its words.\<close>

lemma ex_crew_saved:
  obtains s where "mem_set (table_codec [ex_memory]) sum_list empty_mem (lit ''crewai'') (lit ''k'') ex_memory = Inr s"
    "mem_inv (table_codec [ex_memory]) sum_list s"
    "mem_content (table_codec [ex_memory]) sum_list s = [(lit ''crewai'', lit ''k'') \<mapsto> ex_memory]"
  using mem.set_law [OF empty_mem_ok(1), of "lit ''crewai''" "lit ''k''" "table_codec [ex_memory]" ex_memory sum_list]
    ex_memory_ok(1) by (auto simp: scalar_def empty_mem_ok(2) mem_ops_def)

theorem crew_search_best_witness:
  "\<exists>s. mem_set (table_codec [ex_memory]) sum_list empty_mem (lit ''crewai'') (lit ''k'') ex_memory = Inr s \<and>
     crew_search (mem_ops (table_codec [ex_memory]) sum_list) ex_crew_env (lit ''ok no'') 3 1 (ex_crew\<lparr>cr_store := s\<rparr>) =
       Inr [\<lparr>rc_context = PStr (lit ''ok''), rc_metadata = PDict [], rc_score = 5000\<rparr>]"
proof -
  obtain s where s: "mem_set (table_codec [ex_memory]) sum_list empty_mem (lit ''crewai'') (lit ''k'') ex_memory = Inr s"
    "mem_inv (table_codec [ex_memory]) sum_list s"
    "mem_content (table_codec [ex_memory]) sum_list s = [(lit ''crewai'', lit ''k'') \<mapsto> ex_memory]"
    by (rule ex_crew_saved)
  let ?cr = "ex_crew\<lparr>cr_store := s\<rparr>"
  have cr: "cr_store ?cr = s" "cr_namespace ?cr = lit ''crewai''" by (simp_all add: ex_crew_def)
  have i: "mem_inv (table_codec [ex_memory]) sum_list (cr_store ?cr)" using s(2) by (simp add: cr)
  have m: "\<forall>k e. mem_content (table_codec [ex_memory]) sum_list (cr_store ?cr) (cr_namespace ?cr, k) = Some e \<longrightarrow> is_memory e"
    using ex_memory_ok(2) unfolding cr s(3) by (simp del: lit_simps)
  have tk: "find_tokens (lit ''ok no'') = [lit ''ok'', lit ''no'']" "find_tokens (lit ''ok'') = [lit ''ok'']"
    by (simp_all add: find_tokens.simps token_char_def)
  have mt: "memory_text ex_memory = lit ''ok''" by (simp add: ex_memory_def memory_def)
  have sc: "overlap ex_crew_env (lit ''ok no'') (lit ''ok'') = 5000"
  proof -
    have "{lit ''ok'', lit ''no''} \<inter> {lit ''ok''} = {lit ''ok''}" by auto
    moreover have "card {lit ''ok'', lit ''no''} = 2" by simp
    ultimately show ?thesis by (simp add: overlap_def tokens_def ex_crew_env_def tk del: lit_simps)
  qed
  have rc: "memory_recall ex_crew_env 5000 ex_memory = \<lparr>rc_context = PStr (lit ''ok''), rc_metadata = PDict [], rc_score = 5000\<rparr>"
    by (simp add: memory_recall_def ex_memory_def memory_def recall_memory ex_crew_env_def del: lit_simps)
  have P: "{k \<in> ns_keys [(lit ''crewai'', lit ''k'') \<mapsto> ex_memory] (lit ''crewai'').
      1 \<le> overlap ex_crew_env (lit ''ok no'') (memory_text (the (([(lit ''crewai'', lit ''k'') \<mapsto> ex_memory]) (lit ''crewai'', k))))} = {lit ''k''}"
    using sc mt by (auto simp: ns_keys_def simp del: lit_simps)
  have "(0 :: int) \<le> 3" by simp
  note t = crew_search_best [OF i this m, where CE = ex_crew_env and query = "lit ''ok no''" and threshold = 1,
      unfolded Let_def cr s(3), unfolded P]
  then obtain ks where ks: "crew_search (mem_ops (table_codec [ex_memory]) sum_list) ex_crew_env (lit ''ok no'') 3 1 ?cr =
      Inr (map (\<lambda>k. memory_recall ex_crew_env (overlap ex_crew_env (lit ''ok no'')
        (memory_text (the (([(lit ''crewai'', lit ''k'') \<mapsto> ex_memory]) (lit ''crewai'', k)))))
        (the (([(lit ''crewai'', lit ''k'') \<mapsto> ex_memory]) (lit ''crewai'', k)))) ks)"
    "set ks \<subseteq> {lit ''k''}" "length ks = min (nat 3) (card {lit ''k''})" by blast
  from ks(2,3) have "ks = [lit ''k'']" by (cases ks) (auto simp del: lit_simps)
  with ks(1) s(1) sc mt rc show ?thesis by (simp del: lit_simps)
qed

end
