(* ===== verification/Metrics.thy ===== *)
theory Metrics
  imports Saver_Threads
begin

text \<open>
  \<^verbatim>\<open>src/python/swarmstate/observability.py\<close> and the instrumentation of the checkpointer
  (\<open>_measure\<close>, \<open>_run\<close> and the measured entry points of
  \<^verbatim>\<open>src/python/swarmstate/integrations/langgraph.py\<close>). Durations are of any linearly ordered type;
  float arithmetic and the \<open>statistics\<close> functions are parameters (\<open>metrics_env\<close>). A tracer is the
  sequence of calls it receives: entering a span, attributes, an error, leaving the span; its calls
  do not raise. A sink is a record function over its state that may raise.
\<close>

section \<open>In-memory metrics\<close>

record 'f metrics_env =
  me_ms :: "'f \<Rightarrow> 'f"
  me_rank99 :: "nat \<Rightarrow> int"
  me_mean :: "'f list \<Rightarrow> 'f"
  me_median :: "'f list \<Rightarrow> 'f"
  me_round :: "'f \<Rightarrow> 'f"

record 'f memory_metrics =
  m_samples :: "(pystr, 'f list) dict"
  m_errors :: "(pystr, nat) dict"

definition metrics_init :: "'f memory_metrics" where
  "metrics_init = \<lparr>m_samples = [], m_errors = []\<rparr>"

text \<open>\<open>record\<close>: \<open>setdefault(op, []).append(...)\<close> and the error count.\<close>

definition metrics_record :: "'f metrics_env \<Rightarrow> pystr \<Rightarrow> 'f \<Rightarrow> pystr \<Rightarrow> bool \<Rightarrow> 'f memory_metrics \<Rightarrow> 'f memory_metrics" where
  "metrics_record ME op duration_s thread_id ok mm =
     mm\<lparr>m_samples := dset op (the_default [] (dget (m_samples mm) op) @ [me_ms ME duration_s]) (m_samples mm),
        m_errors := (if ok then m_errors mm
                     else dset op (the_default 0 (dget (m_errors mm) op) + 1) (m_errors mm))\<rparr>"

record 'f op_summary =
  s_count :: nat
  s_errors :: nat
  s_mean :: 'f
  s_p50 :: 'f
  s_p99 :: 'f

text \<open>\<open>s[i]\<close>, with Python's negative indices and \<open>IndexError\<close>.\<close>

definition py_nth :: "'a list \<Rightarrow> int \<Rightarrow> exc + 'a" where
  "py_nth xs i =
     (if 0 \<le> i \<and> i < int (length xs) then Inr (xs ! nat i)
      else if i < 0 \<and> - int (length xs) \<le> i then Inr (xs ! nat (int (length xs) + i))
      else Inl IndexError)"

definition p99_index :: "'f metrics_env \<Rightarrow> nat \<Rightarrow> int" where
  "p99_index ME n = min (int n - 1) (max 0 (me_rank99 ME n - 1))"

text \<open>\<open>statistics.fmean\<close> and \<open>median\<close> raise \<open>StatisticsError\<close>, a \<open>ValueError\<close>, without data.\<close>

definition summarize :: "'f::linorder metrics_env \<Rightarrow> nat \<Rightarrow> 'f list \<Rightarrow> exc + 'f op_summary" where
  "summarize ME errors ms =
     (let s = sort ms
      in bindE (py_nth s (p99_index ME (length s))) (\<lambda>p99.
         if s = [] then Inl (ValueError ''StatisticsError'')
         else Inr \<lparr>s_count = length s, s_errors = errors, s_mean = me_round ME (me_mean ME s),
                   s_p50 = me_round ME (me_median ME s), s_p99 = me_round ME p99\<rparr>))"

definition metrics_summary :: "'f::linorder metrics_env \<Rightarrow> 'f memory_metrics \<Rightarrow> exc + (pystr, 'f op_summary) dict" where
  "metrics_summary ME mm =
     bindE (mapE (\<lambda>(op, ms). bindE (summarize ME (the_default 0 (dget (m_errors mm) op)) ms) (\<lambda>s. Inr (op, s)))
              (m_samples mm))
       (\<lambda>rs. Inr (dict_of rs))"

definition metrics_reset :: "'f memory_metrics \<Rightarrow> 'f memory_metrics" where
  "metrics_reset mm = mm\<lparr>m_samples := [], m_errors := []\<rparr>"

section \<open>The other sinks\<close>

definition null_record :: "pystr \<Rightarrow> 'f \<Rightarrow> pystr \<Rightarrow> bool \<Rightarrow> 'm \<Rightarrow> exc + 'm" where
  "null_record op duration_s thread_id ok m = Inr m"

text \<open>\<open>OpenTelemetryMetrics\<close>: the instruments it creates and the calls it makes on them, with the
  attributes \<open>op\<close> and \<open>ok\<close>.\<close>

record instrument =
  in_name :: pystr
  in_unit :: pystr

record 'f otel_sink =
  ot_duration :: instrument
  ot_ops :: instrument
  ot_points :: "('f \<times> pystr \<times> bool) list"
  ot_adds :: "(nat \<times> pystr \<times> bool) list"

definition otel_init :: "'f otel_sink" where
  "otel_init = \<lparr>ot_duration = \<lparr>in_name = lit ''swarmstate.checkpoint.duration'', in_unit = lit ''ms''\<rparr>,
     ot_ops = \<lparr>in_name = lit ''swarmstate.checkpoint.operations'', in_unit = lit ''1''\<rparr>, ot_points = [], ot_adds = []\<rparr>"

definition otel_record :: "'f metrics_env \<Rightarrow> pystr \<Rightarrow> 'f \<Rightarrow> pystr \<Rightarrow> bool \<Rightarrow> 'f otel_sink \<Rightarrow> 'f otel_sink" where
  "otel_record ME op duration_s thread_id ok st =
     st\<lparr>ot_points := ot_points st @ [(me_ms ME duration_s, op, ok)], ot_adds := ot_adds st @ [(1, op, ok)]\<rparr>"

section \<open>Measuring an operation\<close>

datatype span_event = SpanStart pystr | SpanAttr pystr pyval | SpanError exc | SpanEnd

text \<open>The state of an instrumented saver: the saver, the sink, the tracer's calls.\<close>

record ('s, 'm) measured =
  ms_saver :: "'s saver"
  ms_sink :: 'm
  ms_events :: "span_event list"

text \<open>The instruments: a sink or none, a tracer or none.\<close>

record ('m, 'f) instruments =
  i_record :: "(pystr \<Rightarrow> 'f \<Rightarrow> pystr \<Rightarrow> bool \<Rightarrow> 'm \<Rightarrow> exc + 'm) option"
  i_tracer :: bool

definition emit :: "bool \<Rightarrow> span_event list \<Rightarrow> ('s, 'm) measured \<Rightarrow> ('s, 'm) measured" where
  "emit on es st = (if on then st\<lparr>ms_events := ms_events st @ es\<rparr> else st)"

text \<open>
  \<open>_measure\<close> around \<open>fn\<close>, \<open>duration\<close> being what the clock shows: an exception of \<open>fn\<close> is marked on
  the span and re-raised after the sink has recorded the failure; an exception of the sink replaces
  the outcome.
\<close>

definition measure_op ::
  "('m, 'f) instruments \<Rightarrow> 'f \<Rightarrow> pystr \<Rightarrow> pystr \<Rightarrow> (pystr \<times> pyval) list \<Rightarrow> ('s saver, 'a) act \<Rightarrow>
   (('s, 'm) measured, 'a) act" where
  "measure_op I duration op thread_id attrs fn st =
     (let tr = i_tracer I;
          st1 = emit tr (SpanStart (lit ''swarmstate.checkpoint.'' @ op) #
                  map (\<lambda>(k, v). SpanAttr (lit ''swarmstate.'' @ k) v) (filter (\<lambda>(k, v). v \<noteq> PNone) attrs)) st;
          (r, sv) = fn (ms_saver st1);
          st2 = emit tr (case r of Inl e \<Rightarrow> [SpanError e] | Inr _ \<Rightarrow> []) (st1\<lparr>ms_saver := sv\<rparr>)
      in case i_record I of
           None \<Rightarrow> (r, emit tr [SpanEnd] st2)
         | Some rec \<Rightarrow>
             (case rec op duration thread_id (case r of Inl _ \<Rightarrow> False | Inr _ \<Rightarrow> True) (ms_sink st2) of
                Inl e \<Rightarrow> (Inl e, emit tr [SpanEnd] st2)
              | Inr m \<Rightarrow> (r, emit tr [SpanEnd] (st2\<lparr>ms_sink := m\<rparr>))))"

definition on_saver :: "('s saver, 'a) act \<Rightarrow> (('s, 'm) measured, 'a) act" where
  "on_saver fn st = (case fn (ms_saver st) of (r, sv) \<Rightarrow> (r, st\<lparr>ms_saver := sv\<rparr>))"

text \<open>\<open>put\<close>, \<open>put_writes\<close> and \<open>get_tuple\<close>: the plain operation without instruments, else measured with
  the attributes of the call.\<close>

definition uninstrumented :: "('m, 'f) instruments \<Rightarrow> bool" where
  "uninstrumented I \<longleftrightarrow> i_record I = None \<and> \<not> i_tracer I"

definition put_attrs :: "config \<Rightarrow> pyval \<Rightarrow> 's saver \<Rightarrow> exc + (pystr \<times> pyval) list" where
  "put_attrs config checkpoint sv =
     bindE (need (cfg_thread_id config)) (\<lambda>t.
     bindE (getitem checkpoint (lit ''id'')) (\<lambda>cid.
       Inr [(lit ''thread_id'', PStr t), (lit ''checkpoint_ns'', PStr (cfg_ns config)),
            (lit ''checkpoint_id'', cid), (lit ''incremental'', PBool (incremental sv))]))"

definition writes_attrs :: "config \<Rightarrow> (pystr \<times> pyval) list \<Rightarrow> pystr \<Rightarrow> exc + (pystr \<times> pyval) list" where
  "writes_attrs config writes task_id =
     bindE (need (cfg_thread_id config)) (\<lambda>t.
       Inr [(lit ''thread_id'', PStr t), (lit ''checkpoint_ns'', PStr (cfg_ns config)),
            (lit ''checkpoint_id'', cfg_id config), (lit ''task_id'', PStr task_id),
            (lit ''writes'', PInt (int (length writes)))])"

definition get_attrs :: "lg_env \<Rightarrow> config \<Rightarrow> exc + (pystr \<times> pyval) list" where
  "get_attrs E config =
     bindE (need (cfg_thread_id config)) (\<lambda>t.
       Inr [(lit ''thread_id'', PStr t), (lit ''checkpoint_ns'', PStr (cfg_ns config)),
            (lit ''checkpoint_id'', get_checkpoint_id E config)])"

definition measured_put ::
  "('m, 'f) instruments \<Rightarrow> 'f \<Rightarrow> 's store_ops \<Rightarrow> lg_env \<Rightarrow> config \<Rightarrow> pyval \<Rightarrow> pyval \<Rightarrow> (pystr, pyval) dict \<Rightarrow>
   (('s, 'm) measured, config) act" where
  "measured_put I d ops E config checkpoint metadata new_versions =
     (if uninstrumented I then on_saver (put ops E config checkpoint metadata new_versions)
      else bindA (liftE (need (cfg_thread_id config))) (\<lambda>t.
           bindA (readA (\<lambda>st. put_attrs config checkpoint (ms_saver st))) (\<lambda>attrs.
             measure_op I d (lit ''put'') t attrs (put ops E config checkpoint metadata new_versions))))"

definition measured_put_writes ::
  "('m, 'f) instruments \<Rightarrow> 'f \<Rightarrow> 's store_ops \<Rightarrow> lg_env \<Rightarrow> config \<Rightarrow> (pystr \<times> pyval) list \<Rightarrow> pystr \<Rightarrow> pystr \<Rightarrow>
   (('s, 'm) measured, unit) act" where
  "measured_put_writes I d ops E config writes task_id task_path =
     (if uninstrumented I then on_saver (put_writes ops E config writes task_id task_path)
      else bindA (liftE (need (cfg_thread_id config))) (\<lambda>t.
           bindA (liftE (writes_attrs config writes task_id)) (\<lambda>attrs.
             measure_op I d (lit ''put_writes'') t attrs (put_writes ops E config writes task_id task_path))))"

definition measured_get_tuple ::
  "('m, 'f) instruments \<Rightarrow> 'f \<Rightarrow> 's store_ops \<Rightarrow> lg_env \<Rightarrow> config \<Rightarrow> (('s, 'm) measured, ckpt_tuple option) act" where
  "measured_get_tuple I d ops E config =
     (if uninstrumented I then on_saver (get_tuple ops E config)
      else bindA (liftE (need (cfg_thread_id config))) (\<lambda>t.
           bindA (liftE (get_attrs E config)) (\<lambda>attrs.
             measure_op I d (lit ''get_tuple'') t attrs (get_tuple ops E config))))"

text \<open>\<open>aput\<close>, \<open>aput_writes\<close> and \<open>aget_tuple\<close>: without native async support the sync method in a worker
  thread, else the awaited operation, measured when there are instruments.\<close>

definition measured_aput ::
  "bool \<Rightarrow> ('m, 'f) instruments \<Rightarrow> 'f \<Rightarrow> 's store_ops \<Rightarrow> lg_env \<Rightarrow> config \<Rightarrow> pyval \<Rightarrow> pyval \<Rightarrow> (pystr, pyval) dict \<Rightarrow>
   (('s, 'm) measured, config) act" where
  "measured_aput native I d ops E config checkpoint metadata new_versions =
     (if \<not> native then measured_put I d ops E config checkpoint metadata new_versions
      else if uninstrumented I then on_saver (aput ops E config checkpoint metadata new_versions)
      else bindA (liftE (need (cfg_thread_id config))) (\<lambda>t.
           bindA (readA (\<lambda>st. put_attrs config checkpoint (ms_saver st))) (\<lambda>attrs.
             measure_op I d (lit ''put'') t attrs (aput ops E config checkpoint metadata new_versions))))"

definition measured_aput_writes ::
  "bool \<Rightarrow> ('m, 'f) instruments \<Rightarrow> 'f \<Rightarrow> 's store_ops \<Rightarrow> lg_env \<Rightarrow> config \<Rightarrow> (pystr \<times> pyval) list \<Rightarrow> pystr \<Rightarrow> pystr \<Rightarrow>
   (('s, 'm) measured, unit) act" where
  "measured_aput_writes native I d ops E config writes task_id task_path =
     (if \<not> native then measured_put_writes I d ops E config writes task_id task_path
      else if uninstrumented I then on_saver (aput_writes ops E config writes task_id task_path)
      else bindA (liftE (need (cfg_thread_id config))) (\<lambda>t.
           bindA (liftE (writes_attrs config writes task_id)) (\<lambda>attrs.
             measure_op I d (lit ''put_writes'') t attrs (aput_writes ops E config writes task_id task_path))))"

definition measured_aget_tuple ::
  "bool \<Rightarrow> ('m, 'f) instruments \<Rightarrow> 'f \<Rightarrow> 's store_ops \<Rightarrow> lg_env \<Rightarrow> config \<Rightarrow> (('s, 'm) measured, ckpt_tuple option) act" where
  "measured_aget_tuple native I d ops E config =
     (if \<not> native then measured_get_tuple I d ops E config
      else if uninstrumented I then on_saver (aget_tuple ops E config)
      else bindA (liftE (need (cfg_thread_id config))) (\<lambda>t.
           bindA (liftE (get_attrs E config)) (\<lambda>attrs.
             measure_op I d (lit ''get_tuple'') t attrs (aget_tuple ops E config))))"

end
