(* ===== verification/Metrics_Props.thy ===== *)
theory Metrics_Props
  imports Metrics Saver_Props
begin

text \<open>
  The in-memory sink counts what was recorded and its summary never fails; measuring an operation
  changes neither its outcome nor what it does to the saver.
\<close>

section \<open>The summary\<close>

type_synonym 'f sample = "pystr \<times> 'f \<times> pystr \<times> bool"

definition record_all :: "'f metrics_env \<Rightarrow> 'f sample list \<Rightarrow> 'f memory_metrics" where
  "record_all ME rs = fold (\<lambda>(op, d, t, ok). metrics_record ME op d t ok) rs metrics_init"

definition samples_of :: "'f metrics_env \<Rightarrow> pystr \<Rightarrow> 'f sample list \<Rightarrow> 'f list" where
  "samples_of ME op rs = map (\<lambda>(_, d, _, _). me_ms ME d) (filter (\<lambda>(op', _, _, _). op' = op) rs)"

definition failures_of :: "pystr \<Rightarrow> 'f sample list \<Rightarrow> nat" where
  "failures_of op rs = length (filter (\<lambda>(op', _, _, ok). op' = op \<and> \<not> ok) rs)"

lemma record_all_snoc: "record_all ME (rs @ [(op, d, t, ok)]) = metrics_record ME op d t ok (record_all ME rs)"
  by (simp add: record_all_def)

lemma record_all_samples:
  "dget (m_samples (record_all ME rs)) op = (if samples_of ME op rs = [] then None else Some (samples_of ME op rs))"
proof (induction rs rule: rev_induct)
  case (snoc r rs)
  then show ?case
    by (cases r) (auto simp: record_all_snoc metrics_record_def dget_dset samples_of_def)
qed (simp add: record_all_def metrics_init_def samples_of_def)

lemma record_all_errors: "the_default 0 (dget (m_errors (record_all ME rs)) op) = failures_of op rs"
proof (induction rs rule: rev_induct)
  case (snoc r rs)
  then show ?case
    by (cases r) (auto simp: record_all_snoc metrics_record_def dget_dset failures_of_def)
qed (simp add: record_all_def metrics_init_def failures_of_def)

lemma record_all_ok: "dict_ok (m_samples (record_all ME rs))"
proof (induction rs rule: rev_induct)
  case (snoc r rs)
  then show ?case by (cases r) (simp add: record_all_snoc metrics_record_def)
qed (simp add: record_all_def metrics_init_def)

lemma p99_index_bounds: "0 < n \<Longrightarrow> 0 \<le> p99_index ME n \<and> p99_index ME n < int n"
  by (auto simp: p99_index_def)

lemma summarize_run:
  assumes "ms \<noteq> []"
  obtains x where "x \<in> set ms" "summarize ME e ms = Inr \<lparr>s_count = length ms, s_errors = e,
    s_mean = me_round ME (me_mean ME (sort ms)), s_p50 = me_round ME (me_median ME (sort ms)), s_p99 = me_round ME x\<rparr>"
proof -
  let ?i = "p99_index ME (length ms)"
  have i: "0 \<le> ?i" "?i < int (length ms)" using p99_index_bounds [of "length ms" ME] assms by auto
  then have "sort ms ! nat ?i \<in> set (sort ms)" by (intro nth_mem) simp
  moreover have "sort ms \<noteq> []" using assms by (metis length_0_conv length_sort)
  ultimately show ?thesis using i by (intro that [of "sort ms ! nat ?i"]) (simp_all add: summarize_def py_nth_def Let_def)
qed



section \<open>Measuring changes nothing\<close>

text \<open>A sink that never raises, or none.\<close>

definition sink_total :: "('m, 'f) instruments \<Rightarrow> bool" where
  "sink_total I \<longleftrightarrow> (\<forall>rec. i_record I = Some rec \<longrightarrow> (\<forall>op d t ok m. \<exists>m'. rec op d t ok m = Inr m'))"

lemma measure_transparent:
  assumes "sink_total I"
    and "fn (ms_saver st) = (r, sv)" "measure_op I d op t attrs fn st = (r', st')"
  shows "r' = r \<and> ms_saver st' = sv"
proof (cases "i_record I")
  case None
  with assms(2,3) show ?thesis by (auto simp: measure_op_def emit_def Let_def split: if_splits)
next
  case (Some rec)
  let ?ok = "case r of Inl _ \<Rightarrow> False | Inr _ \<Rightarrow> True"
  obtain m where "rec op d t ?ok (ms_sink st) = Inr m" using assms(1) Some unfolding sink_total_def by blast
  with Some assms(2,3) show ?thesis by (auto simp: measure_op_def emit_def Let_def split: if_splits)
qed

lemma measure_records:
  assumes "i_record I = Some rec" "rec op d t (\<not> isl r) (ms_sink st) = Inr m"
    and "fn (ms_saver st) = (r, sv)" "measure_op I d op t attrs fn st = (r', st')"
  shows "ms_sink st' = m"
  using assms by (cases r) (auto simp: measure_op_def emit_def Let_def split: if_splits)

lemma measure_spans:
  assumes "i_tracer I" "fn (ms_saver st) = (r, sv)" "measure_op I d op t attrs fn st = (r', st')"
  shows "ms_events st' = ms_events st @ SpanStart (lit ''swarmstate.checkpoint.'' @ op) #
    map (\<lambda>(k, v). SpanAttr (lit ''swarmstate.'' @ k) v) (filter (\<lambda>(k, v). v \<noteq> PNone) attrs) @
    (case r of Inl e \<Rightarrow> [SpanError e] | Inr _ \<Rightarrow> []) @ [SpanEnd]"
  using assms by (auto simp: measure_op_def emit_def Let_def simp del: lit_simps split: option.splits sum.splits)

text \<open>The in-memory sink as an instrument, with or without a tracer.\<close>

definition memory_sink :: "'f metrics_env \<Rightarrow> bool \<Rightarrow> ('f memory_metrics, 'f) instruments" where
  "memory_sink ME tr = \<lparr>i_record = Some (\<lambda>op d t ok m. Inr (metrics_record ME op d t ok m)), i_tracer = tr\<rparr>"

lemma memory_sink_total: "sink_total (memory_sink ME tr)"
  by (simp add: sink_total_def memory_sink_def)

text \<open>A call without a thread id or a checkpoint id fails alike, before anything is measured.\<close>

lemma put_no_thread: "cfg_thread_id config = None \<Longrightarrow> put ops E config cp md nv sv = (Inl KeyError, sv)"
  by (simp add: put_def put_rows_def encode_put_def need_def act_simps)

lemma put_no_id: "cfg_thread_id config = Some t \<Longrightarrow> getitem cp (lit ''id'') = Inl e \<Longrightarrow>
    put ops E config cp md nv sv = (Inl e, sv)"
  by (simp add: put_def put_rows_def encode_put_def need_def act_simps del: lit_simps)

lemma writes_no_thread: "cfg_thread_id config = None \<Longrightarrow> put_writes ops E config ws task path sv = (Inl KeyError, sv)"
  by (simp add: put_writes_def need_def act_simps)

lemma get_no_thread: "cfg_thread_id config = None \<Longrightarrow> get_tuple ops E config sv = (Inl KeyError, sv)"
  by (simp add: get_tuple_def resolve_def need_def act_simps)

lemma measured_put_saver:
  assumes tot: "sink_total I"
  shows "fst (measured_put I d ops E config cp md nv st) = fst (put ops E config cp md nv (ms_saver st)) \<and>
    ms_saver (snd (measured_put I d ops E config cp md nv st)) = snd (put ops E config cp md nv (ms_saver st))"
proof (cases "uninstrumented I")
  case False
  show ?thesis
  proof (cases "cfg_thread_id config")
    case (Some t)
    show ?thesis
    proof (cases "getitem cp (lit ''id'')")
      case (Inl e)
      then show ?thesis using False Some put_no_id [OF Some Inl, of ops E md nv]
        by (simp add: measured_put_def put_attrs_def need_def act_simps del: lit_simps)
    next
      case (Inr cid)
      obtain attrs where "measured_put I d ops E config cp md nv st =
          measure_op I d (lit ''put'') t attrs (put ops E config cp md nv) st"
        using False Some Inr by (simp add: measured_put_def put_attrs_def need_def act_simps del: lit_simps)
      then show ?thesis using measure_transparent [OF tot, of "put ops E config cp md nv" st] by (metis prod.collapse)
    qed
  qed (use False in \<open>simp add: measured_put_def need_def act_simps put_no_thread\<close>)
qed (simp add: measured_put_def on_saver_def case_prod_beta)

lemma measured_writes_saver:
  assumes tot: "sink_total I"
  shows "fst (measured_put_writes I d ops E config ws task path st) = fst (put_writes ops E config ws task path (ms_saver st)) \<and>
    ms_saver (snd (measured_put_writes I d ops E config ws task path st)) = snd (put_writes ops E config ws task path (ms_saver st))"
proof (cases "uninstrumented I \<or> cfg_thread_id config = None")
  case False
  then obtain t attrs where "measured_put_writes I d ops E config ws task path st =
      measure_op I d (lit ''put_writes'') t attrs (put_writes ops E config ws task path) st"
    by (auto simp: measured_put_writes_def writes_attrs_def need_def act_simps simp del: lit_simps)
  then show ?thesis using measure_transparent [OF tot, of "put_writes ops E config ws task path" st] by (metis prod.collapse)
qed (auto simp: measured_put_writes_def on_saver_def case_prod_beta need_def act_simps writes_no_thread)

lemma measured_get_saver:
  assumes tot: "sink_total I"
  shows "fst (measured_get_tuple I d ops E config st) = fst (get_tuple ops E config (ms_saver st)) \<and>
    ms_saver (snd (measured_get_tuple I d ops E config st)) = snd (get_tuple ops E config (ms_saver st))"
proof (cases "uninstrumented I \<or> cfg_thread_id config = None")
  case False
  then obtain t attrs where "measured_get_tuple I d ops E config st =
      measure_op I d (lit ''get_tuple'') t attrs (get_tuple ops E config) st"
    by (auto simp: measured_get_tuple_def get_attrs_def need_def act_simps simp del: lit_simps)
  then show ?thesis using measure_transparent [OF tot, of "get_tuple ops E config" st] by (metis prod.collapse)
qed (auto simp: measured_get_tuple_def on_saver_def case_prod_beta need_def act_simps get_no_thread)



text \<open>A sink that raises replaces the outcome of the operation, a result as well as an exception.\<close>

lemma sink_failure_masks:
  assumes "i_record I = Some rec" "\<And>op d t ok m. rec op d t ok m = Inl e"
  shows "fst (measure_op I duration op thread_id attrs fn st) = Inl e"
  using assms by (simp add: measure_op_def Let_def split: prod.splits sum.splits)

section \<open>The OpenTelemetry sink\<close>

text \<open>Every record adds one to the counter and one point to the histogram, with the same
  attributes; however many threads there are, an operation has at most two attribute sets.\<close>

definition otel_all :: "'f metrics_env \<Rightarrow> (pystr \<times> 'f \<times> pystr \<times> bool) list \<Rightarrow> 'f otel_sink" where
  "otel_all ME rs = fold (\<lambda>(op, d, th, ok). otel_record ME op d th ok) rs otel_init"

lemma otel_fold:
  "ot_points (fold (\<lambda>(op, d, th, ok). otel_record ME op d th ok) rs st) = ot_points st @ map (\<lambda>(op, d, th, ok). (me_ms ME d, op, ok)) rs
   \<and> ot_adds (fold (\<lambda>(op, d, th, ok). otel_record ME op d th ok) rs st) = ot_adds st @ map (\<lambda>(op, d, th, ok). (1, op, ok)) rs"
  by (induction rs arbitrary: st) (auto simp: otel_record_def)

lemma otel_cardinality:
  "set (map snd (ot_adds (otel_all ME rs))) \<subseteq> (fst ` set rs) \<times> UNIV"
  "map snd (ot_points (otel_all ME rs)) = map snd (ot_adds (otel_all ME rs))"
  "card (set (map snd (ot_adds (otel_all ME rs)))) \<le> 2 * card (fst ` set rs)"
proof -
  show s: "set (map snd (ot_adds (otel_all ME rs))) \<subseteq> (fst ` set rs) \<times> UNIV"
    by (auto simp: otel_all_def otel_fold otel_init_def) force
  show "map snd (ot_points (otel_all ME rs)) = map snd (ot_adds (otel_all ME rs))"
    by (auto simp: otel_all_def otel_fold otel_init_def)
  have "card (set (map snd (ot_adds (otel_all ME rs)))) \<le> card ((fst ` set rs) \<times> (UNIV :: bool set))"
    by (rule card_mono [OF _ s]) simp
  then show "card (set (map snd (ot_adds (otel_all ME rs)))) \<le> 2 * card (fst ` set rs)"
    by (simp add: card_cartesian_product)
qed

end
