(* ===== verification/Redis_Store.thy ===== *)
theory Redis_Store
  imports Disk_Store
begin

text \<open>
  \<^verbatim>\<open>src/python/swarmstate/backends/redis.py\<close>: each namespace is a Redis hash at
  \<open>{prefix}:{namespace}\<close>. The server, as the client library shows it, is a parameter: the record
  \<open>redis_api\<close> of the commands the store sends, over the server's state. The commands that the store
  groups in a \<open>MULTI\<close>/\<open>EXEC\<close> pipeline are data (\<open>rcmd\<close>), executed by \<open>r_exec\<close>. Replies are text
  where the source decodes them. What the store relies on is stated in \<open>Redis_Laws\<close>.
\<close>

section \<open>The server\<close>

datatype rcmd =
    HSet pystr pystr bytes
  | HSetMap pystr "(pystr, bytes) dict"
  | HDel pystr "pystr list"
  | HLen pystr
  | Del "pystr list"

record 'r redis_api =
  r_hset :: "'r \<Rightarrow> pystr \<Rightarrow> pystr \<Rightarrow> bytes \<Rightarrow> exc + 'r"
  r_hget :: "'r \<Rightarrow> pystr \<Rightarrow> pystr \<Rightarrow> bytes option"
  r_hexists :: "'r \<Rightarrow> pystr \<Rightarrow> pystr \<Rightarrow> bool"
  r_hdel :: "'r \<Rightarrow> pystr \<Rightarrow> pystr \<Rightarrow> nat \<times> 'r"
  r_hlen :: "'r \<Rightarrow> pystr \<Rightarrow> nat"
  r_hkeys :: "'r \<Rightarrow> pystr \<Rightarrow> pystr list"
  r_hscan :: "'r \<Rightarrow> pystr \<Rightarrow> pystr \<Rightarrow> pystr list"
  r_hgetall :: "'r \<Rightarrow> pystr \<Rightarrow> (pystr, bytes) dict"
  r_scan :: "'r \<Rightarrow> pystr \<Rightarrow> pystr list"
  r_delete :: "'r \<Rightarrow> pystr list \<Rightarrow> 'r"
  r_exists :: "'r \<Rightarrow> pystr \<Rightarrow> bool"
  r_exec :: "'r \<Rightarrow> rcmd list \<Rightarrow> exc + (nat list \<times> 'r)"
  r_hget_pipe :: "'r \<Rightarrow> (pystr \<times> pystr) list \<Rightarrow> bytes option list"

record 'r redis_store =
  rs_server :: 'r
  rs_prefix :: pystr
  rs_codec :: pystr
  rs_snap_meta :: snapshot_meta

definition redis_init :: "'r \<Rightarrow> pystr \<Rightarrow> pystr \<Rightarrow> exc + 'r redis_store" where
  "redis_init client pre codec =
     (if codec \<noteq> lit ''msgpack'' then Inl (ValueError ''codec is not supported'')
      else Inr \<lparr>rs_server = client, rs_prefix = pre, rs_codec = codec, rs_snap_meta = snapshot_meta_init\<rparr>)"

section \<open>Keys and patterns\<close>

fun glob_escape :: "pystr \<Rightarrow> pystr" where
  "glob_escape [] = []"
| "glob_escape (ch # s) =
     (if ch \<in> {92, 42, 63, 91, 93, 94} then 92 # ch # glob_escape s else ch # glob_escape s)"

definition hkey :: "'r redis_store \<Rightarrow> pystr \<Rightarrow> pystr" where
  "hkey st namespace = rs_prefix st @ 58 # namespace"

definition hkey_pattern :: "'r redis_store \<Rightarrow> pystr option \<Rightarrow> pystr" where
  "hkey_pattern st ns_prefix =
     glob_escape (rs_prefix st) @ 58 #
     (case ns_prefix of None \<Rightarrow> [42] | Some p \<Rightarrow> if p \<noteq> [] then glob_escape p @ [42] else [42])"

definition iter_hkeys :: "'r redis_api \<Rightarrow> 'r redis_store \<Rightarrow> pystr option \<Rightarrow> pystr list" where
  "iter_hkeys R st ns_prefix = r_scan R (rs_server st) (hkey_pattern st ns_prefix)"

definition ns_of :: "'r redis_store \<Rightarrow> pystr \<Rightarrow> pystr" where
  "ns_of st key = drop (length (rs_prefix st) + 1) key"

section \<open>Operations\<close>

definition redis_set :: "codec \<Rightarrow> 'r redis_api \<Rightarrow> 'r redis_store \<Rightarrow> pystr \<Rightarrow> pystr \<Rightarrow> pyval \<Rightarrow> exc + 'r redis_store" where
  "redis_set C R st namespace key value =
     bindE (encode C value) (\<lambda>b.
     bindE (r_hset R (rs_server st) (hkey st namespace) key b) (\<lambda>r. Inr (st\<lparr>rs_server := r\<rparr>)))"

definition unpack_or :: "codec \<Rightarrow> pyval \<Rightarrow> bytes option \<Rightarrow> exc + pyval" where
  "unpack_or C dflt raw = (case raw of None \<Rightarrow> Inr dflt | Some b \<Rightarrow> decode C b)"

definition redis_get :: "codec \<Rightarrow> 'r redis_api \<Rightarrow> 'r redis_store \<Rightarrow> pystr \<Rightarrow> pystr \<Rightarrow> pyval \<Rightarrow> exc + pyval" where
  "redis_get C R st namespace key dflt = unpack_or C dflt (r_hget R (rs_server st) (hkey st namespace) key)"

definition redis_set_many :: "codec \<Rightarrow> 'r redis_api \<Rightarrow> 'r redis_store \<Rightarrow> entry list \<Rightarrow> exc + 'r redis_store" where
  "redis_set_many C R st items =
     (if items = [] then Inr st
      else bindE (mapE (\<lambda>(ns, k, v). bindE (encode C v) (\<lambda>b. Inr (HSet (hkey st ns) k b))) items) (\<lambda>cmds.
           bindE (r_exec R (rs_server st) cmds) (\<lambda>(_, r). Inr (st\<lparr>rs_server := r\<rparr>))))"

definition redis_get_many :: "codec \<Rightarrow> 'r redis_api \<Rightarrow> 'r redis_store \<Rightarrow> (pystr \<times> pystr) list \<Rightarrow> exc + pyval list" where
  "redis_get_many C R st pairs =
     (if pairs = [] then Inr []
      else mapE (unpack_or C PNone) (r_hget_pipe R (rs_server st) (map (\<lambda>(ns, k). (hkey st ns, k)) pairs)))"

definition redis_contains :: "'r redis_api \<Rightarrow> 'r redis_store \<Rightarrow> pystr \<Rightarrow> pystr \<Rightarrow> bool" where
  "redis_contains R st namespace key = r_hexists R (rs_server st) (hkey st namespace) key"

definition redis_delete :: "'r redis_api \<Rightarrow> 'r redis_store \<Rightarrow> pystr \<Rightarrow> pystr \<Rightarrow> bool \<times> 'r redis_store" where
  "redis_delete R st namespace key =
     (let (n, r) = r_hdel R (rs_server st) (hkey st namespace) key in (n > 0, st\<lparr>rs_server := r\<rparr>))"

text \<open>A pipeline of deletions; a reply that does not come raises in the source and leaves the server
  as it was, which is how it is taken here.\<close>

definition exec_counts :: "'r redis_api \<Rightarrow> 'r redis_store \<Rightarrow> rcmd list \<Rightarrow> nat list \<times> 'r redis_store" where
  "exec_counts R st cmds =
     (case r_exec R (rs_server st) cmds of Inl _ \<Rightarrow> ([], st) | Inr (ns, r) \<Rightarrow> (ns, st\<lparr>rs_server := r\<rparr>))"

definition redis_delete_many :: "'r redis_api \<Rightarrow> 'r redis_store \<Rightarrow> (pystr \<times> pystr) list \<Rightarrow> nat \<times> 'r redis_store" where
  "redis_delete_many R st pairs =
     (let by_ns = group_by_ns pairs
      in if by_ns = [] then (0, st)
         else let (ns, st') = exec_counts R st (map (\<lambda>(ns, fields). HDel (hkey st ns) fields) by_ns)
              in (sum_list ns, st'))"

definition redis_delete_namespace :: "'r redis_api \<Rightarrow> 'r redis_store \<Rightarrow> pystr \<Rightarrow> nat \<times> 'r redis_store" where
  "redis_delete_namespace R st namespace =
     (let (ns, st') = exec_counts R st [HLen (hkey st namespace), Del [hkey st namespace]]
      in (case ns of n # _ \<Rightarrow> n | [] \<Rightarrow> 0, st'))"

definition redis_keys :: "'r redis_api \<Rightarrow> 'r redis_store \<Rightarrow> pystr \<Rightarrow> pystr option \<Rightarrow> pystr list" where
  "redis_keys R st namespace pre =
     (case pre of
        None \<Rightarrow> r_hkeys R (rs_server st) (hkey st namespace)
      | Some p \<Rightarrow> r_hscan R (rs_server st) (hkey st namespace) (glob_escape p @ [42]))"

definition redis_max_key :: "'r redis_api \<Rightarrow> 'r redis_store \<Rightarrow> pystr \<Rightarrow> pystr option" where
  "redis_max_key R st namespace = max_str (redis_keys R st namespace None)"

definition redis_namespaces :: "'r redis_api \<Rightarrow> 'r redis_store \<Rightarrow> pystr option \<Rightarrow> pystr list" where
  "redis_namespaces R st pre = map (ns_of st) (iter_hkeys R st pre)"

definition redis_clear :: "'r redis_api \<Rightarrow> 'r redis_store \<Rightarrow> 'r redis_store" where
  "redis_clear R st =
     (let hkeys = iter_hkeys R st None
      in if hkeys \<noteq> [] then st\<lparr>rs_server := r_delete R (rs_server st) hkeys\<rparr> else st)"

definition redis_len :: "'r redis_api \<Rightarrow> 'r redis_store \<Rightarrow> nat" where
  "redis_len R st = sum_list (map (r_hlen R (rs_server st)) (iter_hkeys R st None))"

definition redis_has_namespace :: "'r redis_api \<Rightarrow> 'r redis_store \<Rightarrow> pystr \<Rightarrow> bool" where
  "redis_has_namespace R st namespace = r_exists R (rs_server st) (hkey st namespace)"

section \<open>Snapshots\<close>

text \<open>\<open>RedisSnapshot\<close>: the copy-based snapshot and the per-namespace data.\<close>

type_synonym redis_data = "(pystr, (pystr, bytes) dict) dict"

definition redis_rows :: "redis_data \<Rightarrow> row list" where
  "redis_rows data = concat (map (\<lambda>(ns, kv). map (\<lambda>(k, v). (ns, k, v)) kv) data)"

definition redis_snapshot ::
  "'r redis_api \<Rightarrow> 64 word \<Rightarrow> 'r redis_store \<Rightarrow> (redis_data \<times> copy_snapshot) \<times> 'r redis_store" where
  "redis_snapshot R now st =
     (let data = dict_of (map (\<lambda>hk. (ns_of st hk, r_hgetall R (rs_server st) hk)) (iter_hkeys R st None));
          ((i, ts, parent), m) = meta_next now (rs_snap_meta st)
      in ((data, copy_snapshot_init (redis_rows data) i ts parent), st\<lparr>rs_snap_meta := m\<rparr>))"

definition redis_restore :: "'r redis_api \<Rightarrow> redis_data \<times> copy_snapshot \<Rightarrow> ('r redis_store, unit) act" where
  "redis_restore R sn st =
     (let stale = iter_hkeys R st None;
          cmds = (if stale \<noteq> [] then [Del stale] else []) @
            List.map_filter (\<lambda>(ns, kv). if kv \<noteq> [] then Some (HSetMap (hkey st ns) kv) else None) (fst sn)
      in case r_exec R (rs_server st) cmds of
           Inl e \<Rightarrow> (Inl e, st) | Inr (_, r) \<Rightarrow> (Inr (), st\<lparr>rs_server := r\<rparr>))"

definition redis_ops :: "codec \<Rightarrow> 'r redis_api \<Rightarrow> 'r redis_store store_ops" where
  "redis_ops C R =
     \<lparr>op_set = redis_set C R, op_get = redis_get C R,
      op_set_many = Some (redis_set_many C R), op_get_many = Some (redis_get_many C R),
      op_contains = redis_contains R, op_delete = redis_delete R,
      op_delete_many = Some (redis_delete_many R), op_delete_namespace = Some (redis_delete_namespace R),
      op_keys = (\<lambda>st ns. redis_keys R st ns None),
      op_keys_prefix = (\<lambda>st ns p. Inr (redis_keys R st ns (Some p))),
      op_max_key = redis_max_key R,
      op_namespaces = (\<lambda>st. redis_namespaces R st None),
      op_namespaces_prefix = (\<lambda>st p. Inr (redis_namespaces R st (Some p))),
      op_clear = redis_clear R, op_len = redis_len R, op_has_namespace = redis_has_namespace R,
      op_indexed_max_key = False\<rparr>"

section \<open>The async twins\<close>

text \<open>The \<open>a*\<close> methods, on the async client of the same server.\<close>

definition redis_aset :: "codec \<Rightarrow> 'r redis_api \<Rightarrow> 'r redis_store \<Rightarrow> pystr \<Rightarrow> pystr \<Rightarrow> pyval \<Rightarrow> exc + 'r redis_store" where
  "redis_aset C R st namespace key value =
     bindE (encode C value) (\<lambda>b.
     bindE (r_hset R (rs_server st) (hkey st namespace) key b) (\<lambda>r. Inr (st\<lparr>rs_server := r\<rparr>)))"

definition redis_aget :: "codec \<Rightarrow> 'r redis_api \<Rightarrow> 'r redis_store \<Rightarrow> pystr \<Rightarrow> pystr \<Rightarrow> pyval \<Rightarrow> exc + pyval" where
  "redis_aget C R st namespace key dflt = unpack_or C dflt (r_hget R (rs_server st) (hkey st namespace) key)"

definition redis_aset_many :: "codec \<Rightarrow> 'r redis_api \<Rightarrow> 'r redis_store \<Rightarrow> entry list \<Rightarrow> exc + 'r redis_store" where
  "redis_aset_many C R st items =
     (if items = [] then Inr st
      else bindE (mapE (\<lambda>(ns, k, v). bindE (encode C v) (\<lambda>b. Inr (HSet (hkey st ns) k b))) items) (\<lambda>cmds.
           bindE (r_exec R (rs_server st) cmds) (\<lambda>(_, r). Inr (st\<lparr>rs_server := r\<rparr>))))"

definition redis_aget_many :: "codec \<Rightarrow> 'r redis_api \<Rightarrow> 'r redis_store \<Rightarrow> (pystr \<times> pystr) list \<Rightarrow> exc + pyval list" where
  "redis_aget_many C R st pairs =
     (if pairs = [] then Inr []
      else mapE (unpack_or C PNone) (r_hget_pipe R (rs_server st) (map (\<lambda>(ns, k). (hkey st ns, k)) pairs)))"

definition redis_acontains :: "'r redis_api \<Rightarrow> 'r redis_store \<Rightarrow> pystr \<Rightarrow> pystr \<Rightarrow> bool" where
  "redis_acontains R st namespace key = r_hexists R (rs_server st) (hkey st namespace) key"

definition redis_adelete :: "'r redis_api \<Rightarrow> 'r redis_store \<Rightarrow> pystr \<Rightarrow> pystr \<Rightarrow> bool \<times> 'r redis_store" where
  "redis_adelete R st namespace key =
     (let (n, r) = r_hdel R (rs_server st) (hkey st namespace) key in (n > 0, st\<lparr>rs_server := r\<rparr>))"

definition redis_akeys :: "'r redis_api \<Rightarrow> 'r redis_store \<Rightarrow> pystr \<Rightarrow> pystr option \<Rightarrow> pystr list" where
  "redis_akeys R st namespace pre =
     (case pre of
        None \<Rightarrow> r_hkeys R (rs_server st) (hkey st namespace)
      | Some p \<Rightarrow> r_hscan R (rs_server st) (hkey st namespace) (glob_escape p @ [42]))"

definition redis_amax_key :: "'r redis_api \<Rightarrow> 'r redis_store \<Rightarrow> pystr \<Rightarrow> pystr option" where
  "redis_amax_key R st namespace = max_str (redis_akeys R st namespace None)"

definition redis_anamespaces :: "'r redis_api \<Rightarrow> 'r redis_store \<Rightarrow> pystr option \<Rightarrow> pystr list" where
  "redis_anamespaces R st pre =
     map (ns_of st) (r_scan R (rs_server st)
       (glob_escape (rs_prefix st) @ [58] @
        (case pre of Some p \<Rightarrow> if p \<noteq> [] then glob_escape p @ [42] else [42] | None \<Rightarrow> [42])))"

definition redis_adelete_many :: "'r redis_api \<Rightarrow> 'r redis_store \<Rightarrow> (pystr \<times> pystr) list \<Rightarrow> nat \<times> 'r redis_store" where
  "redis_adelete_many R st pairs =
     (let by_ns = group_by_ns pairs
      in if by_ns = [] then (0, st)
         else let (ns, st') = exec_counts R st (map (\<lambda>(ns, fields). HDel (hkey st ns) fields) by_ns)
              in (sum_list ns, st'))"

definition redis_adelete_namespace :: "'r redis_api \<Rightarrow> 'r redis_store \<Rightarrow> pystr \<Rightarrow> nat \<times> 'r redis_store" where
  "redis_adelete_namespace R st namespace =
     (let (ns, st') = exec_counts R st [HLen (hkey st namespace), Del [hkey st namespace]]
      in (case ns of n # _ \<Rightarrow> n | [] \<Rightarrow> 0, st'))"

text \<open>The store as the saver's async methods use it; clear, len and the namespace test are sync only.\<close>

definition redis_aops :: "codec \<Rightarrow> 'r redis_api \<Rightarrow> 'r redis_store store_ops" where
  "redis_aops C R =
     \<lparr>op_set = redis_aset C R, op_get = redis_aget C R,
      op_set_many = Some (redis_aset_many C R), op_get_many = Some (redis_aget_many C R),
      op_contains = redis_acontains R, op_delete = redis_adelete R,
      op_delete_many = Some (redis_adelete_many R), op_delete_namespace = Some (redis_adelete_namespace R),
      op_keys = (\<lambda>st ns. redis_akeys R st ns None),
      op_keys_prefix = (\<lambda>st ns p. Inr (redis_akeys R st ns (Some p))),
      op_max_key = redis_amax_key R,
      op_namespaces = (\<lambda>st. redis_anamespaces R st None),
      op_namespaces_prefix = (\<lambda>st p. Inr (redis_anamespaces R st (Some p))),
      op_clear = redis_clear R, op_len = redis_len R, op_has_namespace = redis_has_namespace R,
      op_indexed_max_key = False\<rparr>"

end
