(* ===== verification/Redis_Laws.thy ===== *)
theory Redis_Laws
  imports Redis_Store Disk_Store_Laws
begin

text \<open>
  The Redis store keeps the store contract on every server that behaves as the Redis documentation
  says (locale \<open>redis_server\<close>): \<open>view\<close> is what the server's hashes hold, \<open>glob\<close> when a key matches a
  pattern. A hash without fields does not exist; a transaction runs all its commands in order or
  none; \<open>SCAN\<close> and \<open>HSCAN\<close> return every matching name, here once each (Redis may repeat names while
  its tables are resized). As everywhere in the development, reading or deleting text that has no
  UTF-8 encoding finds nothing, where the client raises.
\<close>

section \<open>The server\<close>

type_synonym hashes = "pystr \<Rightarrow> pystr \<rightharpoonup> bytes"

text \<open>The reply and the effect of a command.\<close>

fun cmd_effect :: "rcmd \<Rightarrow> hashes \<Rightarrow> nat \<times> hashes" where
  "cmd_effect (HSet k f v) H = (if H k f = None then 1 else 0, H(k := (H k)(f \<mapsto> v)))"
| "cmd_effect (HSetMap k d) H = (card (set (dkeys d) - dom (H k)), H(k := H k ++ dget d))"
| "cmd_effect (HDel k fs) H = (card (set fs \<inter> dom (H k)), H(k := (\<lambda>f. if f \<in> set fs then None else H k f)))"
| "cmd_effect (HLen k) H = (card (dom (H k)), H)"
| "cmd_effect (Del ks) H = (card {k \<in> set ks. dom (H k) \<noteq> {}}, \<lambda>k. if k \<in> set ks then Map.empty else H k)"

fun run_cmds :: "rcmd list \<Rightarrow> hashes \<Rightarrow> nat list \<times> hashes" where
  "run_cmds [] H = ([], H)"
| "run_cmds (c # cs) H = (let (n, H1) = cmd_effect c H; (ns, H2) = run_cmds cs H1 in (n # ns, H2))"

text \<open>The commands that store text need it to have an encoding.\<close>

fun cmd_text :: "rcmd \<Rightarrow> bool" where
  "cmd_text (HSet k f v) \<longleftrightarrow> is_text k \<and> is_text f"
| "cmd_text (HSetMap k d) \<longleftrightarrow> is_text k \<and> d \<noteq> [] \<and> dict_ok d \<and> (\<forall>f \<in> set (dkeys d). is_text f)"
| "cmd_text _ \<longleftrightarrow> True"

locale redis_server =
  fixes R :: "'r redis_api"
    and rinv :: "'r \<Rightarrow> bool"
    and view :: "'r \<Rightarrow> hashes"
    and glob :: "pystr \<Rightarrow> pystr \<Rightarrow> bool"
  assumes glob_end: "glob [] s \<longleftrightarrow> s = []"
    and glob_star: "glob [42] s"
    and glob_quoted: "glob (92 # c # p) s \<longleftrightarrow> (\<exists>t. s = c # t \<and> glob p t)"
    and glob_plain: "c \<notin> {42, 63, 91, 92} \<Longrightarrow> glob (c # p) s \<longleftrightarrow> (\<exists>t. s = c # t \<and> glob p t)"
    and finite_hashes: "rinv r \<Longrightarrow> finite {(k, f). view r k f \<noteq> None}"
    and hset_law: "rinv r \<Longrightarrow> is_text k \<Longrightarrow> is_text f \<Longrightarrow>
      \<exists>r'. r_hset R r k f v = Inr r' \<and> rinv r' \<and> view r' = (view r)(k := (view r k)(f \<mapsto> v))"
    and hget_law: "rinv r \<Longrightarrow> r_hget R r k f = view r k f"
    and hexists_law: "rinv r \<Longrightarrow> r_hexists R r k f \<longleftrightarrow> view r k f \<noteq> None"
    and hdel_law: "rinv r \<Longrightarrow> r_hdel R r k f = (n, r') \<Longrightarrow> rinv r' \<and>
      n = (if view r k f = None then 0 else 1) \<and> view r' = (view r)(k := (view r k)(f := None))"
    and hlen_law: "rinv r \<Longrightarrow> r_hlen R r k = card (dom (view r k))"
    and hkeys_law: "rinv r \<Longrightarrow> distinct (r_hkeys R r k) \<and> set (r_hkeys R r k) = dom (view r k)"
    and hscan_law: "rinv r \<Longrightarrow> distinct (r_hscan R r k p) \<and> set (r_hscan R r k p) = {f \<in> dom (view r k). glob p f}"
    and hgetall_law: "rinv r \<Longrightarrow> dict_ok (r_hgetall R r k) \<and> dget (r_hgetall R r k) = view r k"
    and scan_law: "rinv r \<Longrightarrow> distinct (r_scan R r p) \<and> set (r_scan R r p) = {k. dom (view r k) \<noteq> {} \<and> glob p k}"
    and delete_cmd_law: "rinv r \<Longrightarrow> rinv (r_delete R r ks) \<and>
      view (r_delete R r ks) = (\<lambda>k. if k \<in> set ks then Map.empty else view r k)"
    and exists_law: "rinv r \<Longrightarrow> r_exists R r k \<longleftrightarrow> dom (view r k) \<noteq> {}"
    and exec_law: "rinv r \<Longrightarrow> (\<And>c. c \<in> set cmds \<Longrightarrow> cmd_text c) \<Longrightarrow>
      \<exists>r'. r_exec R r cmds = Inr (fst (run_cmds cmds (view r)), r') \<and> rinv r' \<and> view r' = snd (run_cmds cmds (view r))"
    and hget_pipe_law: "rinv r \<Longrightarrow> r_hget_pipe R r ps = map (\<lambda>(k, f). view r k f) ps"
begin

section \<open>Patterns\<close>

lemma glob_escaped: "glob (glob_escape p @ q) s \<longleftrightarrow> (\<exists>t. s = p @ t \<and> glob q t)"
proof (induction p arbitrary: s)
  case (Cons c p)
  show ?case
  proof (cases "c \<in> {92, 42, 63, 91, 93, 94}")
    case True
    then have "glob (glob_escape (c # p) @ q) s \<longleftrightarrow> glob (92 # c # glob_escape p @ q) s" by simp
    also have "\<dots> \<longleftrightarrow> (\<exists>t. s = c # t \<and> (\<exists>u. t = p @ u \<and> glob q u))" by (simp only: glob_quoted Cons.IH)
    finally show ?thesis by auto
  next
    case False
    then have "glob (glob_escape (c # p) @ q) s \<longleftrightarrow> glob (c # glob_escape p @ q) s" by simp
    also have "\<dots> \<longleftrightarrow> (\<exists>t. s = c # t \<and> (\<exists>u. t = p @ u \<and> glob q u))"
      using False by (subst glob_plain) (simp_all add: Cons.IH)
    finally show ?thesis by auto
  qed
qed simp

lemma glob_prefix: "glob (glob_escape p @ [42]) s \<longleftrightarrow> startswith s p"
  by (simp add: glob_escaped glob_star startswith_iff)

lemma glob_hkeys: "glob (hkey_pattern st pre) s \<longleftrightarrow> (\<exists>ns. s = hkey st ns \<and> (case pre of None \<Rightarrow> True | Some p \<Rightarrow> startswith ns p))"
proof -
  let ?q = "case pre of None \<Rightarrow> [42] | Some p \<Rightarrow> if p \<noteq> [] then glob_escape p @ [42] else [42]"
  have q: "glob ?q t \<longleftrightarrow> (case pre of None \<Rightarrow> True | Some p \<Rightarrow> startswith t p)" for t
    by (cases pre) (auto simp: glob_star glob_prefix)
  have "glob (58 # ?q) t \<longleftrightarrow> (\<exists>u. t = 58 # u \<and> glob ?q u)" for t by (rule glob_plain) simp
  then show ?thesis by (auto simp: hkey_pattern_def glob_escaped q hkey_def)
qed

end

lemma hkey_inj [simp]: "hkey st ns = hkey st ns' \<longleftrightarrow> ns = ns'"
  by (simp add: hkey_def)

lemma ns_of_hkey [simp]: "ns_of st (hkey st ns) = ns"
  by (simp add: ns_of_def hkey_def)

lemma hkey_upd [simp]: "hkey (st\<lparr>rs_server := r\<rparr>) = hkey st"
  by (simp add: hkey_def fun_eq_iff)

section \<open>The store\<close>

text \<open>The entries of the store, as bytes and as values.\<close>

definition redis_raw :: "('r \<Rightarrow> hashes) \<Rightarrow> 'r redis_store \<Rightarrow> pystr \<times> pystr \<Rightarrow> bytes option" where
  "redis_raw view st = (\<lambda>(ns, k). view (rs_server st) (hkey st ns) k)"

definition redis_content :: "codec \<Rightarrow> ('r \<Rightarrow> hashes) \<Rightarrow> 'r redis_store \<Rightarrow> content" where
  "redis_content C view st = (\<lambda>p. decoded C (redis_raw view st p))"

text \<open>The keys under the prefix are this store's: text, with values that decode.\<close>

definition redis_inv :: "codec \<Rightarrow> ('r \<Rightarrow> bool) \<Rightarrow> ('r \<Rightarrow> hashes) \<Rightarrow> 'r redis_store \<Rightarrow> bool" where
  "redis_inv C rinv view st \<longleftrightarrow> rinv (rs_server st) \<and> is_text (rs_prefix st) \<and>
     (\<forall>ns k b. redis_raw view st (ns, k) = Some b \<longrightarrow> is_text ns \<and> is_text k \<and> (\<exists>v. decode C b = Inr v))"

locale redis_backend = redis_server R rinv view glob
  for R :: "'r redis_api" and rinv view glob +
  fixes C :: codec
begin

lemma redis_invD:
  assumes "redis_inv C rinv view st"
  shows "rinv (rs_server st)" "is_text (rs_prefix st)" "\<And>ns. is_text (hkey st ns) \<longleftrightarrow> is_text ns"
    "\<And>ns k b. redis_raw view st (ns, k) = Some b \<Longrightarrow> is_text ns \<and> is_text k \<and> (\<exists>v. decode C b = Inr v)"
  using assms by (auto simp: redis_inv_def hkey_def scalar_def)

lemma content_None: "redis_inv C rinv view st \<Longrightarrow> redis_content C view st p = None \<longleftrightarrow> redis_raw view st p = None"
proof -
  assume i: "redis_inv C rinv view st"
  obtain ns k where p: "p = (ns, k)" by (cases p)
  show ?thesis using redis_invD(4) [OF i, of ns k]
    by (cases "redis_raw view st p") (auto simp: redis_content_def decoded_def p)
qed

lemma content_dom: "redis_inv C rinv view st \<Longrightarrow> dom (redis_content C view st) = dom (redis_raw view st)"
  using content_None by (auto simp: dom_def)

lemma ns_keys_view: "redis_inv C rinv view st \<Longrightarrow> ns_keys (redis_content C view st) ns = dom (view (rs_server st) (hkey st ns))"
  using content_None [of st] by (auto simp: ns_keys_def redis_raw_def)

lemma decode_view:
  "redis_inv C rinv view st \<Longrightarrow> unpack_or C d (redis_raw view st p) = Inr (case redis_content C view st p of None \<Rightarrow> d | Some v \<Rightarrow> v)"
proof -
  assume i: "redis_inv C rinv view st"
  obtain ns k where p: "p = (ns, k)" by (cases p)
  show ?thesis using redis_invD(4) [OF i, of ns k]
    by (cases "redis_raw view st p") (auto simp: redis_content_def decoded_def unpack_or_def p)
qed

text \<open>A change of the server that is a change of the entries.\<close>

lemma redis_changed:
  assumes "redis_inv C rinv view st" "rinv r"
    and "\<And>ns k. view r (hkey st ns) k = M (ns, k)"
    and "\<And>ns k b. M (ns, k) = Some b \<Longrightarrow> is_text ns \<and> is_text k \<and> (\<exists>v. decode C b = Inr v)"
  shows "redis_inv C rinv view (st\<lparr>rs_server := r\<rparr>) \<and> redis_content C view (st\<lparr>rs_server := r\<rparr>) = (\<lambda>p. decoded C (M p))"
proof -
  have "redis_raw view (st\<lparr>rs_server := r\<rparr>) = M" using assms(3) by (auto simp: redis_raw_def)
  then show ?thesis using assms(1,2,4) by (simp add: redis_inv_def redis_content_def)
qed

lemma decoded_upd: "decode C b = Inr v \<Longrightarrow> (\<lambda>p. decoded C ((M(q \<mapsto> b)) p)) = (\<lambda>p. decoded C (M p))(q \<mapsto> v)"
  by (auto simp: decoded_def)

lemma set_run:
  assumes "redis_inv C rinv view st" "is_text ns" "is_text k" "storable C v"
  shows "\<exists>st'. redis_set C R st ns k v = Inr st' \<and> redis_inv C rinv view st' \<and> redis_content C view st' = (redis_content C view st)((ns, k) \<mapsto> v)"
proof -
  note i = redis_invD [OF assms(1)]
  obtain b where b: "encode C v = Inr b" "decode C b = Inr v" using assms(4) by (auto simp: storable_iff)
  obtain r where r: "r_hset R (rs_server st) (hkey st ns) k b = Inr r" "rinv r"
    "view r = (view (rs_server st))(hkey st ns := (view (rs_server st) (hkey st ns))(k \<mapsto> b))"
    using hset_law [OF i(1), of "hkey st ns" k b] assms(2,3) i(3) by auto
  let ?M = "(redis_raw view st)((ns, k) \<mapsto> b)"
  have "redis_inv C rinv view (st\<lparr>rs_server := r\<rparr>) \<and> redis_content C view (st\<lparr>rs_server := r\<rparr>) = (\<lambda>p. decoded C (?M p))"
  proof (rule redis_changed [OF assms(1) r(2)])
    show "view r (hkey st ns') k' = ?M (ns', k')" for ns' k' by (simp add: r(3) redis_raw_def)
    show "is_text ns' \<and> is_text k' \<and> (\<exists>v. decode C b' = Inr v)" if "?M (ns', k') = Some b'" for ns' k' b'
      using that assms(2,3) b(2) i(4) [of ns' k' b'] by (auto split: if_splits)
  qed
  then show ?thesis using decoded_upd [OF b(2), of "redis_raw view st" "(ns, k)"] b(1) r(1)
    by (simp add: redis_set_def redis_content_def)
qed

lemma run_hsets:
  "snd (run_cmds (map (\<lambda>(ns, k, b). HSet (hkey st ns) k b) rows) H) (hkey st ns) k =
     (case map_of (rev (map (\<lambda>(ns, k, b). ((ns, k), b)) rows)) (ns, k) of None \<Rightarrow> H (hkey st ns) k | Some b \<Rightarrow> Some b)"
proof (induction rows arbitrary: H)
  case (Cons e rows)
  obtain n' k' b where e: "e = (n', k', b)" by (cases e)
  define H1 where "H1 = H(hkey st n' := (H (hkey st n'))(k' \<mapsto> b))"
  have "H1 (hkey st ns) k = (if (ns, k) = (n', k') then Some b else H (hkey st ns) k)" by (simp add: H1_def)
  moreover have "snd (run_cmds (map (\<lambda>(ns, k, b). HSet (hkey st ns) k b) (e # rows)) H) =
      snd (run_cmds (map (\<lambda>(ns, k, b). HSet (hkey st ns) k b) rows) H1)"
    by (simp add: e Let_def case_prod_beta H1_def)
  ultimately show ?case using Cons.IH [of H1] by (auto simp: e map_add_def split: option.splits)
qed simp

lemma upd_all_map_of: "upd_all es m p = (case map_of (rev (map (\<lambda>(ns, k, v). ((ns, k), v)) es)) p of None \<Rightarrow> m p | Some v \<Rightarrow> Some v)"
proof (induction es arbitrary: m)
  case (Cons e es)
  then show ?case by (cases e) (auto simp: map_add_def split: option.splits)
qed simp

lemma set_many_redis:
  assumes "redis_inv C rinv view st" "\<And>ns k v. (ns, k, v) \<in> set es \<Longrightarrow> is_text ns \<and> is_text k \<and> storable C v"
  shows "\<exists>st'. redis_set_many C R st es = Inr st' \<and> redis_inv C rinv view st' \<and> redis_content C view st' = upd_all es (redis_content C view st)"
proof (cases "es = []")
  case False
  note i = redis_invD [OF assms(1)]
  define enc where "enc v = (case encode C v of Inr b \<Rightarrow> b | Inl _ \<Rightarrow> [])" for v
  have enc: "encode C v = Inr (enc v)" "decode C (enc v) = Inr v" if "(ns, k, v) \<in> set es" for ns k v
    using assms(2) [OF that] by (auto simp: storable_iff enc_def)
  let ?rows = "map (\<lambda>(ns, k, v). (ns, k, enc v)) es"
  let ?cmds = "map (\<lambda>(ns, k, b). HSet (hkey st ns) k b) ?rows"
  have "mapE (\<lambda>(ns, k, v). bindE (encode C v) (\<lambda>b. Inr (HSet (hkey st ns) k b))) es =
      Inr (map (\<lambda>(ns, k, v). HSet (hkey st ns) k (enc v)) es)"
    by (rule mapE_Inr_map) (auto simp: enc(1))
  moreover have "map (\<lambda>(ns, k, v). HSet (hkey st ns) k (enc v)) es = ?cmds" by (simp add: case_prod_beta)
  ultimately have cmds: "mapE (\<lambda>(ns, k, v). bindE (encode C v) (\<lambda>b. Inr (HSet (hkey st ns) k b))) es = Inr ?cmds" by simp
  have "cmd_text c" if "c \<in> set ?cmds" for c using that assms(2) i(3) by auto
  then obtain r where r: "r_exec R (rs_server st) ?cmds = Inr (fst (run_cmds ?cmds (view (rs_server st))), r)" "rinv r"
      "view r = snd (run_cmds ?cmds (view (rs_server st)))"
    using exec_law [OF i(1), of ?cmds] by blast
  let ?L = "rev (map (\<lambda>(ns, k, b). ((ns, k), b)) ?rows)"
  let ?M = "\<lambda>p. case map_of (rev (map (\<lambda>(ns, k, v). ((ns, k), v)) es)) p of
    None \<Rightarrow> redis_raw view st p | Some v \<Rightarrow> Some (enc v)"
  have L: "?L = map (\<lambda>(p, v). (p, enc v)) (rev (map (\<lambda>(ns, k, v). ((ns, k), v)) es))"
    by (simp add: rev_map case_prod_beta o_def)
  have mL: "map_of ?L p = map_option enc (map_of (rev (map (\<lambda>(ns, k, v). ((ns, k), v)) es)) p)" for p
    unfolding L map_of_map by simp
  have in_es: "(ns, k, v) \<in> set es" if "map_of (rev (map (\<lambda>(ns, k, v). ((ns, k), v)) es)) (ns, k) = Some v" for ns k v
    using map_of_SomeD [OF that] by auto
  have "redis_inv C rinv view (st\<lparr>rs_server := r\<rparr>) \<and> redis_content C view (st\<lparr>rs_server := r\<rparr>) = (\<lambda>p. decoded C (?M p))"
  proof (rule redis_changed [OF assms(1) r(2)])
    show "view r (hkey st ns) k = ?M (ns, k)" for ns k unfolding r(3) run_hsets mL by (simp add: redis_raw_def split: option.splits)
    show "is_text ns \<and> is_text k \<and> (\<exists>v. decode C b = Inr v)" if "?M (ns, k) = Some b" for ns k b
    proof (cases "map_of (rev (map (\<lambda>(ns, k, v). ((ns, k), v)) es)) (ns, k)")
      case None
      with that i(4) show ?thesis by simp
    next
      case (Some v)
      with that have "b = enc v" by simp
      with in_es [OF Some] assms(2) enc(2) show ?thesis by blast
    qed
  qed
  moreover have "(\<lambda>p. decoded C (?M p)) = upd_all es (redis_content C view st)"
  proof
    fix p :: "pystr \<times> pystr"
    obtain ns k where p: "p = (ns, k)" by (cases p)
    show "decoded C (?M p) = upd_all es (redis_content C view st) p"
    proof (cases "map_of (rev (map (\<lambda>(ns, k, v). ((ns, k), v)) es)) p")
      case None
      then show ?thesis by (simp add: upd_all_map_of redis_content_def)
    next
      case (Some v)
      with enc(2) [OF in_es, of ns k v] show ?thesis by (simp add: upd_all_map_of p decoded_def)
    qed
  qed
  ultimately show ?thesis using False cmds r(1) by (simp add: redis_set_many_def)
qed (use assms(1) in \<open>simp add: redis_set_many_def\<close>)

lemma get_many_redis:
  assumes "redis_inv C rinv view st"
  shows "redis_get_many C R st ps = Inr (map (\<lambda>p. case redis_content C view st p of None \<Rightarrow> PNone | Some v \<Rightarrow> v) ps)"
proof -
  have "r_hget_pipe R (rs_server st) (map (\<lambda>(ns, k). (hkey st ns, k)) ps) = map (redis_raw view st) ps"
    unfolding hget_pipe_law [OF redis_invD(1) [OF assms]] by (simp add: redis_raw_def case_prod_beta)
  moreover have "mapE (unpack_or C PNone) (map (redis_raw view st) ps) =
      Inr (map (\<lambda>p. case redis_content C view st p of None \<Rightarrow> PNone | Some v \<Rightarrow> v) ps)"
    by (induction ps) (simp_all add: decode_view [OF assms])
  ultimately show ?thesis by (simp add: redis_get_many_def)
qed

lemma decoded_del: "(\<lambda>p. decoded C (if p \<in> S then None else M p)) = del_all S (\<lambda>p. decoded C (M p))"
  by (auto simp: del_all_def decoded_def)

text \<open>A change of the server that removes a set of entries.\<close>

lemma redis_removed:
  assumes "redis_inv C rinv view st" "rinv r"
    and "\<And>ns k. view r (hkey st ns) k = (if (ns, k) \<in> S then None else view (rs_server st) (hkey st ns) k)"
  shows "redis_inv C rinv view (st\<lparr>rs_server := r\<rparr>) \<and>
    redis_content C view (st\<lparr>rs_server := r\<rparr>) = del_all S (redis_content C view st)"
proof -
  have "redis_inv C rinv view (st\<lparr>rs_server := r\<rparr>) \<and> redis_content C view (st\<lparr>rs_server := r\<rparr>) =
      (\<lambda>p. decoded C (if p \<in> S then None else redis_raw view st p))"
    by (rule redis_changed [OF assms(1,2)])
      (use assms(3) redis_invD(4) [OF assms(1)] in \<open>auto simp: redis_raw_def split: if_splits\<close>)
  then show ?thesis by (simp add: decoded_del redis_content_def)
qed

lemma delete_redis:
  assumes "redis_inv C rinv view st" "redis_delete R st ns k = (b, st')"
  shows "redis_inv C rinv view st' \<and> redis_content C view st' = (redis_content C view st)((ns, k) := None) \<and>
    (b \<longleftrightarrow> redis_content C view st (ns, k) \<noteq> None)"
proof -
  obtain n r where r: "r_hdel R (rs_server st) (hkey st ns) k = (n, r)" by (cases "r_hdel R (rs_server st) (hkey st ns) k")
  note l = hdel_law [OF redis_invD(1) [OF assms(1)] r]
  have "redis_inv C rinv view (st\<lparr>rs_server := r\<rparr>) \<and>
      redis_content C view (st\<lparr>rs_server := r\<rparr>) = del_all {(ns, k)} (redis_content C view st)"
    by (rule redis_removed [OF assms(1)]) (use l in auto)
  then show ?thesis
    using assms(2) l content_None [OF assms(1), of "(ns, k)"]
    by (auto simp: redis_delete_def r del_all_single redis_raw_def)
qed

lemma run_hdels_Cons:
  fixes H :: hashes
  assumes "H1 = H(hkey st n := (\<lambda>f. if f \<in> set fs then None else H (hkey st n) f))"
  shows "run_cmds (map (\<lambda>(ns, fs). HDel (hkey st ns) fs) ((n, fs) # gs)) H =
      (card (set fs \<inter> dom (H (hkey st n))) # fst (run_cmds (map (\<lambda>(ns, fs). HDel (hkey st ns) fs) gs) H1),
       snd (run_cmds (map (\<lambda>(ns, fs). HDel (hkey st ns) fs) gs) H1))"
  by (simp add: Let_def case_prod_beta assms)

lemma run_hdels_view:
  "snd (run_cmds (map (\<lambda>(ns, fs). HDel (hkey st ns) fs) gs) H) (hkey st ns) k =
      (if \<exists>fs. (ns, fs) \<in> set gs \<and> k \<in> set fs then None else H (hkey st ns) k)"
proof (induction gs arbitrary: H)
  case (Cons g gs)
  obtain n fs where g: "g = (n, fs)" by (cases g)
  show ?case unfolding g run_hdels_Cons [OF refl] snd_conv Cons.IH by auto
qed simp

lemma run_hdels_counts:
  assumes "distinct (map fst gs)"
  shows "fst (run_cmds (map (\<lambda>(ns, fs). HDel (hkey st ns) fs) gs) H) =
      map (\<lambda>(ns, fs). card (set fs \<inter> dom (H (hkey st ns)))) gs"
  using assms
proof (induction gs arbitrary: H)
  case (Cons g gs)
  obtain n fs where g: "g = (n, fs)" by (cases g)
  define H1 where "H1 = H(hkey st n := (\<lambda>f. if f \<in> set fs then None else H (hkey st n) f))"
  have "map (\<lambda>(ns, fs). card (set fs \<inter> dom (H1 (hkey st ns)))) gs = map (\<lambda>(ns, fs). card (set fs \<inter> dom (H (hkey st ns)))) gs"
  proof (rule map_cong [OF refl])
    fix h assume "h \<in> set gs"
    then have "fst h \<noteq> n" using Cons.prems by (auto simp: g)
    then show "(\<lambda>(ns, fs). card (set fs \<inter> dom (H1 (hkey st ns)))) h = (\<lambda>(ns, fs). card (set fs \<inter> dom (H (hkey st ns)))) h"
      by (cases h) (simp add: H1_def)
  qed
  then show ?case using Cons.prems unfolding g run_hdels_Cons [OF H1_def] fst_conv
    by (subst Cons.IH) simp_all
qed simp

lemma sum_groups:
  assumes "distinct (map fst gs)" "finite D"
  shows "sum_list (map (\<lambda>(ns, fs). card (set fs \<inter> {k. (ns, k) \<in> D})) gs) =
    card ({(ns, k). \<exists>fs. (ns, fs) \<in> set gs \<and> k \<in> set fs} \<inter> D)"
  using assms(1)
proof (induction gs)
  case (Cons g gs)
  obtain n fs where g: "g = (n, fs)" by (cases g)
  let ?A = "Pair n ` (set fs \<inter> {k. (n, k) \<in> D})" and ?B = "{(ns, k). \<exists>fs. (ns, fs) \<in> set gs \<and> k \<in> set fs} \<inter> D"
  have "{(ns, k). \<exists>fs. (ns, fs) \<in> set (g # gs) \<and> k \<in> set fs} \<inter> D = ?A \<union> ?B" by (auto simp: g)
  moreover have "?A \<inter> ?B = {}" using Cons.prems by (force simp: g)
  moreover have "card ?A = card (set fs \<inter> {k. (n, k) \<in> D})" by (intro card_image) (simp add: inj_on_def)
  moreover have "finite ?A" "finite ?B" using assms(2) by auto
  ultimately show ?case using Cons by (simp add: g card_Un_disjoint)
qed simp

lemma finite_raw: "redis_inv C rinv view st \<Longrightarrow> finite (dom (redis_raw view st))"
proof -
  assume "redis_inv C rinv view st"
  then have "finite {(k, f). view (rs_server st) k f \<noteq> None}" by (intro finite_hashes redis_invD(1))
  moreover have "(\<lambda>(ns, k). (hkey st ns, k)) ` dom (redis_raw view st) \<subseteq> {(k, f). view (rs_server st) k f \<noteq> None}"
    by (auto simp: redis_raw_def)
  ultimately have "finite ((\<lambda>(ns, k). (hkey st ns, k)) ` dom (redis_raw view st))" by (rule rev_finite_subset)
  then show ?thesis by (rule finite_imageD) (auto simp: inj_on_def)
qed

lemma group_by_ns_pairs: "(\<exists>fs. (ns, fs) \<in> set (group_by_ns ps) \<and> k \<in> set fs) \<longleftrightarrow> (ns, k) \<in> set ps"
proof -
  define ks where "ks = map snd (filter (\<lambda>p. fst p = ns) ps)"
  have "(\<exists>fs. (ns, fs) \<in> set (group_by_ns ps) \<and> k \<in> set fs) \<longleftrightarrow> (\<exists>fs. dget (group_by_ns ps) ns = Some fs \<and> k \<in> set fs)"
    by (simp only: dget_iff_in_set [OF group_by_ns_ok])
  also have "\<dots> \<longleftrightarrow> k \<in> set ks" unfolding group_by_ns_mem Let_def ks_def [symmetric] by auto
  also have "\<dots> \<longleftrightarrow> (ns, k) \<in> set ps" by (force simp: ks_def)
  finally show ?thesis .
qed

lemma delete_many_redis:
  assumes "redis_inv C rinv view st" "redis_delete_many R st ps = (n, st')"
  shows "redis_inv C rinv view st' \<and> redis_content C view st' = del_all (set ps) (redis_content C view st) \<and>
    n = card (set ps \<inter> dom (redis_content C view st))"
proof -
  let ?gs = "group_by_ns ps" and ?v = "view (rs_server st)"
  let ?cmds = "map (\<lambda>(ns, fs). HDel (hkey st ns) fs) ?gs"
  have d: "distinct (map fst ?gs)" using group_by_ns_ok [of ps] by (simp add: dict_ok_def)
  have mem: "(\<exists>fs. (ns, fs) \<in> set ?gs \<and> k \<in> set fs) \<longleftrightarrow> (ns, k) \<in> set ps" for ns k by (rule group_by_ns_pairs)
  show ?thesis
  proof (cases "?gs = []")
    case True
    with mem have "\<And>p. p \<notin> set ps" by auto
    then have "ps = []" by (cases ps) auto
    with True assms show ?thesis by (simp add: redis_delete_many_def)
  next
    case False
    obtain r where r: "r_exec R (rs_server st) ?cmds = Inr (fst (run_cmds ?cmds ?v), r)" "rinv r" "view r = snd (run_cmds ?cmds ?v)"
      using exec_law [OF redis_invD(1) [OF assms(1)], of ?cmds] by force
    have "redis_inv C rinv view (st\<lparr>rs_server := r\<rparr>) \<and>
        redis_content C view (st\<lparr>rs_server := r\<rparr>) = del_all (set ps) (redis_content C view st)"
      by (rule redis_removed [OF assms(1) r(2)]) (simp add: r(3) run_hdels_view mem)
    moreover have "sum_list (fst (run_cmds ?cmds ?v)) = card (set ps \<inter> dom (redis_content C view st))"
    proof -
      have "dom (?v (hkey st ns)) = {k. (ns, k) \<in> dom (redis_raw view st)}" for ns by (auto simp: redis_raw_def)
      moreover have "{(ns, k). \<exists>fs. (ns, fs) \<in> set ?gs \<and> k \<in> set fs} = set ps" using mem by auto
      ultimately show ?thesis
        using sum_groups [OF d finite_raw [OF assms(1)]] by (simp add: run_hdels_counts [OF d] content_dom [OF assms(1)])
    qed
    ultimately show ?thesis using False assms(2) r(1) by (auto simp: redis_delete_many_def exec_counts_def Let_def)
  qed
qed

lemma delete_namespace_redis:
  assumes "redis_inv C rinv view st" "redis_delete_namespace R st ns = (n, st')"
  shows "redis_inv C rinv view st' \<and> redis_content C view st' = del_all {p. fst p = ns} (redis_content C view st) \<and>
    n = card (ns_keys (redis_content C view st) ns)"
proof -
  let ?cmds = "[HLen (hkey st ns), Del [hkey st ns]]" and ?v = "view (rs_server st)"
  obtain r where r: "r_exec R (rs_server st) ?cmds = Inr (fst (run_cmds ?cmds ?v), r)" "rinv r" "view r = snd (run_cmds ?cmds ?v)"
    using exec_law [OF redis_invD(1) [OF assms(1)], of ?cmds] by force
  have "redis_inv C rinv view (st\<lparr>rs_server := r\<rparr>) \<and>
      redis_content C view (st\<lparr>rs_server := r\<rparr>) = del_all {p. fst p = ns} (redis_content C view st)"
    by (rule redis_removed [OF assms(1) r(2)]) (simp add: r(3))
  then show ?thesis using assms(2) r(1)
    by (auto simp: redis_delete_namespace_def exec_counts_def Let_def ns_keys_view [OF assms(1)])
qed

lemma keys_redis:
  assumes "redis_inv C rinv view st"
  shows "distinct (redis_keys R st ns pre) \<and> set (redis_keys R st ns pre) =
    {k \<in> ns_keys (redis_content C view st) ns. case pre of None \<Rightarrow> True | Some p \<Rightarrow> startswith k p}"
  using hkeys_law [OF redis_invD(1) [OF assms]] hscan_law [OF redis_invD(1) [OF assms]]
  by (cases pre) (simp_all add: redis_keys_def ns_keys_view [OF assms] glob_prefix)

lemma hkeys_redis:
  assumes "redis_inv C rinv view st"
  shows "distinct (iter_hkeys R st pre) \<and> set (iter_hkeys R st pre) =
    hkey st ` {ns \<in> ns_names (redis_content C view st). case pre of None \<Rightarrow> True | Some p \<Rightarrow> startswith ns p}"
proof -
  have "ns \<in> ns_names (redis_content C view st) \<longleftrightarrow> dom (view (rs_server st) (hkey st ns)) \<noteq> {}" for ns
    by (simp add: ns_names_def ns_keys_view [OF assms])
  then have "{k. dom (view (rs_server st) k) \<noteq> {} \<and> glob (hkey_pattern st pre) k} =
      hkey st ` {ns \<in> ns_names (redis_content C view st). case pre of None \<Rightarrow> True | Some p \<Rightarrow> startswith ns p}"
    unfolding glob_hkeys by blast
  then show ?thesis using scan_law [OF redis_invD(1) [OF assms], of "hkey_pattern st pre"]
    by (simp only: iter_hkeys_def simp_thms)
qed

lemma namespaces_redis:
  assumes "redis_inv C rinv view st"
  shows "distinct (redis_namespaces R st pre) \<and> set (redis_namespaces R st pre) =
    {ns \<in> ns_names (redis_content C view st). case pre of None \<Rightarrow> True | Some p \<Rightarrow> startswith ns p}"
proof -
  have "inj_on (ns_of st) (hkey st ` N)" for N by (rule inj_onI) (elim imageE, simp)
  then show ?thesis using hkeys_redis [OF assms, of pre]
    by (simp add: redis_namespaces_def distinct_map image_image)
qed

lemma clear_redis:
  assumes "redis_inv C rinv view st"
  shows "redis_inv C rinv view (redis_clear R st) \<and> redis_content C view (redis_clear R st) = Map.empty"
proof (cases "iter_hkeys R st None = []")
  case True
  then have "ns_names (redis_content C view st) = {}" using hkeys_redis [OF assms, of None] by auto
  then have "redis_content C view st (ns, k) = None" for ns k by (auto simp: ns_names_def ns_keys_def)
  then have "redis_content C view st = Map.empty" by (auto simp: fun_eq_iff)
  with True assms show ?thesis by (simp add: redis_clear_def)
next
  case False
  let ?r = "r_delete R (rs_server st) (iter_hkeys R st None)"
  note del = delete_cmd_law [OF redis_invD(1) [OF assms], of "iter_hkeys R st None"]
  have "redis_inv C rinv view (st\<lparr>rs_server := ?r\<rparr>) \<and>
      redis_content C view (st\<lparr>rs_server := ?r\<rparr>) = del_all UNIV (redis_content C view st)"
  proof (rule redis_removed [OF assms])
    show "rinv ?r" using del by simp
    show "view ?r (hkey st ns) k = (if (ns, k) \<in> UNIV then None else view (rs_server st) (hkey st ns) k)" for ns k
    proof (cases "hkey st ns \<in> set (iter_hkeys R st None)")
      case True
      then show ?thesis using del by simp
    next
      case False
      then have "ns \<notin> ns_names (redis_content C view st)" using hkeys_redis [OF assms, of None] by auto
      then have "view (rs_server st) (hkey st ns) k = None"
        using ns_keys_view [OF assms, of ns] by (auto simp: ns_names_def)
      with False del show ?thesis by simp
    qed
  qed
  with False show ?thesis by (simp add: redis_clear_def Let_def del_all_def)
qed

lemma len_redis:
  assumes "redis_inv C rinv view st"
  shows "redis_len R st = card (dom (redis_content C view st))"
proof -
  note i = redis_invD(1) [OF assms]
  let ?N = "ns_names (redis_content C view st)" and ?D = "dom (redis_content C view st)"
  have fin: "finite ?D" using finite_raw [OF assms] content_dom [OF assms] by simp
  have iter: "distinct (iter_hkeys R st None)" "set (iter_hkeys R st None) = hkey st ` ?N"
    using hkeys_redis [OF assms, of None] by auto
  have N: "?N = fst ` ?D" by (force simp: ns_names_iff)
  have "redis_len R st = (\<Sum>hk \<in> hkey st ` ?N. card (dom (view (rs_server st) hk)))"
    unfolding redis_len_def iter(2) [symmetric] using hlen_law [OF i]
    by (simp add: sum_list_distinct_conv_sum_set [OF iter(1)])
  also have "\<dots> = (\<Sum>ns \<in> ?N. card (ns_keys (redis_content C view st) ns))"
    by (subst sum.reindex) (auto simp: inj_on_def ns_keys_view [OF assms])
  also have "\<dots> = card (SIGMA ns : ?N. ns_keys (redis_content C view st) ns)"
    using fin by (subst card_SigmaI) (auto simp: N finite_ns_keys)
  also have "(SIGMA ns : ?N. ns_keys (redis_content C view st) ns) = ?D" by (force simp: ns_names_def ns_keys_def)
  finally show ?thesis .
qed

end

text \<open>Every such server gives a store that keeps the contract.\<close>

sublocale redis_backend \<subseteq> store_like "redis_ops C R" "redis_inv C rinv view" "redis_content C view" is_text "storable C"
proof (unfold_locales, unfold redis_ops_def store_ops.simps option.inject sum.inject, goal_cases)
  case (1 s) then show ?case using finite_raw content_dom by simp
next
  case (2 s ns k v) then show ?case by (rule set_run)
next
  case (3 s ns k d)
  then show ?case using decode_view [OF 3, of d "(ns, k)"] hget_law [OF redis_invD(1) [OF 3]]
    by (simp add: redis_get_def redis_raw_def)
next
  case 4 then show ?case using set_many_redis by metis
next
  case 5 then show ?case using get_many_redis by metis
next
  case (6 s ns k)
  then show ?case using hexists_law [OF redis_invD(1) [OF 6]] content_None [OF 6, of "(ns, k)"]
    by (simp add: redis_contains_def redis_raw_def)
next
  case 7 then show ?case by (rule delete_redis)
next
  case 8 then show ?case using delete_many_redis by metis
next
  case 9 then show ?case using delete_namespace_redis by metis
next
  case (10 s ns) then show ?case using keys_redis [OF 10, of ns None] by simp
next
  case (11 s p ns ks) then show ?case using keys_redis [OF 11(1), of ns "Some p"] by auto
next
  case 12 then show ?case by simp
next
  case (13 s ns)
  then show ?case using keys_redis [OF 13, of ns None]
    by (cases "redis_keys R s ns None = []") (auto simp: redis_max_key_def max_str_Max)
next
  case (14 s) then show ?case using namespaces_redis [OF 14, of None] by simp
next
  case (15 s p nss) then show ?case using namespaces_redis [OF 15(1), of "Some p"] by auto
next
  case 16 then show ?case by simp
next
  case 17 then show ?case by (rule clear_redis)
next
  case 18 then show ?case by (rule len_redis)
next
  case (19 s ns)
  then show ?case using exists_law [OF redis_invD(1) [OF 19]] ns_keys_view [OF 19]
    by (simp add: redis_has_namespace_def ns_names_def)
next
  case (20 s ns k)
  then show ?case using redis_invD(4) [OF 20(1), of ns k] content_dom [OF 20(1)] by auto
next
  case 21 then show ?case by simp
next
  case 22 then show ?case by (rule is_text_ascii)
qed

end
