(* ===== verification/Redis_Snapshots.thy ===== *)
theory Redis_Snapshots
  imports Redis_Laws
begin

text \<open>
  More of the Redis store on every server that keeps the documented laws: the hashes it never
  touches (those whose key does not start with its prefix and a colon), and its snapshots, which
  copy the hashes and restore them in one transaction.
\<close>

section \<open>Hashes of others\<close>

fun cmd_keys :: "rcmd \<Rightarrow> pystr set" where
  "cmd_keys (HSet k f v) = {k}"
| "cmd_keys (HSetMap k d) = {k}"
| "cmd_keys (HDel k fs) = {k}"
| "cmd_keys (HLen k) = {k}"
| "cmd_keys (Del ks) = set ks"

lemma cmd_effect_frame: "hk \<notin> cmd_keys c \<Longrightarrow> snd (cmd_effect c H) hk = H hk"
  by (cases c) auto

lemma run_cmds_frame: "(\<And>c. c \<in> set cs \<Longrightarrow> hk \<notin> cmd_keys c) \<Longrightarrow> snd (run_cmds cs H) hk = H hk"
proof (induction cs arbitrary: H)
  case (Cons c cs)
  have "snd (run_cmds (c # cs) H) hk = snd (run_cmds cs (snd (cmd_effect c H))) hk"
    by (simp add: case_prod_beta Let_def)
  also have "\<dots> = H hk" using Cons by (simp add: cmd_effect_frame)
  finally show ?case .
qed simp

definition foreign :: "'r redis_store \<Rightarrow> pystr \<Rightarrow> bool" where
  "foreign st hk \<longleftrightarrow> \<not> startswith hk (rs_prefix st @ [58])"

lemma foreign_hkey: "foreign st hk \<Longrightarrow> hk \<noteq> hkey st ns"
  by (auto simp: foreign_def hkey_def startswith_iff)

context redis_backend
begin

lemma exec_frame:
  assumes "rinv r" "r_exec R r cmds = Inr (ns, r')" "\<And>c. c \<in> set cmds \<Longrightarrow> cmd_text c \<and> hk \<notin> cmd_keys c"
  shows "view r' hk = view r hk"
proof -
  have "view r' = snd (run_cmds cmds (view r))" using exec_law [OF assms(1), of cmds] assms(2,3) by auto
  then show ?thesis using run_cmds_frame [of cmds hk] assms(3) by simp
qed

text \<open>A step keeps the prefix and the hashes of others.\<close>

definition keeps_others :: "'r redis_store \<Rightarrow> 'r redis_store \<Rightarrow> bool" where
  "keeps_others st st' \<longleftrightarrow> rs_prefix st' = rs_prefix st \<and>
     (\<forall>hk. foreign st hk \<longrightarrow> view (rs_server st') hk = view (rs_server st) hk)"

lemma keeps_others_refl: "keeps_others st st"
  by (simp add: keeps_others_def)

lemma keeps_others_trans: "keeps_others st st1 \<Longrightarrow> keeps_others st1 st2 \<Longrightarrow> keeps_others st st2"
  by (simp add: keeps_others_def foreign_def)

lemma keeps_others_server:
  "(\<And>hk. (\<And>ns. hk \<noteq> hkey st ns) \<Longrightarrow> view r hk = view (rs_server st) hk) \<Longrightarrow> keeps_others st (st\<lparr>rs_server := r\<rparr>)"
  using foreign_hkey [of st] by (simp add: keeps_others_def)

lemma set_frame:
  assumes "redis_inv C rinv view st" "redis_set C R st ns k v = Inr st'" "is_text ns" "is_text k"
  shows "keeps_others st st'"
proof -
  obtain b r where r: "r_hset R (rs_server st) (hkey st ns) k b = Inr r" "st' = st\<lparr>rs_server := r\<rparr>"
    using assms(2) by (auto simp: redis_set_def bindE_eq_Inr)
  have "view r = (view (rs_server st))(hkey st ns := (view (rs_server st) (hkey st ns))(k \<mapsto> b))"
    using hset_law [OF redis_invD(1) [OF assms(1)], of "hkey st ns" k b] redis_invD(3) [OF assms(1)] assms(3,4) r(1) by auto
  then show ?thesis unfolding r(2) by (intro keeps_others_server) simp
qed

lemma set_many_frame:
  assumes "redis_inv C rinv view st" "redis_set_many C R st es = Inr st'"
    "\<And>ns k v. (ns, k, v) \<in> set es \<Longrightarrow> is_text ns \<and> is_text k"
  shows "keeps_others st st'"
proof (cases "es = []")
  case True
  then show ?thesis using assms(2) keeps_others_refl by (simp add: redis_set_many_def)
next
  case False
  let ?f = "\<lambda>(ns, k, v). bindE (encode C v) (\<lambda>b. Inr (HSet (hkey st ns) k b))"
  obtain cmds xs r where m: "mapE ?f es = Inr cmds" "r_exec R (rs_server st) cmds = Inr (xs, r)" "st' = st\<lparr>rs_server := r\<rparr>"
    using assms(2) False by (auto simp: redis_set_many_def bindE_eq_Inr)
  have "\<exists>ns k b. c = HSet (hkey st ns) k b \<and> is_text ns \<and> is_text k" if c: "c \<in> set cmds" for c
  proof -
    obtain i where i: "i < length cmds" "c = cmds ! i" using c by (auto simp: in_set_conv_nth)
    obtain ns k v where e: "es ! i = (ns, k, v)" by (cases "es ! i")
    have "?f (es ! i) = Inr c" using mapE_nth [OF m(1), of i] mapE_length [OF m(1)] i by simp
    moreover have "(ns, k, v) \<in> set es" using i mapE_length [OF m(1)] e nth_mem [of i es] by simp
    ultimately show ?thesis using assms(3) e by (auto simp: bindE_eq_Inr)
  qed
  then have "cmd_text c \<and> hk \<notin> cmd_keys c" if "c \<in> set cmds" "\<And>ns. hk \<noteq> hkey st ns" for c hk
    using that redis_invD(3) [OF assms(1)] by fastforce
  then show ?thesis unfolding m(3) using exec_frame [OF redis_invD(1) [OF assms(1)] m(2)]
    by (intro keeps_others_server) blast
qed

lemma delete_frame: "redis_inv C rinv view st \<Longrightarrow> keeps_others st (snd (redis_delete R st ns k))"
  using hdel_law [OF redis_invD(1), OF _ surjective_pairing, of st "hkey st ns" k]
  by (auto simp: redis_delete_def case_prod_beta Let_def intro!: keeps_others_server)

lemma exec_counts_frame:
  assumes "redis_inv C rinv view st" "\<And>c. c \<in> set cmds \<Longrightarrow> cmd_text c" "\<And>c. c \<in> set cmds \<Longrightarrow> cmd_keys c \<subseteq> range (hkey st)"
  shows "keeps_others st (snd (exec_counts R st cmds))"
proof (cases "r_exec R (rs_server st) cmds")
  case (Inl e)
  then show ?thesis by (simp add: exec_counts_def keeps_others_refl)
next
  case (Inr x)
  then obtain xs r where r: "r_exec R (rs_server st) cmds = Inr (xs, r)" by (cases x) simp
  have "view r hk = view (rs_server st) hk" if "\<And>ns. hk \<noteq> hkey st ns" for hk
    using exec_frame [OF redis_invD(1) [OF assms(1)] r] assms(2,3) that by blast
  then show ?thesis using r by (simp add: exec_counts_def keeps_others_server)
qed

lemma wop_frame:
  assumes "redis_inv C rinv view st" "do_wop (redis_ops C R) w st = Inr st'" "wop_ok is_text (storable C) w"
  shows "keeps_others st st'"
proof (cases w)
  case (WSet ns k v)
  then show ?thesis using assms set_frame by (simp add: redis_ops_def)
next
  case (WSetMany es)
  then have "is_text ns \<and> is_text k" if "(ns, k, v) \<in> set es" for ns k v using assms(3) that by auto
  then show ?thesis using WSetMany assms(2) set_many_frame [OF assms(1), of es st'] by (simp add: redis_ops_def)
next
  case (WDelete ns k)
  then show ?thesis using assms(2) delete_frame [OF assms(1)] by (auto simp: redis_ops_def)
next
  case (WDeleteMany ps)
  let ?cmds = "map (\<lambda>(ns, fields). HDel (hkey st ns) fields) (group_by_ns ps)"
  have "keeps_others st (snd (exec_counts R st ?cmds))" by (rule exec_counts_frame [OF assms(1)]) auto
  then show ?thesis using WDeleteMany assms(2) keeps_others_refl
    by (auto simp: redis_ops_def redis_delete_many_def Let_def case_prod_beta split: if_splits)
next
  case (WDeleteNamespace ns)
  have "keeps_others st (snd (exec_counts R st [HLen (hkey st ns), Del [hkey st ns]]))"
    by (rule exec_counts_frame [OF assms(1)]) auto
  then show ?thesis using WDeleteNamespace assms(2)
    by (auto simp: redis_ops_def redis_delete_namespace_def case_prod_beta)
next
  case WClear
  have "view (r_delete R (rs_server st) (iter_hkeys R st None)) hk = view (rs_server st) hk" if "\<And>ns. hk \<noteq> hkey st ns" for hk
    using delete_cmd_law [OF redis_invD(1) [OF assms(1)], of "iter_hkeys R st None"] hkeys_redis [OF assms(1), of None] that by auto
  then show ?thesis using WClear assms(2) keeps_others_refl keeps_others_server [of st]
    by (auto simp: redis_ops_def redis_clear_def Let_def split: if_splits)
qed

lemma has_batch_redis: "has_batch (redis_ops C R)"
  by (simp add: has_batch_def redis_ops_def)

lemma wops_frame:
  assumes "redis_inv C rinv view st" "\<forall>w \<in> set ws. wop_ok is_text (storable C) w" "do_wops (redis_ops C R) ws st = Inr st'"
  shows "keeps_others st st'"
  using assms
proof (induction ws arbitrary: st)
  case (Cons w ws)
  obtain st1 where st1: "do_wop (redis_ops C R) w st = Inr st1" "redis_inv C rinv view st1"
    using do_wop_law [OF Cons.prems(1) has_batch_redis, of w] Cons.prems(2) by auto
  then have "keeps_others st1 st'" using Cons by simp
  moreover have "keeps_others st st1" using wop_frame [OF Cons.prems(1) st1(1)] Cons.prems(2) by simp
  ultimately show ?case by (rule keeps_others_trans [rotated])
qed (simp add: keeps_others_refl)

section \<open>Snapshots\<close>

lemma snapshot_data:
  assumes "redis_inv C rinv view st"
  shows "dict_ok (fst (fst (redis_snapshot R now st)))"
    "dget (fst (fst (redis_snapshot R now st))) ns =
      (if ns \<in> ns_names (redis_content C view st) then Some (r_hgetall R (rs_server st) (hkey st ns)) else None)"
proof -
  let ?hks = "iter_hkeys R st None" and ?d = "fst (fst (redis_snapshot R now st))"
  have d: "?d = dict_of (map (\<lambda>hk. (ns_of st hk, r_hgetall R (rs_server st) hk)) ?hks)"
    by (simp add: redis_snapshot_def Let_def case_prod_beta)
  then show ok: "dict_ok ?d" by simp
  have "distinct (map (ns_of st) ?hks)" using namespaces_redis [OF assms, of None] by (simp add: redis_namespaces_def)
  then have g: "dget ?d = map_of (map (\<lambda>hk. (ns_of st hk, r_hgetall R (rs_server st) hk)) ?hks)"
    unfolding d by (intro dget_dict_of_distinct) (simp add: comp_def)
  have iff: "dget ?d ns = Some kv \<longleftrightarrow> ns \<in> ns_names (redis_content C view st) \<and> kv = r_hgetall R (rs_server st) (hkey st ns)" for kv
  proof -
    have "dget ?d ns = Some kv \<longleftrightarrow> (ns, kv) \<in> (\<lambda>hk. (ns_of st hk, r_hgetall R (rs_server st) hk)) ` set ?hks"
      using \<open>distinct (map (ns_of st) ?hks)\<close> unfolding g by (simp add: comp_def)
    also have "\<dots> \<longleftrightarrow> ns \<in> ns_names (redis_content C view st) \<and> kv = r_hgetall R (rs_server st) (hkey st ns)"
      using hkeys_redis [OF assms, of None] by (auto simp: image_image)
    finally show ?thesis .
  qed
  show "dget ?d ns = (if ns \<in> ns_names (redis_content C view st) then Some (r_hgetall R (rs_server st) (hkey st ns)) else None)"
    using iff by (cases "dget ?d ns") auto
qed

abbreviation hset_cmds :: "'r redis_store \<Rightarrow> redis_data \<Rightarrow> rcmd list" where
  "hset_cmds st gs \<equiv> List.map_filter (\<lambda>(ns, kv). if kv \<noteq> [] then Some (HSetMap (hkey st ns) kv) else None) gs"

lemma run_hset_cmds:
  assumes "distinct (map fst gs)"
  shows "snd (run_cmds (hset_cmds st gs) H) (hkey st ns) = (case dget gs ns of None \<Rightarrow> H (hkey st ns) | Some kv \<Rightarrow> H (hkey st ns) ++ dget kv)"
  using assms
proof (induction gs arbitrary: H)
  case (Cons g gs)
  obtain n kv where g: "g = (n, kv)" by (cases g)
  have n: "dget gs n = None" using Cons.prems by (simp add: g dget_None_iff)
  have run: "snd (run_cmds (hset_cmds st (g # gs)) H) =
      snd (run_cmds (hset_cmds st gs) (H(hkey st n := H (hkey st n) ++ dget kv)))"
    by (simp add: g List.map_filter_simps Let_def case_prod_beta)
  show ?case unfolding run using Cons n by (auto simp: g split: option.splits)
qed (simp add: List.map_filter_simps)

text \<open>Restoring a snapshot of a store with this prefix brings its entries back, and changes no hash of others.\<close>

lemma restore_redis:
  fixes now :: "64 word"
  assumes "redis_inv C rinv view st0" "redis_inv C rinv view st" "rs_prefix st = rs_prefix st0"
  defines "sn \<equiv> fst (redis_snapshot R now st0)"
  shows "\<exists>st'. redis_restore R sn st = (Inr (), st') \<and> redis_inv C rinv view st' \<and>
    redis_raw view st' = redis_raw view st0 \<and> keeps_others st st'"
proof -
  note i0 = redis_invD [OF assms(1)] and i = redis_invD [OF assms(2)]
  have hk: "hkey st = hkey st0" using assms(3) by (simp add: hkey_def fun_eq_iff)
  let ?d = "fst sn" and ?stale = "iter_hkeys R st None" and ?v = "view (rs_server st)"
  note d = snapshot_data [OF assms(1), of now, folded sn_def]
  define cmds where "cmds = (if ?stale \<noteq> [] then [Del ?stale] else []) @ hset_cmds st ?d"
  define H where "H = (\<lambda>k. if k \<in> set ?stale then Map.empty else ?v k)"
  have sets: "cmd_text c" if c: "c \<in> set (hset_cmds st ?d)" for c
  proof -
    from c obtain ns kv where e: "(ns, kv) \<in> set ?d" "kv \<noteq> []" "c = HSetMap (hkey st ns) kv"
      by (auto simp: List.map_filter_def split: if_splits)
    then have "dget ?d ns = Some kv" using dget_iff_in_set [OF d(1)] by blast
    then have kv: "kv = r_hgetall R (rs_server st0) (hkey st0 ns)" using d(2) [of ns] by (simp split: if_splits)
    have "is_text ns \<and> (\<forall>f \<in> set (dkeys kv). is_text f)"
    proof -
      have "is_text ns \<and> is_text f" if "f \<in> set (dkeys kv)" for f
        using that hgetall_law [OF i0(1), of "hkey st0 ns"] i0(4) [of ns f] dget_Some_iff [of kv f]
        by (auto simp: redis_raw_def kv)
      then show ?thesis using e(2) by (cases kv) auto
    qed
    then show ?thesis using e hgetall_law [OF i0(1), of "hkey st0 ns"] i(3) by (simp add: kv)
  qed
  have texts: "cmd_text c" if "c \<in> set cmds" for c using that sets by (auto simp: cmds_def split: if_splits)
  obtain r where r: "r_exec R (rs_server st) cmds = Inr (fst (run_cmds cmds ?v), r)" "rinv r" "view r = snd (run_cmds cmds ?v)"
    using exec_law [OF i(1), of cmds] texts by blast
  have "snd (run_cmds cmds ?v) = snd (run_cmds (hset_cmds st ?d) H)"
    by (cases "?stale = []") (simp_all add: cmds_def H_def Let_def case_prod_beta)
  moreover have "distinct (map fst ?d)" using d(1) by (simp add: dict_ok_def)
  moreover have H: "H (hkey st ns) = Map.empty" for ns
  proof (cases "hkey st ns \<in> set ?stale")
    case False
    then have "ns \<notin> ns_names (redis_content C view st)" using hkeys_redis [OF assms(2), of None] by auto
    then show ?thesis using False ns_keys_view [OF assms(2), of ns] by (auto simp: H_def ns_names_def)
  qed (simp add: H_def)
  ultimately have v: "view r (hkey st ns) = (case dget ?d ns of None \<Rightarrow> Map.empty | Some kv \<Rightarrow> dget kv)" for ns
    using run_hset_cmds [of ?d st H ns] by (simp add: r(3) split: option.splits)
  have eq0: "view r (hkey st ns) = view (rs_server st0) (hkey st0 ns)" for ns
  proof (cases "ns \<in> ns_names (redis_content C view st0)")
    case True
    then show ?thesis using v d(2) [of ns] hgetall_law [OF i0(1), of "hkey st0 ns"] by simp
  next
    case False
    then show ?thesis using v [of ns] d(2) [of ns] ns_keys_view [OF assms(1), of ns] by (simp add: ns_names_def)
  qed
  have "redis_restore R sn st = (Inr (), st\<lparr>rs_server := r\<rparr>)" using r(1) by (simp add: redis_restore_def Let_def cmds_def)
  moreover have raw: "redis_raw view (st\<lparr>rs_server := r\<rparr>) = redis_raw view st0" using eq0 by (auto simp: redis_raw_def)
  moreover have "redis_inv C rinv view (st\<lparr>rs_server := r\<rparr>)"
    using r(2) i(2) i0(4) unfolding redis_inv_def raw by simp
  moreover have "keeps_others st (st\<lparr>rs_server := r\<rparr>)"
  proof (rule keeps_others_server)
    fix k assume k: "\<And>ns. k \<noteq> hkey st ns"
    have "k \<notin> cmd_keys c" if "c \<in> set cmds" for c
    proof -
      have "k \<notin> set ?stale" using k hkeys_redis [OF assms(2), of None] by blast
      then show ?thesis using that k by (auto simp: cmds_def List.map_filter_def split: if_splits)
    qed
    then show "view r k = ?v k" unfolding r(3) by (rule run_cmds_frame)
  qed
  ultimately show ?thesis by blast
qed

text \<open>The flat rows of a snapshot are the entries, each once.\<close>

lemma snapshot_rows:
  assumes "redis_inv C rinv view st"
  shows "cs_view (snd (fst (redis_snapshot R now st))) = redis_raw view st"
proof -
  let ?d = "fst (fst (redis_snapshot R now st))"
  let ?rows = "map (\<lambda>(ns, k, v). ((ns, k), v)) (redis_rows ?d)"
  note d = snapshot_data [OF assms, of now]
  have mem: "((ns, k), b) \<in> set ?rows \<longleftrightarrow> redis_raw view st (ns, k) = Some b" for ns k b
  proof -
    have "((ns, k), b) \<in> set ?rows \<longleftrightarrow> (\<exists>kv. (ns, kv) \<in> set ?d \<and> (k, b) \<in> set kv)" by (force simp: redis_rows_def)
    also have "\<dots> \<longleftrightarrow> (\<exists>kv. dget ?d ns = Some kv \<and> (k, b) \<in> set kv)" by (simp only: dget_iff_in_set [OF d(1)])
    also have "\<dots> \<longleftrightarrow> ns \<in> ns_names (redis_content C view st) \<and> redis_raw view st (ns, k) = Some b"
      using hgetall_law [OF redis_invD(1) [OF assms], of "hkey st ns"] dget_iff_in_set [of "r_hgetall R (rs_server st) (hkey st ns)" k b]
      by (simp add: d(2) redis_raw_def)
    also have "\<dots> \<longleftrightarrow> redis_raw view st (ns, k) = Some b"
      using content_dom [OF assms] by (auto simp: ns_names_iff)
    finally show ?thesis .
  qed
  have "cs_view (snd (fst (redis_snapshot R now st))) p = dget (dict_of ?rows) p" for p
    by (simp add: cs_view_def rows_dict_def redis_snapshot_def Let_def case_prod_beta copy_snapshot_init_def)
  moreover have "dget (dict_of ?rows) p = redis_raw view st p" for p
  proof (cases "dget (dict_of ?rows) p")
    case None
    then have "\<And>b. (p, b) \<notin> set ?rows" by (simp add: dget_dict_of dget_None_iff) force
    then show ?thesis using None mem [of "fst p" "snd p"] by (cases "redis_raw view st p") auto
  next
    case (Some b)
    then have "(p, b) \<in> set ?rows" using dget_in_set [of "rev ?rows" p b] by (simp add: dget_dict_of)
    then show ?thesis using Some mem [of "fst p" "snd p" b] by simp
  qed
  ultimately show ?thesis by (simp add: fun_eq_iff)
qed

section \<open>Whole runs\<close>

lemma redis_runs:
  assumes "redis_inv C rinv view st" "\<forall>w \<in> set ws. wop_ok is_text (storable C) w"
  shows "\<exists>st'. do_wops (redis_ops C R) ws st = Inr st' \<and> redis_inv C rinv view st' \<and>
    redis_content C view st' = fold spec_wop ws (redis_content C view st) \<and> keeps_others st st'"
  using do_wops_law [OF assms(1) has_batch_redis assms(2)] wops_frame [OF assms] by blast

lemma get_redis: "redis_inv C rinv view st \<Longrightarrow> redis_get C R st ns k d = Inr (case redis_content C view st (ns, k) of None \<Rightarrow> d | Some v \<Rightarrow> v)"
  using get_law [of st ns k d] by (simp add: redis_ops_def)

lemma contains_redis: "redis_inv C rinv view st \<Longrightarrow> redis_contains R st ns k \<longleftrightarrow> (ns, k) \<in> dom (redis_content C view st)"
  using contains_law [of st ns k] by (auto simp: redis_ops_def)

text \<open>A store opened on an unused prefix is empty.\<close>

lemma redis_open:
  assumes "redis_init client pre (lit ''msgpack'') = Inr st" "rinv client" "is_text pre" "\<forall>ns k. view client (pre @ 58 # ns) k = None"
  shows "redis_inv C rinv view st" "redis_content C view st = Map.empty" "rs_server st = client" "rs_prefix st = pre"
proof -
  have st: "rs_server st = client" "rs_prefix st = pre" using assms(1) by (auto simp: redis_init_def)
  moreover from this have "redis_raw view st = Map.empty" using assms(4) by (simp add: redis_raw_def hkey_def fun_eq_iff)
  ultimately show "redis_inv C rinv view st" "redis_content C view st = Map.empty" "rs_server st = client" "rs_prefix st = pre"
    using assms(2,3) by (auto simp: redis_inv_def redis_content_def decoded_def)
qed

end

end
