(* ===== verification/Redis_Props.thy ===== *)
theory Redis_Props
  imports Redis_Snapshots Mem_Snapshots
begin

text \<open>
  The Redis store's results, for every server that keeps the laws of \<open>redis_server\<close>, and a server
  that does: one table of \<open>((hash, field), value)\<close> rows, on which the results are instantiated.
\<close>

section \<open>A server\<close>

type_synonym ref_server = "(pystr \<times> pystr, bytes) dict"

fun ref_glob :: "pystr \<Rightarrow> pystr \<Rightarrow> bool" where
  "ref_glob [] s = (s = [])"
| "ref_glob (c # p) [] = (c = 42 \<and> ref_glob p [])"
| "ref_glob (c # p) (x # s) =
     (if c = 42 then ref_glob p (x # s) \<or> ref_glob (c # p) s
      else if c = 92 \<and> p \<noteq> [] then x = hd p \<and> ref_glob (tl p) s
      else (c = 63 \<or> x = c) \<and> ref_glob p s)"

lemma ref_glob_star: "ref_glob [42] s"
  by (induction s) simp_all

definition ref_view :: "ref_server \<Rightarrow> hashes" where
  "ref_view t = (\<lambda>k f. dget t (k, f))"

definition in_hash :: "pystr \<Rightarrow> (pystr \<times> pystr) \<times> bytes \<Rightarrow> bool" where
  "in_hash k e \<longleftrightarrow> fst (fst e) = k"

fun ref_cmd :: "rcmd \<Rightarrow> ref_server \<Rightarrow> nat \<times> ref_server" where
  "ref_cmd (HSet k f v) t = (if dget t (k, f) = None then 1 else 0, dset (k, f) v t)"
| "ref_cmd (HSetMap k d) t =
     (length (filter (\<lambda>f. dget t (k, f) = None) (dkeys d)), fold (\<lambda>(f, v). dset (k, f) v) d t)"
| "ref_cmd (HDel k fs) t = (length (filter (\<lambda>e. fst (fst e) = k \<and> snd (fst e) \<in> set fs) t),
     filter (\<lambda>e. \<not> (fst (fst e) = k \<and> snd (fst e) \<in> set fs)) t)"
| "ref_cmd (HLen k) t = (length (filter (in_hash k) t), t)"
| "ref_cmd (Del ks) t = (length (filter (\<lambda>k. k \<in> set ks) (remdups (map (fst \<circ> fst) t))),
     filter (\<lambda>e. fst (fst e) \<notin> set ks) t)"

fun ref_cmds :: "rcmd list \<Rightarrow> ref_server \<Rightarrow> nat list \<times> ref_server" where
  "ref_cmds [] t = ([], t)"
| "ref_cmds (c # cs) t = (let (n, t1) = ref_cmd c t; (ns, t2) = ref_cmds cs t1 in (n # ns, t2))"

fun cmd_textb :: "rcmd \<Rightarrow> bool" where
  "cmd_textb (HSet k f v) = (list_all scalar k \<and> list_all scalar f)"
| "cmd_textb (HSetMap k d) = (list_all scalar k \<and> d \<noteq> [] \<and> list_all (list_all scalar) (dkeys d))"
| "cmd_textb _ = True"

definition ref_hgetall :: "ref_server \<Rightarrow> pystr \<Rightarrow> (pystr, bytes) dict" where
  "ref_hgetall t k = map (\<lambda>e. (snd (fst e), snd e)) (filter (in_hash k) t)"

definition ref_redis :: "ref_server redis_api" where
  "ref_redis =
     \<lparr>r_hset = (\<lambda>t k f v. if list_all scalar k \<and> list_all scalar f then Inr (dset (k, f) v t) else Inl UnicodeError),
      r_hget = ref_view, r_hexists = (\<lambda>t k f. dget t (k, f) \<noteq> None),
      r_hdel = (\<lambda>t k f. (if dget t (k, f) = None then 0 else 1, ddel (k, f) t)),
      r_hlen = (\<lambda>t k. length (filter (in_hash k) t)),
      r_hkeys = (\<lambda>t k. dkeys (ref_hgetall t k)),
      r_hscan = (\<lambda>t k p. filter (ref_glob p) (dkeys (ref_hgetall t k))),
      r_hgetall = ref_hgetall,
      r_scan = (\<lambda>t p. filter (ref_glob p) (remdups (map (fst \<circ> fst) t))),
      r_delete = (\<lambda>t ks. filter (\<lambda>e. fst (fst e) \<notin> set ks) t),
      r_exists = (\<lambda>t k. k \<in> fst ` fst ` set t),
      r_exec = (\<lambda>t cs. if list_all cmd_textb cs then Inr (ref_cmds cs t) else Inl UnicodeError),
      r_hget_pipe = (\<lambda>t ps. map (\<lambda>(k, f). dget t (k, f)) ps)\<rparr>"

lemma list_all_scalar: "list_all scalar s = is_text s"
  by (simp add: is_text_def list_all_iff)

lemma cmd_text_check: "cmd_text c \<Longrightarrow> cmd_textb c"
  by (cases c) (simp_all add: list_all_scalar list_all_iff [where P = "list_all scalar"])

lemma dict_ok_filter: "dict_ok d \<Longrightarrow> dict_ok (filter P d)"
  by (simp add: dict_ok_def distinct_map_filter)

lemma dget_filter_keys: "dget (filter (\<lambda>e. P (fst e)) d) k = (if P k then dget d k else None)"
  by (induction d) auto

lemma ref_fields:
  assumes "dict_ok t"
  shows "dict_ok (ref_hgetall t k)" "dget (ref_hgetall t k) = ref_view t k"
    "length (filter (in_hash k) t) = card (dom (ref_view t k))"
proof -
  have g: "dget (ref_hgetall t k) f = ref_view t k f" for f
    unfolding ref_hgetall_def ref_view_def by (induction t) (auto simp: in_hash_def)
  then show "dget (ref_hgetall t k) = ref_view t k" by auto
  have "inj_on (\<lambda>e. snd (fst e)) (set (filter (in_hash k) t))"
  proof (rule inj_onI)
    fix a b assume ab: "a \<in> set (filter (in_hash k) t)" "b \<in> set (filter (in_hash k) t)" "snd (fst a) = snd (fst b)"
    then have "fst a = fst b" "a \<in> set t" "b \<in> set t" by (auto simp: in_hash_def prod_eq_iff)
    then show "a = b" using assms by (auto simp: dict_ok_def distinct_map dest: inj_onD)
  qed
  moreover have "distinct (filter (in_hash k) t)" using assms by (simp add: dict_ok_def distinct_map)
  ultimately show ok: "dict_ok (ref_hgetall t k)" by (simp add: dict_ok_def ref_hgetall_def comp_def distinct_map)
  have "card (dom (ref_view t k)) = card (set (dkeys (ref_hgetall t k)))"
    using g dom_dget [of "ref_hgetall t k"] by (simp add: dom_def)
  also have "\<dots> = length (ref_hgetall t k)" using ok distinct_card [of "dkeys (ref_hgetall t k)"] by (simp add: dict_ok_def)
  finally show "length (filter (in_hash k) t) = card (dom (ref_view t k))" by (simp add: ref_hgetall_def)
qed

lemma ref_names: "k \<in> set (map (fst \<circ> fst) t) \<longleftrightarrow> dom (ref_view t k) \<noteq> {}"
proof -
  have "dom (ref_view t k) \<noteq> {} \<longleftrightarrow> (\<exists>f. (k, f) \<in> set (dkeys t))" by (auto simp: ref_view_def dom_def dget_Some_iff)
  also have "\<dots> \<longleftrightarrow> k \<in> set (map (fst \<circ> fst) t)" by force
  finally show ?thesis by simp
qed

lemma ref_view_upd: "ref_view (dset (k, f) v t) = (ref_view t)(k := (ref_view t k)(f \<mapsto> v))"
  by (auto simp: ref_view_def dget_dset fun_eq_iff)

lemma ref_view_filter:
  "ref_view (filter (\<lambda>e. P (fst e)) t) = (\<lambda>k f. if P (k, f) then ref_view t k f else None)"
  by (simp add: ref_view_def dget_filter_keys fun_eq_iff)

lemma ref_set_map:
  "dict_ok t \<Longrightarrow> dict_ok (fold (\<lambda>(f, v). dset (k, f) v) d t)"
  "dict_ok d \<Longrightarrow> ref_view (fold (\<lambda>(f, v). dset (k, f) v) d t) = (ref_view t)(k := ref_view t k ++ dget d)"
proof -
  show "dict_ok t \<Longrightarrow> dict_ok (fold (\<lambda>(f, v). dset (k, f) v) d t)"
    by (induction d arbitrary: t) auto
  show "dict_ok d \<Longrightarrow> ref_view (fold (\<lambda>(f, v). dset (k, f) v) d t) = (ref_view t)(k := ref_view t k ++ dget d)"
  proof (induction d arbitrary: t)
    case (Cons e d)
    obtain f v where e: "e = (f, v)" by (cases e)
    have n: "dget d f = None" and d: "dict_ok d" using Cons.prems by (auto simp: e dict_ok_def dget_None_iff)
    have eq: "((ref_view t k)(f \<mapsto> v)) ++ dget d = ref_view t k ++ dget (e # d)"
      using n by (auto simp: e map_add_def fun_eq_iff split: option.splits)
    have "ref_view (fold (\<lambda>(f, v). dset (k, f) v) (e # d) t) =
        (ref_view (dset (k, f) v t))(k := ref_view (dset (k, f) v t) k ++ dget d)"
      unfolding Cons.IH [OF d, symmetric] by (simp add: e)
    also have "\<dots> = (ref_view t)(k := ref_view t k ++ dget (e # d))"
      unfolding ref_view_upd fun_upd_same eq by (rule fun_upd_upd)
    finally show ?case .
  qed simp
qed

lemma ref_hdel_count:
  assumes "dict_ok t"
  shows "length (filter (\<lambda>e. fst (fst e) = k \<and> snd (fst e) \<in> set fs) t) = card (set fs \<inter> dom (ref_view t k))"
proof -
  let ?t = "filter (\<lambda>e. snd (fst e) \<in> set fs) t"
  have "length (filter (in_hash k) ?t) = card (dom (ref_view ?t k))" by (intro ref_fields dict_ok_filter assms)
  moreover have "dom (ref_view ?t k) = set fs \<inter> dom (ref_view t k)"
    using ref_view_filter [of "\<lambda>p. snd p \<in> set fs" t] by (auto split: if_splits)
  moreover have "filter (in_hash k) ?t = filter (\<lambda>e. fst (fst e) = k \<and> snd (fst e) \<in> set fs) t"
    by (simp add: in_hash_def conj_commute)
  ultimately show ?thesis by simp
qed

lemma ref_cmd_law:
  assumes "dict_ok t" "cmd_text c"
  shows "dict_ok (snd (ref_cmd c t)) \<and> cmd_effect c (ref_view t) = (fst (ref_cmd c t), ref_view (snd (ref_cmd c t)))"
proof (cases c)
  case (HSet k f v)
  then show ?thesis using assms by (simp add: ref_view_upd) (simp add: ref_view_def)
next
  case (HSetMap k d)
  then have d: "dict_ok d" using assms(2) by simp
  have "length (filter (\<lambda>f. dget t (k, f) = None) (dkeys d)) = card (set (dkeys d) - dom (ref_view t k))"
  proof -
    have "distinct (filter (\<lambda>f. dget t (k, f) = None) (dkeys d))" using d by (simp add: dict_ok_def)
    from distinct_card [OF this] show ?thesis
      by (simp add: ref_view_def dom_def set_diff_eq Collect_conj_eq [symmetric] Int_def)
  qed
  then show ?thesis using assms(1) d HSetMap by (simp add: ref_set_map)
next
  case (HDel k fs)
  then show ?thesis using assms(1) ref_view_filter [of "\<lambda>p. \<not> (fst p = k \<and> snd p \<in> set fs)" t]
    by (simp add: dict_ok_filter ref_hdel_count fun_eq_iff)
next
  case (HLen k)
  then show ?thesis using assms(1) by (simp add: ref_fields)
next
  case (Del ks)
  have "length (filter (\<lambda>k. k \<in> set ks) (remdups (map (fst \<circ> fst) t))) = card {k \<in> set ks. dom (ref_view t k) \<noteq> {}}"
  proof -
    have "set (filter (\<lambda>k. k \<in> set ks) (remdups (map (fst \<circ> fst) t))) = {k \<in> set ks. dom (ref_view t k) \<noteq> {}}"
      unfolding ref_names [symmetric] by auto
    then show ?thesis using distinct_card [of "filter (\<lambda>k. k \<in> set ks) (remdups (map (fst \<circ> fst) t))"] by simp
  qed
  then show ?thesis using Del assms(1) ref_view_filter [of "\<lambda>p. fst p \<notin> set ks" t]
    by (simp add: dict_ok_filter fun_eq_iff)
qed

lemma ref_cmds_law:
  assumes "dict_ok t" "\<And>c. c \<in> set cs \<Longrightarrow> cmd_text c"
  shows "dict_ok (snd (ref_cmds cs t)) \<and> run_cmds cs (ref_view t) = (fst (ref_cmds cs t), ref_view (snd (ref_cmds cs t)))"
  using assms
proof (induction cs arbitrary: t)
  case (Cons c cs)
  obtain n t1 where t1: "ref_cmd c t = (n, t1)" by fastforce
  then have "dict_ok t1" "cmd_effect c (ref_view t) = (n, ref_view t1)"
    using ref_cmd_law [OF Cons.prems(1), of c] Cons.prems(2) by auto
  then show ?case using Cons t1 by (simp add: case_prod_beta Let_def)
qed simp

lemma ref_redis_server: "redis_server ref_redis dict_ok ref_view ref_glob"
proof (unfold_locales, unfold ref_redis_def redis_api.simps, goal_cases)
  case (1 s) then show ?case by simp
next
  case (2 s) then show ?case by (rule ref_glob_star)
next
  case (3 c p s) then show ?case by (cases s) auto
next
  case (4 c p s) then show ?case by (cases s) auto
next
  case (5 t)
  have "{(k, f). ref_view t k f \<noteq> None} = dom (dget t)" by (auto simp: ref_view_def)
  then show ?case by (simp add: finite_dom_map_of)
next
  case (6 t k f v) then show ?case by (simp add: list_all_scalar ref_view_upd)
next
  case 7 then show ?case by simp
next
  case 8 then show ?case by (simp add: ref_view_def)
next
  case (9 t k f n t') then show ?case by (auto simp: ref_view_def dget_ddel fun_eq_iff)
next
  case 10 then show ?case by (simp add: ref_fields)
next
  case (11 t k) then show ?case using ref_fields [OF 11, of k] dom_dget [of "ref_hgetall t k"] by (simp add: dict_ok_def)
next
  case (12 t k p)
  then show ?case using ref_fields [OF 12, of k] dom_dget [of "ref_hgetall t k"] by (auto simp: dict_ok_def)
next
  case 13 then show ?case by (simp add: ref_fields)
next
  case (14 t p) then show ?case using ref_names [of _ t] by auto
next
  case (15 t ks)
  then show ?case using ref_view_filter [of "\<lambda>p. fst p \<notin> set ks" t] by (simp add: dict_ok_filter fun_eq_iff)
next
  case (16 t k) then show ?case using ref_names [of k t] by (simp add: image_comp)
next
  case (17 t cs)
  then have "list_all cmd_textb cs" by (simp add: list_all_iff cmd_text_check)
  then show ?case using ref_cmds_law [OF 17(1), of cs] 17(2) by (cases "ref_cmds cs t") simp
next
  case 18 then show ?case by (simp add: ref_view_def case_prod_beta)
qed

interpretation ref_server: redis_backend ref_redis dict_ok ref_view ref_glob C
  for C
  by (intro redis_backend.intro ref_redis_server)

section \<open>Properties\<close>


text \<open>Witness of C25: a namespace with a star in its name, next to one it does not match literally.\<close>

definition ref_store :: "pystr \<Rightarrow> ref_server redis_store" where
  "ref_store pre = \<lparr>rs_server = [], rs_prefix = pre, rs_codec = lit ''msgpack'', rs_snap_meta = snapshot_meta_init\<rparr>"

lemma ref_store_init: "redis_init [] pre (lit ''msgpack'') = Inr (ref_store pre)"
  by (simp add: redis_init_def ref_store_def)






end
