(* ===== verification/Postgres_Store.thy ===== *)
theory Postgres_Store
  imports Disk_Store
begin

text \<open>
  \<^verbatim>\<open>src/python/swarmstate/backends/postgres.py\<close>: the PostgreSQL store, one table
  \<open>(ns, k, v)\<close> with primary key \<open>(ns, k)\<close>. The server is a parameter: the record \<open>pg_api\<close> has one
  field per statement of \<open>_Queries\<close> (its first argument is the table name that the SQL text
  contains) over the state of the database; the rows a statement returns are lists. A block
  \<open>with conn.transaction()\<close> is one call. What the store relies on is stated in \<open>Postgres_Laws\<close>.
  Pools, connections and the lock of the single-connection mode are not modelled: each call runs
  alone on the committed data. Reading or deleting text the server cannot hold finds nothing, where
  the client raises.
\<close>

section \<open>The server\<close>

record 'p pg_api =
  q_create :: "pystr \<Rightarrow> 'p \<Rightarrow> 'p"
  q_upsert :: "pystr \<Rightarrow> 'p \<Rightarrow> row \<Rightarrow> exc + 'p"
  q_upsert_all :: "pystr \<Rightarrow> 'p \<Rightarrow> row list \<Rightarrow> exc + 'p"
  q_get :: "pystr \<Rightarrow> 'p \<Rightarrow> pystr \<Rightarrow> pystr \<Rightarrow> bytes list"
  q_get_many :: "pystr \<Rightarrow> 'p \<Rightarrow> pystr list \<Rightarrow> pystr list \<Rightarrow> row list"
  q_contains :: "pystr \<Rightarrow> 'p \<Rightarrow> pystr \<Rightarrow> pystr \<Rightarrow> int list"
  q_delete :: "pystr \<Rightarrow> 'p \<Rightarrow> pystr \<Rightarrow> pystr \<Rightarrow> nat \<times> 'p"
  q_delete_many :: "pystr \<Rightarrow> 'p \<Rightarrow> pystr list \<Rightarrow> pystr list \<Rightarrow> nat \<times> 'p"
  q_delete_namespace :: "pystr \<Rightarrow> 'p \<Rightarrow> pystr \<Rightarrow> nat \<times> 'p"
  q_keys :: "pystr \<Rightarrow> 'p \<Rightarrow> pystr \<Rightarrow> pystr list"
  q_keys_prefix :: "pystr \<Rightarrow> 'p \<Rightarrow> pystr \<Rightarrow> pystr \<Rightarrow> pystr list"
  q_max_key :: "pystr \<Rightarrow> 'p \<Rightarrow> pystr \<Rightarrow> pystr option list"
  q_namespaces :: "pystr \<Rightarrow> 'p \<Rightarrow> pystr list"
  q_namespaces_prefix :: "pystr \<Rightarrow> 'p \<Rightarrow> pystr \<Rightarrow> pystr list"
  q_clear :: "pystr \<Rightarrow> 'p \<Rightarrow> 'p"
  q_count :: "pystr \<Rightarrow> 'p \<Rightarrow> nat"
  q_has_namespace :: "pystr \<Rightarrow> 'p \<Rightarrow> pystr \<Rightarrow> int list"
  q_all_rows :: "pystr \<Rightarrow> 'p \<Rightarrow> row list"
  q_refill :: "pystr \<Rightarrow> 'p \<Rightarrow> row list \<Rightarrow> exc + 'p"

record 'p pg_store =
  pg_db :: 'p
  pg_table :: pystr
  pg_codec :: pystr
  pg_snap_meta :: snapshot_meta

text \<open>\<open>_IDENT.match\<close>: \<open>$\<close> also matches before a final newline.\<close>

definition ident_start :: "nat \<Rightarrow> bool" where
  "ident_start c \<longleftrightarrow> (65 \<le> c \<and> c \<le> 90) \<or> (97 \<le> c \<and> c \<le> 122) \<or> c = 95"

definition is_ident :: "pystr \<Rightarrow> bool" where
  "is_ident t = (case t of
       [] \<Rightarrow> False
     | c # cs \<Rightarrow> ident_start c \<and>
         (let rest = dropWhile (\<lambda>c. ident_start c \<or> is_digit c) cs in rest = [] \<or> rest = [10]))"

definition pg_init :: "'p pg_api \<Rightarrow> 'p \<Rightarrow> pystr \<Rightarrow> pystr \<Rightarrow> exc + 'p pg_store" where
  "pg_init P db tab codec =
     (if codec \<noteq> lit ''msgpack'' then Inl (ValueError ''codec is not supported'')
      else if \<not> is_ident tab then Inl (ValueError ''invalid table name'')
      else Inr \<lparr>pg_db = q_create P tab db, pg_table = tab, pg_codec = codec, pg_snap_meta = snapshot_meta_init\<rparr>)"

text \<open>\<open>fetchone\<close>.\<close>

fun fetchone :: "'a list \<Rightarrow> 'a option" where
  "fetchone [] = None"
| "fetchone (r # _) = Some r"

text \<open>\<open>_unzip\<close> and \<open>_in_order\<close>.\<close>

definition unzip :: "(pystr \<times> pystr) list \<Rightarrow> pystr list \<times> pystr list" where
  "unzip pairs = (map fst pairs, map snd pairs)"

definition in_order :: "codec \<Rightarrow> (pystr \<times> pystr) list \<Rightarrow> row list \<Rightarrow> exc + pyval list" where
  "in_order C pairs rows =
     (let found = dict_of (map (\<lambda>(ns, k, v). ((ns, k), v)) rows)
      in mapE (\<lambda>p. case dget found p of None \<Rightarrow> Inr PNone | Some raw \<Rightarrow> decode C raw) pairs)"

section \<open>Operations\<close>

definition pg_with :: "'p pg_store \<Rightarrow> exc + 'p \<Rightarrow> exc + 'p pg_store" where
  "pg_with st r = bindE r (\<lambda>db. Inr (st\<lparr>pg_db := db\<rparr>))"

definition pg_set :: "codec \<Rightarrow> 'p pg_api \<Rightarrow> 'p pg_store \<Rightarrow> pystr \<Rightarrow> pystr \<Rightarrow> pyval \<Rightarrow> exc + 'p pg_store" where
  "pg_set C P st namespace key value =
     bindE (encode C value) (\<lambda>b. pg_with st (q_upsert P (pg_table st) (pg_db st) (namespace, key, b)))"

definition pg_get :: "codec \<Rightarrow> 'p pg_api \<Rightarrow> 'p pg_store \<Rightarrow> pystr \<Rightarrow> pystr \<Rightarrow> pyval \<Rightarrow> exc + pyval" where
  "pg_get C P st namespace key dflt =
     (case fetchone (q_get P (pg_table st) (pg_db st) namespace key) of None \<Rightarrow> Inr dflt | Some raw \<Rightarrow> decode C raw)"

definition pg_set_many :: "codec \<Rightarrow> 'p pg_api \<Rightarrow> 'p pg_store \<Rightarrow> entry list \<Rightarrow> exc + 'p pg_store" where
  "pg_set_many C P st items =
     (if items = [] then Inr st
      else bindE (mapE (\<lambda>(ns, k, v). bindE (encode C v) (\<lambda>b. Inr (ns, k, b))) items) (\<lambda>rows.
           pg_with st (q_upsert_all P (pg_table st) (pg_db st) rows)))"

definition pg_get_many :: "codec \<Rightarrow> 'p pg_api \<Rightarrow> 'p pg_store \<Rightarrow> (pystr \<times> pystr) list \<Rightarrow> exc + pyval list" where
  "pg_get_many C P st pairs =
     (if pairs = [] then Inr []
      else let (nss, ks) = unzip pairs in in_order C pairs (q_get_many P (pg_table st) (pg_db st) nss ks))"

definition pg_contains :: "'p pg_api \<Rightarrow> 'p pg_store \<Rightarrow> pystr \<Rightarrow> pystr \<Rightarrow> bool" where
  "pg_contains P st namespace key \<longleftrightarrow> fetchone (q_contains P (pg_table st) (pg_db st) namespace key) \<noteq> None"

definition pg_delete :: "'p pg_api \<Rightarrow> 'p pg_store \<Rightarrow> pystr \<Rightarrow> pystr \<Rightarrow> bool \<times> 'p pg_store" where
  "pg_delete P st namespace key =
     (let (n, db) = q_delete P (pg_table st) (pg_db st) namespace key in (n > 0, st\<lparr>pg_db := db\<rparr>))"

definition pg_delete_many :: "'p pg_api \<Rightarrow> 'p pg_store \<Rightarrow> (pystr \<times> pystr) list \<Rightarrow> nat \<times> 'p pg_store" where
  "pg_delete_many P st pairs =
     (if pairs = [] then (0, st)
      else let (nss, ks) = unzip pairs; (n, db) = q_delete_many P (pg_table st) (pg_db st) nss ks
           in (n, st\<lparr>pg_db := db\<rparr>))"

definition pg_delete_namespace :: "'p pg_api \<Rightarrow> 'p pg_store \<Rightarrow> pystr \<Rightarrow> nat \<times> 'p pg_store" where
  "pg_delete_namespace P st namespace =
     (let (n, db) = q_delete_namespace P (pg_table st) (pg_db st) namespace in (n, st\<lparr>pg_db := db\<rparr>))"

definition pg_keys :: "'p pg_api \<Rightarrow> 'p pg_store \<Rightarrow> pystr \<Rightarrow> pystr option \<Rightarrow> pystr list" where
  "pg_keys P st namespace pre =
     (case pre of
        None \<Rightarrow> q_keys P (pg_table st) (pg_db st) namespace
      | Some p \<Rightarrow> q_keys_prefix P (pg_table st) (pg_db st) namespace p)"

definition pg_max_key :: "'p pg_api \<Rightarrow> 'p pg_store \<Rightarrow> pystr \<Rightarrow> pystr option" where
  "pg_max_key P st namespace =
     (case fetchone (q_max_key P (pg_table st) (pg_db st) namespace) of None \<Rightarrow> None | Some k \<Rightarrow> k)"

definition pg_namespaces :: "'p pg_api \<Rightarrow> 'p pg_store \<Rightarrow> pystr option \<Rightarrow> pystr list" where
  "pg_namespaces P st pre =
     (case pre of
        None \<Rightarrow> q_namespaces P (pg_table st) (pg_db st)
      | Some p \<Rightarrow> q_namespaces_prefix P (pg_table st) (pg_db st) p)"

definition pg_clear :: "'p pg_api \<Rightarrow> 'p pg_store \<Rightarrow> 'p pg_store" where
  "pg_clear P st = st\<lparr>pg_db := q_clear P (pg_table st) (pg_db st)\<rparr>"

definition pg_len :: "'p pg_api \<Rightarrow> 'p pg_store \<Rightarrow> nat" where
  "pg_len P st = q_count P (pg_table st) (pg_db st)"

definition pg_has_namespace :: "'p pg_api \<Rightarrow> 'p pg_store \<Rightarrow> pystr \<Rightarrow> bool" where
  "pg_has_namespace P st namespace \<longleftrightarrow> fetchone (q_has_namespace P (pg_table st) (pg_db st) namespace) \<noteq> None"

definition pg_snapshot :: "'p pg_api \<Rightarrow> 64 word \<Rightarrow> 'p pg_store \<Rightarrow> copy_snapshot \<times> 'p pg_store" where
  "pg_snapshot P now st =
     (let rows = q_all_rows P (pg_table st) (pg_db st); ((i, ts, parent), m) = meta_next now (pg_snap_meta st)
      in (copy_snapshot_init rows i ts parent, st\<lparr>pg_snap_meta := m\<rparr>))"

definition pg_restore :: "'p pg_api \<Rightarrow> copy_snapshot \<Rightarrow> ('p pg_store, unit) act" where
  "pg_restore P sn st =
     (case q_refill P (pg_table st) (pg_db st) (cs_rows sn) of
        Inl e \<Rightarrow> (Inl e, st) | Inr db \<Rightarrow> (Inr (), st\<lparr>pg_db := db\<rparr>))"

definition pg_ops :: "codec \<Rightarrow> 'p pg_api \<Rightarrow> 'p pg_store store_ops" where
  "pg_ops C P =
     \<lparr>op_set = pg_set C P, op_get = pg_get C P,
      op_set_many = Some (pg_set_many C P), op_get_many = Some (pg_get_many C P),
      op_contains = pg_contains P, op_delete = pg_delete P,
      op_delete_many = Some (pg_delete_many P), op_delete_namespace = Some (pg_delete_namespace P),
      op_keys = (\<lambda>st ns. pg_keys P st ns None),
      op_keys_prefix = (\<lambda>st ns p. Inr (pg_keys P st ns (Some p))),
      op_max_key = pg_max_key P,
      op_namespaces = (\<lambda>st. pg_namespaces P st None),
      op_namespaces_prefix = (\<lambda>st p. Inr (pg_namespaces P st (Some p))),
      op_clear = pg_clear P, op_len = pg_len P, op_has_namespace = pg_has_namespace P,
      op_indexed_max_key = True\<rparr>"

section \<open>The async twins\<close>

text \<open>The \<open>a*\<close> methods, the same statements on an async connection to the same server.\<close>

definition pg_aset :: "codec \<Rightarrow> 'p pg_api \<Rightarrow> 'p pg_store \<Rightarrow> pystr \<Rightarrow> pystr \<Rightarrow> pyval \<Rightarrow> exc + 'p pg_store" where
  "pg_aset C P st namespace key value =
     bindE (encode C value) (\<lambda>b. pg_with st (q_upsert P (pg_table st) (pg_db st) (namespace, key, b)))"

definition pg_aget :: "codec \<Rightarrow> 'p pg_api \<Rightarrow> 'p pg_store \<Rightarrow> pystr \<Rightarrow> pystr \<Rightarrow> pyval \<Rightarrow> exc + pyval" where
  "pg_aget C P st namespace key dflt =
     (case fetchone (q_get P (pg_table st) (pg_db st) namespace key) of None \<Rightarrow> Inr dflt | Some raw \<Rightarrow> decode C raw)"

definition pg_aset_many :: "codec \<Rightarrow> 'p pg_api \<Rightarrow> 'p pg_store \<Rightarrow> entry list \<Rightarrow> exc + 'p pg_store" where
  "pg_aset_many C P st items =
     (if items = [] then Inr st
      else bindE (mapE (\<lambda>(ns, k, v). bindE (encode C v) (\<lambda>b. Inr (ns, k, b))) items) (\<lambda>rows.
           pg_with st (q_upsert_all P (pg_table st) (pg_db st) rows)))"

definition pg_aget_many :: "codec \<Rightarrow> 'p pg_api \<Rightarrow> 'p pg_store \<Rightarrow> (pystr \<times> pystr) list \<Rightarrow> exc + pyval list" where
  "pg_aget_many C P st pairs =
     (if pairs = [] then Inr []
      else let (nss, ks) = unzip pairs in in_order C pairs (q_get_many P (pg_table st) (pg_db st) nss ks))"

definition pg_acontains :: "'p pg_api \<Rightarrow> 'p pg_store \<Rightarrow> pystr \<Rightarrow> pystr \<Rightarrow> bool" where
  "pg_acontains P st namespace key \<longleftrightarrow> fetchone (q_contains P (pg_table st) (pg_db st) namespace key) \<noteq> None"

definition pg_adelete :: "'p pg_api \<Rightarrow> 'p pg_store \<Rightarrow> pystr \<Rightarrow> pystr \<Rightarrow> bool \<times> 'p pg_store" where
  "pg_adelete P st namespace key =
     (let (n, db) = q_delete P (pg_table st) (pg_db st) namespace key in (n > 0, st\<lparr>pg_db := db\<rparr>))"

definition pg_adelete_many :: "'p pg_api \<Rightarrow> 'p pg_store \<Rightarrow> (pystr \<times> pystr) list \<Rightarrow> nat \<times> 'p pg_store" where
  "pg_adelete_many P st pairs =
     (if pairs = [] then (0, st)
      else let (nss, ks) = unzip pairs; (n, db) = q_delete_many P (pg_table st) (pg_db st) nss ks
           in (n, st\<lparr>pg_db := db\<rparr>))"

definition pg_adelete_namespace :: "'p pg_api \<Rightarrow> 'p pg_store \<Rightarrow> pystr \<Rightarrow> nat \<times> 'p pg_store" where
  "pg_adelete_namespace P st namespace =
     (let (n, db) = q_delete_namespace P (pg_table st) (pg_db st) namespace in (n, st\<lparr>pg_db := db\<rparr>))"

definition pg_akeys :: "'p pg_api \<Rightarrow> 'p pg_store \<Rightarrow> pystr \<Rightarrow> pystr option \<Rightarrow> pystr list" where
  "pg_akeys P st namespace pre =
     (case pre of
        None \<Rightarrow> q_keys P (pg_table st) (pg_db st) namespace
      | Some p \<Rightarrow> q_keys_prefix P (pg_table st) (pg_db st) namespace p)"

definition pg_amax_key :: "'p pg_api \<Rightarrow> 'p pg_store \<Rightarrow> pystr \<Rightarrow> pystr option" where
  "pg_amax_key P st namespace =
     (case fetchone (q_max_key P (pg_table st) (pg_db st) namespace) of None \<Rightarrow> None | Some k \<Rightarrow> k)"

definition pg_anamespaces :: "'p pg_api \<Rightarrow> 'p pg_store \<Rightarrow> pystr option \<Rightarrow> pystr list" where
  "pg_anamespaces P st pre =
     (case pre of
        None \<Rightarrow> q_namespaces P (pg_table st) (pg_db st)
      | Some p \<Rightarrow> q_namespaces_prefix P (pg_table st) (pg_db st) p)"

text \<open>The store as the saver's async methods use it; clear, len and the namespace test are sync only.\<close>

definition pg_aops :: "codec \<Rightarrow> 'p pg_api \<Rightarrow> 'p pg_store store_ops" where
  "pg_aops C P =
     \<lparr>op_set = pg_aset C P, op_get = pg_aget C P,
      op_set_many = Some (pg_aset_many C P), op_get_many = Some (pg_aget_many C P),
      op_contains = pg_acontains P, op_delete = pg_adelete P,
      op_delete_many = Some (pg_adelete_many P), op_delete_namespace = Some (pg_adelete_namespace P),
      op_keys = (\<lambda>st ns. pg_akeys P st ns None),
      op_keys_prefix = (\<lambda>st ns p. Inr (pg_akeys P st ns (Some p))),
      op_max_key = pg_amax_key P,
      op_namespaces = (\<lambda>st. pg_anamespaces P st None),
      op_namespaces_prefix = (\<lambda>st p. Inr (pg_anamespaces P st (Some p))),
      op_clear = pg_clear P, op_len = pg_len P, op_has_namespace = pg_has_namespace P,
      op_indexed_max_key = True\<rparr>"

end
