(* ===== verification/Postgres_Laws.thy ===== *)
theory Postgres_Laws
  imports Postgres_Store Disk_Store_Laws
begin

text \<open>
  The PostgreSQL store keeps the store contract on every server with the documented behaviour
  (locale \<open>pg_server\<close>): \<open>tables\<close> shows what each table holds, \<open>tab\<close> which table a name in the SQL
  text means (PostgreSQL folds unquoted names to lower case). Text values exclude the NUL character
  (\<open>pg_text\<close>); columns with \<open>COLLATE "C"\<close> are ordered by code point; a transaction takes effect as a
  whole or raises.
\<close>

section \<open>Maps of encoded values\<close>

definition raw_ok :: "codec \<Rightarrow> (pystr \<Rightarrow> bool) \<Rightarrow> (pystr \<times> pystr \<Rightarrow> bytes option) \<Rightarrow> bool" where
  "raw_ok C okt M \<longleftrightarrow> finite (dom M) \<and>
     (\<forall>ns k b. M (ns, k) = Some b \<longrightarrow> okt ns \<and> okt k \<and> (\<exists>v. decode C b = Inr v))"

definition raw_content :: "codec \<Rightarrow> (pystr \<times> pystr \<Rightarrow> bytes option) \<Rightarrow> content" where
  "raw_content C M = (\<lambda>p. decoded C (M p))"

lemma raw_okD: "raw_ok C okt M \<Longrightarrow> M (ns, k) = Some b \<Longrightarrow> okt ns \<and> okt k \<and> (\<exists>v. decode C b = Inr v)"
  by (simp add: raw_ok_def)

lemma raw_dom: "raw_ok C okt M \<Longrightarrow> raw_content C M p = None \<longleftrightarrow> M p = None"
proof -
  assume ok: "raw_ok C okt M"
  obtain ns k where p: "p = (ns, k)" by (cases p)
  show ?thesis using raw_okD [OF ok, of ns k] by (cases "M p") (auto simp: raw_content_def decoded_def p)
qed

lemma raw_decode:
  "raw_ok C okt M \<Longrightarrow> (case M p of None \<Rightarrow> Inr d | Some b \<Rightarrow> decode C b) = Inr (case raw_content C M p of None \<Rightarrow> d | Some v \<Rightarrow> v)"
proof -
  assume ok: "raw_ok C okt M"
  obtain ns k where p: "p = (ns, k)" by (cases p)
  show ?thesis using raw_okD [OF ok, of ns k] by (cases "M p") (auto simp: raw_content_def decoded_def p)
qed

lemma raw_update:
  assumes "raw_ok C okt M" "okt ns" "okt k" "decode C b = Inr v"
  shows "raw_ok C okt (M((ns, k) \<mapsto> b)) \<and> raw_content C (M((ns, k) \<mapsto> b)) = (raw_content C M)((ns, k) \<mapsto> v)"
  using assms raw_okD [OF assms(1)]
  by (auto simp: raw_ok_def raw_content_def decoded_def fun_eq_iff split: if_splits)

lemma raw_remove:
  assumes "raw_ok C okt M"
  shows "raw_ok C okt (\<lambda>p. if p \<in> S then None else M p) \<and>
    raw_content C (\<lambda>p. if p \<in> S then None else M p) = del_all S (raw_content C M)"
proof -
  have "dom (\<lambda>p. if p \<in> S then None else M p) \<subseteq> dom M" by (auto split: if_splits)
  then show ?thesis using assms finite_subset
    by (auto simp: raw_ok_def raw_content_def decoded_def del_all_def)
qed

lemma raw_empty: "raw_ok C okt Map.empty" "raw_content C Map.empty = Map.empty"
  by (auto simp: raw_ok_def raw_content_def decoded_def)

text \<open>A batch of encoded rows.\<close>

definition put_raws :: "row list \<Rightarrow> (pystr \<times> pystr \<Rightarrow> bytes option) \<Rightarrow> pystr \<times> pystr \<Rightarrow> bytes option" where
  "put_raws rows M = fold (\<lambda>(ns, k, b) M. M((ns, k) \<mapsto> b)) rows M"

lemma raw_batch:
  assumes "raw_ok C okt M" "mapE (\<lambda>(ns, k, v). bindE (encode C v) (\<lambda>b. Inr (ns, k, b))) es = Inr rows"
    and "\<And>ns k v. (ns, k, v) \<in> set es \<Longrightarrow> okt ns \<and> okt k \<and> storable C v"
  shows "raw_ok C okt (put_raws rows M) \<and> raw_content C (put_raws rows M) = upd_all es (raw_content C M) \<and>
    (\<forall>(ns, k, b) \<in> set rows. okt ns \<and> okt k)"
  using assms
proof (induction es arbitrary: M rows)
  case (Cons e es)
  obtain ns k v where e: "e = (ns, k, v)" by (cases e)
  from Cons.prems(2) obtain b rs where b: "encode C v = Inr b" "rows = (ns, k, b) # rs"
      "mapE (\<lambda>(ns, k, v). bindE (encode C v) (\<lambda>b. Inr (ns, k, b))) es = Inr rs"
    by (auto simp: e bindE_eq_Inr)
  have ok: "okt ns" "okt k" "storable C v" using Cons.prems(3) [of ns k v] by (simp_all add: e)
  then have "decode C b = Inr v" using b(1) by (auto simp: storable_iff)
  note u = raw_update [OF Cons.prems(1) ok(1,2) this]
  have "raw_ok C okt (put_raws rs (M((ns, k) \<mapsto> b))) \<and>
      raw_content C (put_raws rs (M((ns, k) \<mapsto> b))) = upd_all es (raw_content C (M((ns, k) \<mapsto> b))) \<and>
      (\<forall>(ns, k, b) \<in> set rs. okt ns \<and> okt k)"
    by (rule Cons.IH [OF u [THEN conjunct1] b(3)]) (rule Cons.prems(3), simp)
  then show ?case using u ok by (simp add: put_raws_def b(2) e del: fun_upd_apply)
qed (simp add: put_raws_def)

lemma mapE_encode_ok:
  assumes "\<And>ns k v. (ns, k, v) \<in> set es \<Longrightarrow> storable C v"
  obtains rows where "mapE (\<lambda>(ns, k, v). bindE (encode C v) (\<lambda>b. Inr (ns, k, b))) es = Inr rows"
proof -
  have "\<exists>rows. mapE (\<lambda>(ns, k, v). bindE (encode C v) (\<lambda>b. Inr (ns, k, b))) es = Inr rows"
    using assms
  proof (induction es)
    case (Cons e es)
    obtain ns k v where e: "e = (ns, k, v)" by (cases e)
    have "storable C v" using Cons.prems [of ns k v] by (simp add: e)
    then obtain b where "encode C v = Inr b" by (auto simp: storable_iff)
    moreover obtain rows where "mapE (\<lambda>(ns, k, v). bindE (encode C v) (\<lambda>b. Inr (ns, k, b))) es = Inr rows"
      using Cons by auto
    ultimately show ?case by (simp add: e)
  qed simp
  with that show ?thesis by blast
qed

section \<open>The server\<close>

definition pg_text :: "pystr \<Rightarrow> bool" where
  "pg_text s \<longleftrightarrow> is_text s \<and> 0 \<notin> set s"

type_synonym pg_tables = "pystr \<Rightarrow> pystr \<times> pystr \<Rightarrow> bytes option"

locale pg_server =
  fixes P :: "'p pg_api"
    and pinv :: "'p \<Rightarrow> bool"
    and tables :: "'p \<Rightarrow> pg_tables"
    and tab :: "pystr \<Rightarrow> pystr"
  assumes create_law: "pinv d \<Longrightarrow> is_ident t \<Longrightarrow> pinv (q_create P t d) \<and> tables (q_create P t d) = tables d"
    and upsert_law: "pinv d \<Longrightarrow> is_ident t \<Longrightarrow> pg_text ns \<Longrightarrow> pg_text k \<Longrightarrow>
      \<exists>d'. q_upsert P t d (ns, k, v) = Inr d' \<and> pinv d' \<and>
        tables d' = (tables d)(tab t := (tables d (tab t))((ns, k) \<mapsto> v))"
    and upsert_refused: "pinv d \<Longrightarrow> is_ident t \<Longrightarrow> \<not> (pg_text ns \<and> pg_text k) \<Longrightarrow> \<exists>e. q_upsert P t d (ns, k, v) = Inl e"
    and upsert_all_law: "pinv d \<Longrightarrow> is_ident t \<Longrightarrow> \<forall>(ns, k, v) \<in> set rows. pg_text ns \<and> pg_text k \<Longrightarrow>
      \<exists>d'. q_upsert_all P t d rows = Inr d' \<and> pinv d' \<and>
        tables d' = (tables d)(tab t := put_raws rows (tables d (tab t)))"
    and upsert_all_refused: "pinv d \<Longrightarrow> is_ident t \<Longrightarrow> \<exists>(ns, k, v) \<in> set rows. \<not> (pg_text ns \<and> pg_text k) \<Longrightarrow>
      \<exists>e. q_upsert_all P t d rows = Inl e"
    and select_law: "pinv d \<Longrightarrow> is_ident t \<Longrightarrow>
      q_get P t d ns k = (case tables d (tab t) (ns, k) of None \<Rightarrow> [] | Some v \<Rightarrow> [v])"
    and select_many_law: "pinv d \<Longrightarrow> is_ident t \<Longrightarrow> length nss = length ks \<Longrightarrow> set (q_get_many P t d nss ks) =
      {(ns, k, v). (ns, k) \<in> set (zip nss ks) \<and> tables d (tab t) (ns, k) = Some v}"
    and select_one_law: "pinv d \<Longrightarrow> is_ident t \<Longrightarrow>
      q_contains P t d ns k = (case tables d (tab t) (ns, k) of None \<Rightarrow> [] | Some v \<Rightarrow> [1])"
    and delete_row_law: "pinv d \<Longrightarrow> is_ident t \<Longrightarrow> q_delete P t d ns k = (n, d') \<Longrightarrow> pinv d' \<and>
      n = (if tables d (tab t) (ns, k) = None then 0 else 1) \<and>
      tables d' = (tables d)(tab t := (\<lambda>p. if p \<in> {(ns, k)} then None else tables d (tab t) p))"
    and delete_rows_law: "pinv d \<Longrightarrow> is_ident t \<Longrightarrow> length nss = length ks \<Longrightarrow> q_delete_many P t d nss ks = (n, d') \<Longrightarrow>
      pinv d' \<and> n = card (set (zip nss ks) \<inter> dom (tables d (tab t))) \<and>
      tables d' = (tables d)(tab t := (\<lambda>p. if p \<in> set (zip nss ks) then None else tables d (tab t) p))"
    and delete_ns_law: "pinv d \<Longrightarrow> is_ident t \<Longrightarrow> q_delete_namespace P t d ns = (n, d') \<Longrightarrow> pinv d' \<and>
      n = card {k. tables d (tab t) (ns, k) \<noteq> None} \<and>
      tables d' = (tables d)(tab t := (\<lambda>p. if p \<in> {p. fst p = ns} then None else tables d (tab t) p))"
    and select_keys_law: "pinv d \<Longrightarrow> is_ident t \<Longrightarrow> distinct (q_keys P t d ns) \<and>
      set (q_keys P t d ns) = {k. tables d (tab t) (ns, k) \<noteq> None}"
    and select_keys_prefix_law: "pinv d \<Longrightarrow> is_ident t \<Longrightarrow> distinct (q_keys_prefix P t d ns p) \<and>
      set (q_keys_prefix P t d ns p) = {k. tables d (tab t) (ns, k) \<noteq> None \<and> startswith k p}"
    and select_max_law: "pinv d \<Longrightarrow> is_ident t \<Longrightarrow> q_max_key P t d ns =
      [if \<forall>k. tables d (tab t) (ns, k) = None then None else Some (Max {k. tables d (tab t) (ns, k) \<noteq> None})]"
    and select_ns_law: "pinv d \<Longrightarrow> is_ident t \<Longrightarrow> distinct (q_namespaces P t d) \<and>
      set (q_namespaces P t d) = {ns. \<exists>k. tables d (tab t) (ns, k) \<noteq> None}"
    and select_ns_prefix_law: "pinv d \<Longrightarrow> is_ident t \<Longrightarrow> distinct (q_namespaces_prefix P t d p) \<and>
      set (q_namespaces_prefix P t d p) = {ns. (\<exists>k. tables d (tab t) (ns, k) \<noteq> None) \<and> startswith ns p}"
    and delete_all_law: "pinv d \<Longrightarrow> is_ident t \<Longrightarrow> pinv (q_clear P t d) \<and> tables (q_clear P t d) = (tables d)(tab t := Map.empty)"
    and count_law: "pinv d \<Longrightarrow> is_ident t \<Longrightarrow> q_count P t d = card (dom (tables d (tab t)))"
    and has_ns_law: "pinv d \<Longrightarrow> is_ident t \<Longrightarrow> q_has_namespace P t d ns = (if \<exists>k. tables d (tab t) (ns, k) \<noteq> None then [1] else [])"
    and select_all_law: "pinv d \<Longrightarrow> is_ident t \<Longrightarrow> distinct (map row_key (q_all_rows P t d)) \<and> traw (q_all_rows P t d) = tables d (tab t)"
    and refill_law: "pinv d \<Longrightarrow> is_ident t \<Longrightarrow> distinct (map row_key rows) \<Longrightarrow> \<forall>(ns, k, v) \<in> set rows. pg_text ns \<and> pg_text k \<Longrightarrow>
      \<exists>d'. q_refill P t d rows = Inr d' \<and> pinv d' \<and> tables d' = (tables d)(tab t := traw rows)"
    and refill_refused: "pinv d \<Longrightarrow> is_ident t \<Longrightarrow>
      \<not> (distinct (map row_key rows) \<and> (\<forall>(ns, k, v) \<in> set rows. pg_text ns \<and> pg_text k)) \<Longrightarrow> \<exists>e. q_refill P t d rows = Inl e"

section \<open>The store\<close>

definition pg_raw :: "('p \<Rightarrow> pg_tables) \<Rightarrow> (pystr \<Rightarrow> pystr) \<Rightarrow> 'p pg_store \<Rightarrow> pystr \<times> pystr \<Rightarrow> bytes option" where
  "pg_raw tables tab st = tables (pg_db st) (tab (pg_table st))"

definition pg_inv :: "codec \<Rightarrow> ('p \<Rightarrow> bool) \<Rightarrow> ('p \<Rightarrow> pg_tables) \<Rightarrow> (pystr \<Rightarrow> pystr) \<Rightarrow> 'p pg_store \<Rightarrow> bool" where
  "pg_inv C pinv tables tab st \<longleftrightarrow> pinv (pg_db st) \<and> is_ident (pg_table st) \<and> raw_ok C pg_text (pg_raw tables tab st)"

definition pg_content :: "codec \<Rightarrow> ('p \<Rightarrow> pg_tables) \<Rightarrow> (pystr \<Rightarrow> pystr) \<Rightarrow> 'p pg_store \<Rightarrow> content" where
  "pg_content C tables tab st = raw_content C (pg_raw tables tab st)"

locale pg_backend = pg_server P pinv tables tab
  for P :: "'p pg_api" and pinv tables tab +
  fixes C :: codec
begin

lemma pg_invD:
  "pg_inv C pinv tables tab st \<Longrightarrow> pinv (pg_db st)"
  "pg_inv C pinv tables tab st \<Longrightarrow> is_ident (pg_table st)"
  "pg_inv C pinv tables tab st \<Longrightarrow> raw_ok C pg_text (pg_raw tables tab st)"
  by (simp_all add: pg_inv_def)

lemma pg_none: "pg_inv C pinv tables tab st \<Longrightarrow> pg_content C tables tab st p = None \<longleftrightarrow> pg_raw tables tab st p = None"
  using raw_dom [OF pg_invD(3)] by (simp add: pg_content_def)

lemma pg_dom: "pg_inv C pinv tables tab st \<Longrightarrow> dom (pg_content C tables tab st) = dom (pg_raw tables tab st)"
  using pg_none by (auto simp: dom_def)

lemma pg_ns_keys: "pg_inv C pinv tables tab st \<Longrightarrow> ns_keys (pg_content C tables tab st) ns = {k. pg_raw tables tab st (ns, k) \<noteq> None}"
  using pg_none by (auto simp: ns_keys_def)

lemma pg_ns_names: "pg_inv C pinv tables tab st \<Longrightarrow> ns_names (pg_content C tables tab st) = {ns. \<exists>k. pg_raw tables tab st (ns, k) \<noteq> None}"
  using pg_none by (auto simp: ns_names_def ns_keys_def)

text \<open>A change of the store's table.\<close>

lemma pg_changed:
  assumes "pg_inv C pinv tables tab st" "pinv d" "tables d = (tables (pg_db st))(tab (pg_table st) := M)" "raw_ok C pg_text M"
  shows "pg_inv C pinv tables tab (st\<lparr>pg_db := d\<rparr>) \<and> pg_content C tables tab (st\<lparr>pg_db := d\<rparr>) = raw_content C M"
  using assms by (simp add: pg_inv_def pg_content_def pg_raw_def)

lemma pg_set_run:
  assumes "pg_inv C pinv tables tab st" "pg_text ns" "pg_text k" "storable C v"
  shows "\<exists>st'. pg_set C P st ns k v = Inr st' \<and> pg_inv C pinv tables tab st' \<and>
    pg_content C tables tab st' = (pg_content C tables tab st)((ns, k) \<mapsto> v)"
proof -
  note i = pg_invD [OF assms(1)]
  obtain b where b: "encode C v = Inr b" "decode C b = Inr v" using assms(4) by (auto simp: storable_iff)
  obtain d where d: "q_upsert P (pg_table st) (pg_db st) (ns, k, b) = Inr d" "pinv d"
      "tables d = (tables (pg_db st))(tab (pg_table st) := (pg_raw tables tab st)((ns, k) \<mapsto> b))"
    using upsert_law [OF i(1,2) assms(2,3), of b] by (auto simp: pg_raw_def)
  note u = raw_update [OF i(3) assms(2,3) b(2)]
  from pg_changed [OF assms(1) d(2,3) u [THEN conjunct1]] u show ?thesis
    by (simp add: pg_set_def b(1) pg_with_def d(1) pg_content_def del: fun_upd_apply)
qed

lemma pg_set_many_run:
  assumes "pg_inv C pinv tables tab st" "\<And>ns k v. (ns, k, v) \<in> set es \<Longrightarrow> pg_text ns \<and> pg_text k \<and> storable C v"
  shows "\<exists>st'. pg_set_many C P st es = Inr st' \<and> pg_inv C pinv tables tab st' \<and>
    pg_content C tables tab st' = upd_all es (pg_content C tables tab st)"
proof (cases "es = []")
  case False
  note i = pg_invD [OF assms(1)]
  obtain rows where rows: "mapE (\<lambda>(ns, k, v). bindE (encode C v) (\<lambda>b. Inr (ns, k, b))) es = Inr rows"
    using mapE_encode_ok [of es C] assms(2) by blast
  note u = raw_batch [OF i(3) rows assms(2)]
  obtain d where d: "q_upsert_all P (pg_table st) (pg_db st) rows = Inr d" "pinv d"
      "tables d = (tables (pg_db st))(tab (pg_table st) := put_raws rows (pg_raw tables tab st))"
    using upsert_all_law [OF i(1,2), of rows] u by (auto simp: pg_raw_def)
  from pg_changed [OF assms(1) d(2,3) u [THEN conjunct1]] u show ?thesis
    by (simp add: pg_set_many_def False rows pg_with_def d(1) pg_content_def)
qed (simp add: pg_set_many_def assms(1))

lemma pg_get_run:
  assumes "pg_inv C pinv tables tab st"
  shows "pg_get C P st ns k d = Inr (case pg_content C tables tab st (ns, k) of None \<Rightarrow> d | Some v \<Rightarrow> v)"
  using raw_decode [OF pg_invD(3) [OF assms], of d "(ns, k)"] select_law [OF pg_invD(1) [OF assms] pg_invD(2) [OF assms], of ns k]
  by (cases "pg_raw tables tab st (ns, k)") (simp_all add: pg_get_def pg_raw_def pg_content_def)

lemma in_order_run:
  assumes "pg_inv C pinv tables tab st" "set rows = {(ns, k, v). (ns, k) \<in> set ps \<and> pg_raw tables tab st (ns, k) = Some v}"
  shows "in_order C ps rows = Inr (map (\<lambda>p. case pg_content C tables tab st p of None \<Rightarrow> PNone | Some v \<Rightarrow> v) ps)"
proof -
  let ?L = "map (\<lambda>(ns, k, v). ((ns, k), v)) rows"
  have L: "set ?L = {(p, v). p \<in> set ps \<and> pg_raw tables tab st p = Some v}" using assms(2) by force
  have found: "dget (dict_of ?L) p = pg_raw tables tab st p" if "p \<in> set ps" for p
  proof -
    have "map_of (rev ?L) p = (if p \<in> fst ` set (rev ?L) then pg_raw tables tab st p else None)"
      by (rule map_of_functional) (use L in auto)
    moreover have "p \<in> fst ` set (rev ?L) \<longleftrightarrow> pg_raw tables tab st p \<noteq> None" using that unfolding set_rev L by force
    ultimately show ?thesis by (auto simp: dget_dict_of)
  qed
  show ?thesis unfolding in_order_def Let_def
  proof (rule mapE_Inr_map)
    fix p assume "p \<in> set ps"
    then show "(case dget (dict_of ?L) p of None \<Rightarrow> Inr PNone | Some raw \<Rightarrow> decode C raw) =
        Inr (case pg_content C tables tab st p of None \<Rightarrow> PNone | Some v \<Rightarrow> v)"
      using found raw_decode [OF pg_invD(3) [OF assms(1)], of PNone p] by (simp add: pg_content_def)
  qed
qed

lemma pg_get_many_run:
  assumes "pg_inv C pinv tables tab st"
  shows "pg_get_many C P st ps = Inr (map (\<lambda>p. case pg_content C tables tab st p of None \<Rightarrow> PNone | Some v \<Rightarrow> v) ps)"
proof -
  have "set (q_get_many P (pg_table st) (pg_db st) (map fst ps) (map snd ps)) =
      {(ns, k, v). (ns, k) \<in> set ps \<and> pg_raw tables tab st (ns, k) = Some v}"
    using select_many_law [OF pg_invD(1) [OF assms] pg_invD(2) [OF assms], of "map fst ps" "map snd ps"] by (simp add: zip_map_fst_snd pg_raw_def)
  from in_order_run [OF assms this] show ?thesis by (simp add: pg_get_many_def unzip_def)
qed

text \<open>A statement that removes a set of rows.\<close>

lemma pg_removed:
  assumes "pg_inv C pinv tables tab st" "pinv d"
    "tables d = (tables (pg_db st))(tab (pg_table st) := (\<lambda>p. if p \<in> S then None else tables (pg_db st) (tab (pg_table st)) p))"
  shows "pg_inv C pinv tables tab (st\<lparr>pg_db := d\<rparr>) \<and> pg_content C tables tab (st\<lparr>pg_db := d\<rparr>) = del_all S (pg_content C tables tab st)"
proof -
  note r = raw_remove [OF pg_invD(3) [OF assms(1)], of S]
  have "pg_inv C pinv tables tab (st\<lparr>pg_db := d\<rparr>) \<and>
      pg_content C tables tab (st\<lparr>pg_db := d\<rparr>) = raw_content C (\<lambda>p. if p \<in> S then None else pg_raw tables tab st p)"
    by (rule pg_changed [OF assms(1,2) _ r [THEN conjunct1]]) (simp only: assms(3) pg_raw_def)
  then show ?thesis using r by (simp add: pg_content_def)
qed

lemma pg_delete_run:
  assumes "pg_inv C pinv tables tab st" "pg_delete P st ns k = (b, st')"
  shows "pg_inv C pinv tables tab st' \<and> pg_content C tables tab st' = (pg_content C tables tab st)((ns, k) := None) \<and>
    (b \<longleftrightarrow> pg_content C tables tab st (ns, k) \<noteq> None)"
proof -
  obtain n d where d: "q_delete P (pg_table st) (pg_db st) ns k = (n, d)" by fastforce
  note l = delete_row_law [OF pg_invD(1) [OF assms(1)] pg_invD(2) [OF assms(1)] d]
  from pg_removed [OF assms(1), of d "{(ns, k)}"] l assms(2) show ?thesis
    by (auto simp: pg_delete_def d del_all_single pg_none [OF assms(1)] pg_raw_def split: if_splits)
qed

lemma pg_delete_many_run:
  assumes "pg_inv C pinv tables tab st" "pg_delete_many P st ps = (n, st')"
  shows "pg_inv C pinv tables tab st' \<and> pg_content C tables tab st' = del_all (set ps) (pg_content C tables tab st) \<and>
    n = card (set ps \<inter> dom (pg_content C tables tab st))"
proof (cases "ps = []")
  case False
  obtain m d where d: "q_delete_many P (pg_table st) (pg_db st) (map fst ps) (map snd ps) = (m, d)" by fastforce
  note l = delete_rows_law [OF pg_invD(1) [OF assms(1)] pg_invD(2) [OF assms(1)] _ d]
  from pg_removed [OF assms(1), of d "set ps"] l assms(2) False show ?thesis
    by (auto simp: pg_delete_many_def unzip_def d zip_map_fst_snd pg_dom [OF assms(1)] pg_raw_def)
qed (use assms in \<open>simp add: pg_delete_many_def\<close>)

lemma pg_delete_namespace_run:
  assumes "pg_inv C pinv tables tab st" "pg_delete_namespace P st ns = (n, st')"
  shows "pg_inv C pinv tables tab st' \<and> pg_content C tables tab st' = del_all {p. fst p = ns} (pg_content C tables tab st) \<and>
    n = card (ns_keys (pg_content C tables tab st) ns)"
proof -
  obtain m d where d: "q_delete_namespace P (pg_table st) (pg_db st) ns = (m, d)" by fastforce
  note l = delete_ns_law [OF pg_invD(1) [OF assms(1)] pg_invD(2) [OF assms(1)] d]
  from pg_removed [OF assms(1), of d "{p. fst p = ns}"] l assms(2) show ?thesis
    by (auto simp: pg_delete_namespace_def d pg_ns_keys [OF assms(1)] pg_raw_def)
qed

lemma pg_keys_run:
  assumes "pg_inv C pinv tables tab st"
  shows "distinct (pg_keys P st ns pre) \<and> set (pg_keys P st ns pre) =
    {k \<in> ns_keys (pg_content C tables tab st) ns. case pre of None \<Rightarrow> True | Some p \<Rightarrow> startswith k p}"
  using select_keys_law [OF pg_invD(1) [OF assms] pg_invD(2) [OF assms], of ns] select_keys_prefix_law [OF pg_invD(1) [OF assms] pg_invD(2) [OF assms], of ns]
  by (cases pre) (simp_all add: pg_keys_def pg_ns_keys [OF assms] pg_raw_def)

lemma pg_namespaces_run:
  assumes "pg_inv C pinv tables tab st"
  shows "distinct (pg_namespaces P st pre) \<and> set (pg_namespaces P st pre) =
    {ns \<in> ns_names (pg_content C tables tab st). case pre of None \<Rightarrow> True | Some p \<Rightarrow> startswith ns p}"
  using select_ns_law [OF pg_invD(1) [OF assms] pg_invD(2) [OF assms]] select_ns_prefix_law [OF pg_invD(1) [OF assms] pg_invD(2) [OF assms]]
  by (cases pre) (simp_all add: pg_namespaces_def pg_ns_names [OF assms] pg_raw_def)

lemma pg_max_key_run:
  assumes "pg_inv C pinv tables tab st"
  shows "pg_max_key P st ns = (if ns_keys (pg_content C tables tab st) ns = {} then None else Some (Max (ns_keys (pg_content C tables tab st) ns)))"
  using select_max_law [OF pg_invD(1) [OF assms] pg_invD(2) [OF assms], of ns] by (simp add: pg_max_key_def pg_ns_keys [OF assms] pg_raw_def)

lemma pg_clear_run:
  assumes "pg_inv C pinv tables tab st"
  shows "pg_inv C pinv tables tab (pg_clear P st) \<and> pg_content C tables tab (pg_clear P st) = Map.empty"
  using pg_changed [OF assms, of "q_clear P (pg_table st) (pg_db st)" Map.empty] delete_all_law [OF pg_invD(1) [OF assms] pg_invD(2) [OF assms]]
  by (simp add: pg_clear_def raw_empty)

lemma pg_wop_keeps:
  assumes "pg_inv C pinv tables tab st" "do_wop (pg_ops C P) w st = Inr st'" "wop_ok pg_text (storable C) w"
  shows "pg_table st' = pg_table st \<and> (\<forall>t. t \<noteq> tab (pg_table st) \<longrightarrow> tables (pg_db st') t = tables (pg_db st) t)"
proof (cases w)
  case (WSet ns k v)
  then obtain b d where "q_upsert P (pg_table st) (pg_db st) (ns, k, b) = Inr d" "st' = st\<lparr>pg_db := d\<rparr>"
    using assms(2) by (auto simp: pg_ops_def pg_set_def pg_with_def bindE_eq_Inr)
  then show ?thesis using upsert_law [OF pg_invD(1) [OF assms(1)] pg_invD(2) [OF assms(1)], of ns k b] assms(3) WSet by auto
next
  case (WSetMany es)
  show ?thesis
  proof (cases "es = []")
    case True
    then show ?thesis using WSetMany assms(2) by (auto simp: pg_ops_def pg_set_many_def)
  next
    case False
    then obtain rows d where r: "mapE (\<lambda>(ns, k, v). bindE (encode C v) (\<lambda>b. Inr (ns, k, b))) es = Inr rows"
        "q_upsert_all P (pg_table st) (pg_db st) rows = Inr d" "st' = st\<lparr>pg_db := d\<rparr>"
      using WSetMany assms(2) by (auto simp: pg_ops_def pg_set_many_def pg_with_def bindE_eq_Inr)
    have "pg_text ns \<and> pg_text k \<and> storable C v" if "(ns, k, v) \<in> set es" for ns k v using that assms(3) WSetMany by auto
    from raw_batch [OF pg_invD(3) [OF assms(1)] r(1) this]
      upsert_all_law [OF pg_invD(1) [OF assms(1)] pg_invD(2) [OF assms(1)], of rows] r
    show ?thesis by auto
  qed
next
  case (WDelete ns k)
  then show ?thesis using assms(2) delete_row_law [OF pg_invD(1) [OF assms(1)] pg_invD(2) [OF assms(1)] surjective_pairing, of ns k]
    by (auto simp: pg_ops_def pg_delete_def case_prod_beta Let_def)
next
  case (WDeleteMany ps)
  then show ?thesis using assms(2)
      delete_rows_law [OF pg_invD(1) [OF assms(1)] pg_invD(2) [OF assms(1)] _ surjective_pairing, of "map fst ps" "map snd ps"]
    by (auto simp: pg_ops_def pg_delete_many_def unzip_def case_prod_beta Let_def split: if_splits)
next
  case (WDeleteNamespace ns)
  then show ?thesis using assms(2) delete_ns_law [OF pg_invD(1) [OF assms(1)] pg_invD(2) [OF assms(1)] surjective_pairing, of ns]
    by (auto simp: pg_ops_def pg_delete_namespace_def case_prod_beta Let_def)
next
  case WClear
  then show ?thesis using assms(2) delete_all_law [OF pg_invD(1) [OF assms(1)] pg_invD(2) [OF assms(1)]]
    by (auto simp: pg_ops_def pg_clear_def)
qed

lemma pg_snapshot_run:
  assumes "pg_inv C pinv tables tab st" "pg_snapshot P now st = (sn, st1)"
  shows "pg_inv C pinv tables tab st1" "pg_content C tables tab st1 = pg_content C tables tab st" "pg_table st1 = pg_table st"
    "distinct (map row_key (cs_rows sn))" "traw (cs_rows sn) = pg_raw tables tab st"
proof -
  have eq: "pg_db st1 = pg_db st" "pg_table st1 = pg_table st" "cs_rows sn = q_all_rows P (pg_table st) (pg_db st)"
    using assms(2) by (auto simp: pg_snapshot_def Let_def copy_snapshot_init_def split: prod.splits)
  then have "pg_raw tables tab st1 = pg_raw tables tab st" by (simp add: pg_raw_def)
  with eq assms(1) select_all_law [OF pg_invD(1) [OF assms(1)] pg_invD(2) [OF assms(1)]]
  show "pg_inv C pinv tables tab st1" "pg_content C tables tab st1 = pg_content C tables tab st" "pg_table st1 = pg_table st"
    "distinct (map row_key (cs_rows sn))" "traw (cs_rows sn) = pg_raw tables tab st"
    by (simp_all add: pg_inv_def pg_content_def) (simp add: pg_raw_def)
qed

lemma pg_restore_run:
  assumes "pg_inv C pinv tables tab st0" "pg_snapshot P now st0 = (sn, st1)"
    "pg_inv C pinv tables tab st" "pg_table st = pg_table st0"
  shows "\<exists>st'. pg_restore P sn st = (Inr (), st') \<and> pg_inv C pinv tables tab st' \<and>
    pg_raw tables tab st' = pg_raw tables tab st0 \<and> pg_table st' = pg_table st0 \<and>
    (\<forall>t. t \<noteq> tab (pg_table st0) \<longrightarrow> tables (pg_db st') t = tables (pg_db st) t)"
proof -
  note sn = pg_snapshot_run(4,5) [OF assms(1,2)]
  have "pg_text ns \<and> pg_text k" if "(ns, k, v) \<in> set (cs_rows sn)" for ns k v
    using that traw_in_set [OF sn(1), of ns k v] raw_okD [OF pg_invD(3) [OF assms(1)], of ns k v] by (simp add: sn(2))
  then have texts: "\<forall>(ns, k, v) \<in> set (cs_rows sn). pg_text ns \<and> pg_text k" by auto
  obtain d where d: "q_refill P (pg_table st) (pg_db st) (cs_rows sn) = Inr d" "pinv d"
      "tables d = (tables (pg_db st))(tab (pg_table st) := traw (cs_rows sn))"
    using refill_law [OF pg_invD(1) [OF assms(3)] pg_invD(2) [OF assms(3)] sn(1) texts] by blast
  have raw: "pg_raw tables tab (st\<lparr>pg_db := d\<rparr>) = pg_raw tables tab st0" by (simp add: pg_raw_def [of _ _ "st\<lparr>pg_db := d\<rparr>"] d(3) sn(2))
  moreover have "pg_inv C pinv tables tab (st\<lparr>pg_db := d\<rparr>)"
    using pg_invD(3) [OF assms(1)] pg_invD(2) [OF assms(3)] d(2) unfolding pg_inv_def raw by simp
  moreover have "pg_restore P sn st = (Inr (), st\<lparr>pg_db := d\<rparr>)" by (simp add: pg_restore_def d(1))
  ultimately show ?thesis using assms(4) by (intro exI [of _ "st\<lparr>pg_db := d\<rparr>"]) (simp add: d(3))
qed

end

sublocale pg_backend \<subseteq> store_like "pg_ops C P" "pg_inv C pinv tables tab" "pg_content C tables tab" pg_text "storable C"
proof (unfold_locales, unfold pg_ops_def store_ops.simps option.inject sum.inject, goal_cases)
  case (1 s) then show ?case using pg_invD(3) [OF 1] pg_dom [OF 1] by (simp add: raw_ok_def)
next
  case 2 then show ?case by (rule pg_set_run)
next
  case 3 then show ?case by (rule pg_get_run)
next
  case 4 then show ?case using pg_set_many_run by metis
next
  case 5 then show ?case using pg_get_many_run by metis
next
  case (6 s ns k)
  then show ?case using select_one_law [OF pg_invD(1) [OF 6] pg_invD(2) [OF 6], of ns k] pg_none [OF 6, of "(ns, k)"]
    by (auto simp: pg_contains_def pg_raw_def split: option.splits)
next
  case 7 then show ?case by (rule pg_delete_run)
next
  case 8 then show ?case using pg_delete_many_run by metis
next
  case 9 then show ?case using pg_delete_namespace_run by metis
next
  case (10 s ns) then show ?case using pg_keys_run [OF 10, of ns None] by simp
next
  case (11 s p ns ks) then show ?case using pg_keys_run [OF 11(1), of ns "Some p"] by auto
next
  case 12 then show ?case by simp
next
  case 13 then show ?case by (rule pg_max_key_run)
next
  case (14 s) then show ?case using pg_namespaces_run [OF 14, of None] by simp
next
  case (15 s p nss) then show ?case using pg_namespaces_run [OF 15(1), of "Some p"] by auto
next
  case 16 then show ?case by simp
next
  case 17 then show ?case by (rule pg_clear_run)
next
  case (18 s)
  then show ?case using count_law [OF pg_invD(1) [OF 18] pg_invD(2) [OF 18]] pg_dom [OF 18] by (simp add: pg_len_def pg_raw_def)
next
  case (19 s ns)
  then show ?case using has_ns_law [OF pg_invD(1) [OF 19] pg_invD(2) [OF 19], of ns] pg_ns_names [OF 19]
    by (simp add: pg_has_namespace_def pg_raw_def)
next
  case (20 s ns k)
  then show ?case using raw_okD [OF pg_invD(3) [OF 20(1)], of ns k] pg_dom [OF 20(1)] by auto
next
  case 21 then show ?case by (auto simp: pg_text_def)
next
  case (22 x) then show ?case using is_text_ascii [of x] by (auto simp: pg_text_def)
qed

section \<open>Whole runs\<close>

context pg_backend
begin

lemma pg_has_batch: "has_batch (pg_ops C P)"
  by (simp add: has_batch_def pg_ops_def)

lemma pg_wops_keep:
  assumes "pg_inv C pinv tables tab st" "\<forall>w \<in> set ws. wop_ok pg_text (storable C) w" "do_wops (pg_ops C P) ws st = Inr st'"
  shows "pg_table st' = pg_table st \<and> (\<forall>t. t \<noteq> tab (pg_table st) \<longrightarrow> tables (pg_db st') t = tables (pg_db st) t)"
  using assms
proof (induction ws arbitrary: st)
  case (Cons w ws)
  obtain st1 where st1: "do_wop (pg_ops C P) w st = Inr st1" "pg_inv C pinv tables tab st1"
    using do_wop_law [OF Cons.prems(1) pg_has_batch, of w] Cons.prems(2) by auto
  then show ?case using pg_wop_keeps [OF Cons.prems(1) st1(1)] Cons by simp
qed simp

lemma pg_runs:
  assumes "pg_inv C pinv tables tab st" "\<forall>w \<in> set ws. wop_ok pg_text (storable C) w"
  shows "\<exists>st'. do_wops (pg_ops C P) ws st = Inr st' \<and> pg_inv C pinv tables tab st' \<and>
    pg_content C tables tab st' = fold spec_wop ws (pg_content C tables tab st) \<and> pg_table st' = pg_table st \<and>
    (\<forall>t. t \<noteq> tab (pg_table st) \<longrightarrow> tables (pg_db st') t = tables (pg_db st) t)"
  using do_wops_law [OF assms(1) pg_has_batch assms(2)] pg_wops_keep [OF assms] by blast

lemma pg_contains_run: "pg_inv C pinv tables tab st \<Longrightarrow> pg_contains P st ns k \<longleftrightarrow> (ns, k) \<in> dom (pg_content C tables tab st)"
  using contains_law [of st ns k] by (auto simp: pg_ops_def)

lemma pg_len_run: "pg_inv C pinv tables tab st \<Longrightarrow> pg_len P st = card (dom (pg_content C tables tab st))"
  using len_law [of st] by (simp add: pg_ops_def)

lemma pg_open:
  assumes "pg_init P db t (lit ''msgpack'') = Inr st" "pinv db" "tables db (tab t) = Map.empty"
  shows "pg_inv C pinv tables tab st" "pg_content C tables tab st = Map.empty" "pg_table st = t" "tables (pg_db st) = tables db"
proof -
  have t: "is_ident t" "pg_table st = t" "pg_db st = q_create P t db" using assms(1) by (auto simp: pg_init_def split: if_splits)
  with create_law [OF assms(2) t(1)] assms(3) raw_empty
  show "pg_inv C pinv tables tab st" "pg_content C tables tab st = Map.empty" "pg_table st = t" "tables (pg_db st) = tables db"
    by (auto simp: pg_inv_def pg_content_def pg_raw_def)
qed

text \<open>Text the server cannot hold is refused, alone or in a batch.\<close>

lemma pg_set_refused:
  assumes "pg_inv C pinv tables tab st" "\<not> (pg_text ns \<and> pg_text k)"
  shows "\<exists>e. pg_set C P st ns k v = Inl e"
proof (cases "encode C v")
  case (Inr b)
  then show ?thesis using upsert_refused [OF pg_invD(1) [OF assms(1)] pg_invD(2) [OF assms(1)] assms(2), of b]
    by (auto simp: pg_set_def pg_with_def)
qed (simp add: pg_set_def)

lemma pg_set_many_refused:
  assumes "pg_inv C pinv tables tab st" "(ns, k, v) \<in> set es" "\<not> (pg_text ns \<and> pg_text k)"
  shows "\<exists>e. pg_set_many C P st es = Inl e"
proof (cases "mapE (\<lambda>(ns, k, v). bindE (encode C v) (\<lambda>b. Inr (ns, k, b))) es")
  case (Inl e)
  then show ?thesis using assms(2) by (auto simp: pg_set_many_def)
next
  case (Inr rows)
  from mapE_set [OF this assms(2)] obtain b where "(ns, k, b) \<in> set rows" by (auto simp: bindE_eq_Inr)
  then have "\<exists>(ns, k, v) \<in> set rows. \<not> (pg_text ns \<and> pg_text k)" using assms(3) by blast
  from upsert_all_refused [OF pg_invD(1) [OF assms(1)] pg_invD(2) [OF assms(1)] this] show ?thesis
    using assms(2) Inr by (auto simp: pg_set_many_def pg_with_def)
qed

end

end
