(* ===== verification/Postgres_Props.thy ===== *)
theory Postgres_Props
  imports Postgres_Laws Mem_Snapshots
begin

text \<open>
  The PostgreSQL store's results, for every server that keeps the laws of \<open>pg_server\<close>, and a server
  that does: lists of rows by table name, on which the results are instantiated.
\<close>

section \<open>A server\<close>

type_synonym ref_pg = "pystr \<Rightarrow> table"

definition row_text :: "row \<Rightarrow> bool" where
  "row_text = (\<lambda>(ns, k, _). list_all (\<lambda>c. scalar c \<and> c \<noteq> 0) ns \<and> list_all (\<lambda>c. scalar c \<and> c \<noteq> 0) k)"

definition ref_delete :: "pystr \<Rightarrow> ref_pg \<Rightarrow> (row \<Rightarrow> bool) \<Rightarrow> nat \<times> ref_pg" where
  "ref_delete t d Q = (length (filter Q (d t)), d(t := filter (\<lambda>r. \<not> Q r) (d t)))"

definition ref_pg_api :: "ref_pg pg_api" where
  "ref_pg_api =
     \<lparr>q_create = (\<lambda>t d. d),
      q_upsert = (\<lambda>t d r. if row_text r then Inr (d(t := put_row r (d t))) else Inl DataError),
      q_upsert_all = (\<lambda>t d rs. if list_all row_text rs then Inr (d(t := fold put_row rs (d t))) else Inl DataError),
      q_get = (\<lambda>t d ns k. map (\<lambda>(_, _, v). v) (filter (at_key ns k) (d t))),
      q_get_many = (\<lambda>t d nss ks. filter (\<lambda>r. row_key r \<in> set (zip nss ks)) (d t)),
      q_contains = (\<lambda>t d ns k. map (\<lambda>_. 1) (filter (at_key ns k) (d t))),
      q_delete = (\<lambda>t d ns k. ref_delete t d (at_key ns k)),
      q_delete_many = (\<lambda>t d nss ks. ref_delete t d (\<lambda>r. row_key r \<in> set (zip nss ks))),
      q_delete_namespace = (\<lambda>t d ns. ref_delete t d (in_ns ns)),
      q_keys = (\<lambda>t d ns. map (\<lambda>(_, k, _). k) (filter (in_ns ns) (d t))),
      q_keys_prefix = (\<lambda>t d ns p. filter (\<lambda>k. startswith k p) (map (\<lambda>(_, k, _). k) (filter (in_ns ns) (d t)))),
      q_max_key = (\<lambda>t d ns. [max_str (map (\<lambda>(_, k, _). k) (filter (in_ns ns) (d t)))]),
      q_namespaces = (\<lambda>t d. remdups (map (\<lambda>(ns, _, _). ns) (d t))),
      q_namespaces_prefix = (\<lambda>t d p. filter (\<lambda>ns. startswith ns p) (remdups (map (\<lambda>(ns, _, _). ns) (d t)))),
      q_clear = (\<lambda>t d. d(t := [])),
      q_count = (\<lambda>t d. length (d t)),
      q_has_namespace = (\<lambda>t d ns. if list_ex (in_ns ns) (d t) then [1] else []),
      q_all_rows = (\<lambda>t d. d t),
      q_refill = (\<lambda>t d rs. if distinct (map row_key rs) \<and> list_all row_text rs then Inr (d(t := rs)) else Inl DataError)\<rparr>"

definition ref_pg_ok :: "ref_pg \<Rightarrow> bool" where
  "ref_pg_ok d \<longleftrightarrow> (\<forall>t. distinct (map row_key (d t)))"

definition ref_tables :: "ref_pg \<Rightarrow> pg_tables" where
  "ref_tables d t = traw (d t)"

lemma row_text_iff: "row_text (ns, k, v) \<longleftrightarrow> pg_text ns \<and> pg_text k"
proof -
  have "list_all (\<lambda>c. scalar c \<and> c \<noteq> 0) s \<longleftrightarrow> pg_text s" for s by (induction s) (auto simp: pg_text_def)
  then show ?thesis by (simp add: row_text_def)
qed

lemma rows_text: "list_all row_text rs \<longleftrightarrow> (\<forall>(ns, k, v) \<in> set rs. pg_text ns \<and> pg_text k)"
  by (auto simp: list_all_iff row_text_iff)

lemma put_row_raw:
  assumes "distinct (map row_key t)"
  shows "distinct (map row_key (put_row (ns, k, v) t)) \<and> traw (put_row (ns, k, v) t) = (traw t)((ns, k) \<mapsto> v)"
proof -
  let ?u = "filter (\<lambda>r. row_key r \<noteq> (ns, k)) t"
  have u: "put_row (ns, k, v) t = ?u @ [(ns, k, v)]" by (simp add: put_row_def at_key_row_key)
  have "traw ?u p = (if p = (ns, k) then None else traw t p)" for p
    using traw_filter [of "\<lambda>p. p \<noteq> (ns, k)" t p] by simp
  then have "traw (?u @ [(ns, k, v)]) = (traw t)((ns, k) \<mapsto> v)"
    by (subst traw_snoc) (auto simp: fun_eq_iff)
  then show ?thesis using assms unfolding u by (auto simp: distinct_map_filter)
qed

lemma fold_put_row_raw:
  assumes "distinct (map row_key t)"
  shows "distinct (map row_key (fold put_row rs t)) \<and> traw (fold put_row rs t) = put_raws rs (traw t)"
  using assms
proof (induction rs arbitrary: t)
  case (Cons r rs)
  obtain ns k v where r: "r = (ns, k, v)" by (cases r)
  have t: "distinct (map row_key (put_row r t))" "traw (put_row r t) = (traw t)((ns, k) \<mapsto> v)"
    using put_row_raw [OF Cons.prems] unfolding r by blast+
  from Cons.IH [OF t(1)] show ?case unfolding t(2) by (simp add: put_raws_def r del: fun_upd_apply)
qed (simp add: put_raws_def)

lemma filter_key: "distinct (map row_key t) \<Longrightarrow> filter (at_key ns k) t = (case traw t (ns, k) of None \<Rightarrow> [] | Some v \<Rightarrow> [(ns, k, v)])"
proof (induction t)
  case (Cons r t)
  obtain ns' k' v where r: "r = (ns', k', v)" by (cases r)
  show ?case
  proof (cases "(ns', k') = (ns, k)")
    case True
    then have "traw t (ns, k) = None" using Cons.prems traw_dom [of t "(ns, k)"] by (auto simp: r)
    then show ?thesis using Cons True by (simp add: r at_key_row_key) (simp add: traw_def)
  next
    case False
    then show ?thesis using Cons by (simp add: r at_key_row_key) (auto simp: traw_def)
  qed
qed (simp add: traw_def)

lemma ref_delete_law:
  assumes "ref_pg_ok d" "ref_delete t d (\<lambda>r. row_key r \<in> S) = (n, d')"
  shows "ref_pg_ok d' \<and> n = card (S \<inter> dom (ref_tables d t)) \<and>
    ref_tables d' = (ref_tables d)(t := (\<lambda>p. if p \<in> S then None else ref_tables d t p))"
proof -
  have d: "distinct (map row_key (d t))" using assms(1) by (simp add: ref_pg_ok_def)
  have n: "n = length (filter (\<lambda>r. row_key r \<in> S) (d t))" and d': "d' = d(t := filter (\<lambda>r. row_key r \<notin> S) (d t))"
    using assms(2) by (auto simp: ref_delete_def)
  have "{p \<in> row_key ` set (d t). p \<in> S} = S \<inter> dom (ref_tables d t)"
    unfolding ref_tables_def dom_def traw_dom by blast
  then have "n = card (S \<inter> dom (ref_tables d t))" using length_filter_key [OF d, of "\<lambda>p. p \<in> S"] n by simp
  moreover have "ref_tables d' = (ref_tables d)(t := (\<lambda>p. if p \<in> S then None else ref_tables d t p))"
    using traw_filter [of "\<lambda>p. p \<notin> S" "d t"] by (auto simp: d' ref_tables_def fun_eq_iff)
  moreover have "ref_pg_ok d'" using assms(1) by (simp add: d' ref_pg_ok_def distinct_map_filter)
  ultimately show ?thesis by blast
qed

lemma ref_keys:
  assumes "distinct (map row_key t)"
  shows "distinct (map (\<lambda>(_, k, _). k) (filter (in_ns ns) t))"
    "set (map (\<lambda>(_, k, _). k) (filter (in_ns ns) t)) = {k. traw t (ns, k) \<noteq> None}"
proof -
  show "distinct (map (\<lambda>(_, k, _). k) (filter (in_ns ns) t))" using assms
    by (induction t) (force simp: in_ns_def)+
  show "set (map (\<lambda>(_, k, _). k) (filter (in_ns ns) t)) = {k. traw t (ns, k) \<noteq> None}"
  proof (rule set_eqI)
    fix k
    have "k \<in> {k. traw t (ns, k) \<noteq> None} \<longleftrightarrow> (ns, k) \<in> row_key ` set t" using traw_dom [of t "(ns, k)"] by simp
    also have "\<dots> \<longleftrightarrow> k \<in> set (map (\<lambda>(_, k, _). k) (filter (in_ns ns) t))" by (force simp: in_ns_def)
    finally show "k \<in> set (map (\<lambda>(_, k, _). k) (filter (in_ns ns) t)) \<longleftrightarrow> k \<in> {k. traw t (ns, k) \<noteq> None}" ..
  qed
qed

lemma ref_ns: "set (map (\<lambda>(ns, _, _). ns) t) = {ns. \<exists>k. traw t (ns, k) \<noteq> None}"
proof (rule set_eqI)
  fix ns
  have "ns \<in> {ns. \<exists>k. traw t (ns, k) \<noteq> None} \<longleftrightarrow> (\<exists>k. (ns, k) \<in> row_key ` set t)" by (simp only: traw_dom mem_Collect_eq)
  also have "\<dots> \<longleftrightarrow> ns \<in> set (map (\<lambda>(ns, _, _). ns) t)" by force
  finally show "ns \<in> set (map (\<lambda>(ns, _, _). ns) t) \<longleftrightarrow> ns \<in> {ns. \<exists>k. traw t (ns, k) \<noteq> None}" ..
qed

lemma ref_pg_server: "pg_server ref_pg_api ref_pg_ok ref_tables id"
proof (unfold_locales, unfold ref_pg_api_def pg_api.simps id_apply, goal_cases)
  case 1 then show ?case by simp
next
  case (2 d t ns k v)
  note u = put_row_raw [of "d t" ns k v]
  have "ref_tables (d(t := put_row (ns, k, v) (d t))) = (ref_tables d)(t := (ref_tables d t)((ns, k) \<mapsto> v))"
    using u 2(1) by (auto simp: ref_tables_def ref_pg_ok_def fun_eq_iff)
  moreover have "ref_pg_ok (d(t := put_row (ns, k, v) (d t)))" using u 2(1) by (simp add: ref_pg_ok_def)
  ultimately show ?case using 2(3,4) by (simp add: row_text_iff del: fun_upd_apply)
next
  case 3 then show ?case by (auto simp: row_text_iff)
next
  case (4 d t rows)
  then have "list_all row_text rows" by (simp add: rows_text)
  moreover have "ref_tables (d(t := fold put_row rows (d t))) = (ref_tables d)(t := put_raws rows (ref_tables d t))"
    using fold_put_row_raw [of "d t" rows] 4(1) by (auto simp: ref_tables_def ref_pg_ok_def fun_eq_iff)
  moreover have "ref_pg_ok (d(t := fold put_row rows (d t)))" using fold_put_row_raw [of "d t" rows] 4(1) by (simp add: ref_pg_ok_def)
  ultimately show ?case by simp
next
  case (5 d t rows)
  then obtain r where "r \<in> set rows" "\<not> row_text r" by (force simp: row_text_iff)
  then show ?case by (auto simp: list_all_iff)
next
  case (6 d t ns k) then show ?case using filter_key [of "d t" ns k] by (auto simp: ref_pg_ok_def ref_tables_def split: option.splits)
next
  case (7 d t nss ks)
  then show ?case using traw_in_set [of "d t"] by (auto simp: ref_pg_ok_def ref_tables_def)
next
  case (8 d t ns k) then show ?case using filter_key [of "d t" ns k] by (auto simp: ref_pg_ok_def ref_tables_def split: option.splits)
next
  case (9 d t ns k n d')
  then have "ref_delete t d (\<lambda>r. row_key r \<in> {(ns, k)}) = (n, d')" by (simp add: at_key_row_key [abs_def])
  from ref_delete_law [OF 9(1) this] show ?case by (auto simp: domIff)
next
  case (10 d t nss ks n d') then show ?case using ref_delete_law [OF 10(1), of t "set (zip nss ks)"] by simp
next
  case (11 d t ns n d')
  then have del: "ref_delete t d (\<lambda>r. row_key r \<in> {p. fst p = ns}) = (n, d')" by (simp add: in_ns_row_key [abs_def])
  have card: "card ({p. fst p = ns} \<inter> dom (ref_tables d t)) = card {k. ref_tables d t (ns, k) \<noteq> None}"
  proof -
    have "{p. fst p = ns} \<inter> dom (ref_tables d t) = Pair ns ` {k. ref_tables d t (ns, k) \<noteq> None}" by auto
    then show ?thesis by (simp add: card_image inj_on_def)
  qed
  show ?case using ref_delete_law [OF 11(1) del] unfolding card by simp
next
  case (12 d t ns) then show ?case using ref_keys [of "d t" ns] by (simp only: ref_pg_ok_def ref_tables_def)
next
  case (13 d t ns p)
  then show ?case using ref_keys [of "d t" ns] unfolding ref_pg_ok_def ref_tables_def set_filter by (simp add: distinct_filter)
next
  case (14 d t ns)
  let ?ks = "map (\<lambda>(_, k, _). k) (filter (in_ns ns) (d t))"
  have s: "set ?ks = {k. ref_tables d t (ns, k) \<noteq> None}" using 14 ref_keys(2) [of "d t" ns] by (simp only: ref_pg_ok_def ref_tables_def)
  show ?case
  proof (cases "?ks = []")
    case True
    then show ?thesis using s by auto
  next
    case False
    then have "max_str ?ks = Some (Max {k. ref_tables d t (ns, k) \<noteq> None})" using max_str_Max s by metis
    moreover have "{k. ref_tables d t (ns, k) \<noteq> None} \<noteq> {}" using False s by (metis set_empty)
    ultimately show ?thesis by auto
  qed
next
  case (15 d t) then show ?case using ref_ns [of "d t"] by (simp add: ref_tables_def)
next
  case (16 d t p) then show ?case using ref_ns [of "d t"] by (auto simp: ref_tables_def)
next
  case (17 d t) then show ?case by (auto simp: ref_pg_ok_def ref_tables_def traw_def fun_eq_iff)
next
  case (18 d t)
  have "dom (ref_tables d t) = row_key ` set (d t)" unfolding ref_tables_def dom_def traw_dom by blast
  then show ?case using 18 distinct_card [of "map row_key (d t)"] by (simp add: ref_pg_ok_def)
next
  case (19 d t ns)
  have "list_ex (in_ns ns) (d t) \<longleftrightarrow> ns \<in> set (map (\<lambda>(ns, _, _). ns) (d t))" by (force simp: list_ex_iff in_ns_def)
  then show ?case unfolding ref_ns by (simp add: ref_tables_def)
next
  case 20 then show ?case by (simp add: ref_pg_ok_def ref_tables_def)
next
  case (21 d t rows)
  have "ref_tables (d(t := rows)) = (ref_tables d)(t := traw rows)" by (simp add: ref_tables_def fun_eq_iff)
  moreover have "ref_pg_ok (d(t := rows))" using 21 by (simp add: ref_pg_ok_def)
  ultimately show ?case using 21(3,4) by (simp add: rows_text del: fun_upd_apply)
next
  case (22 d t rows) then show ?case unfolding rows_text by auto
qed

interpretation ref_pg_server: pg_backend ref_pg_api ref_pg_ok ref_tables id C
  for C
  by (intro pg_backend.intro ref_pg_server)

section \<open>Properties\<close>


text \<open>Witness of C28: an entry is stored and read; a NUL character in a key is refused.\<close>

definition ref_pg_store :: "ref_pg pg_store" where
  "ref_pg_store = \<lparr>pg_db = (\<lambda>_. []), pg_table = lit ''kv'', pg_codec = lit ''msgpack'', pg_snap_meta = snapshot_meta_init\<rparr>"

lemma ref_pg_store_init: "pg_init ref_pg_api (\<lambda>_. []) (lit ''kv'') (lit ''msgpack'') = Inr ref_pg_store"
  by (simp add: pg_init_def ref_pg_store_def is_ident_def ident_start_def ref_pg_api_def)




end
