(* ===== verification/Saver_Async.thy ===== *)
theory Saver_Async
  imports Saver_Props Redis_Props Postgres_Props
begin

text \<open>
  The native async methods of the checkpointer against the sync ones, on the backends that have
  async operations (Redis and PostgreSQL). Each awaited call runs to completion before the next
  one; \<open>asyncio.gather\<close> of reads is the reads in order.
\<close>

section \<open>Writing\<close>

lemma zip_filter_map:
  "map (\<lambda>((k, v), _). f k v) (filter (\<lambda>(_, done). \<not> done) (zip xs (map (\<lambda>(k, _). P k) xs))) =
   map (\<lambda>(k, v). f k v) (filter (\<lambda>(k, v). \<not> P k) xs)"
  by (induction xs) auto

lemma aset_many_eq: "op_set_many ops \<noteq> None \<Longrightarrow> items \<noteq> [] \<Longrightarrow> aset_many ops items = set_many ops items"
  by (auto simp: aset_many_def set_many_def)

lemma bindA_cong_result:
  "(\<And>x s1. m s = (Inr x, s1) \<Longrightarrow> f x s1 = g x s1) \<Longrightarrow> bindA m f s = bindA m g s"
  by (auto simp: bindA_def split: prod.splits sum.splits)

lemma put_rows_ne: "put_rows E config cp md nv sv = (Inr (t, c, cid, rows, blobs), sv') \<Longrightarrow> rows \<noteq> []"
  by (auto simp: put_rows_def act_simps Let_def split: prod.splits sum.splits if_splits)

lemma aput_eq_put:
  assumes "op_set_many ops \<noteq> None"
  shows "aput ops E config cp md nv sv = put ops E config cp md nv sv"
  unfolding aput_def put_def
proof (rule bindA_cong_result, clarify)
  fix t c cid rows blobs sv1
  assume "put_rows E config cp md nv sv = (Inr (t, c, cid, rows, blobs), sv1)"
  then have rows: "aset_many ops rows = set_many ops rows" using put_rows_ne aset_many_eq [OF assms] by blast
  have new: "bindA (askA (\<lambda>sv. map (\<lambda>(k, _). store_contains ops (blobs_ns t c) k sv) blobs)) (\<lambda>stored.
        let new_blobs = map (\<lambda>((k, v), _). (blobs_ns t c, k, v)) (filter (\<lambda>(_, done). \<not> done) (zip blobs stored))
        in if new_blobs \<noteq> [] then aset_many ops new_blobs else retA ()) =
      bindA (askA (\<lambda>sv. filter (\<lambda>(k, v). \<not> store_contains ops (blobs_ns t c) k sv) blobs)) (\<lambda>fresh.
        set_many ops (map (\<lambda>(k, v). (blobs_ns t c, k, v)) fresh))"
  proof
    fix sv2
    let ?new = "map (\<lambda>(k, v). (blobs_ns t c, k, v)) (filter (\<lambda>(k, v). \<not> store_contains ops (blobs_ns t c) k sv2) blobs)"
    have "(if ?new \<noteq> [] then aset_many ops ?new else retA ()) sv2 = set_many ops ?new sv2"
      by (cases "?new = []") (simp_all add: set_many_def aset_many_eq [OF assms])
    then show "bindA (askA (\<lambda>sv. map (\<lambda>(k, _). store_contains ops (blobs_ns t c) k sv) blobs)) (\<lambda>stored.
        let new_blobs = map (\<lambda>((k, v), _). (blobs_ns t c, k, v)) (filter (\<lambda>(_, done). \<not> done) (zip blobs stored))
        in if new_blobs \<noteq> [] then aset_many ops new_blobs else retA ()) sv2 =
      bindA (askA (\<lambda>sv. filter (\<lambda>(k, v). \<not> store_contains ops (blobs_ns t c) k sv) blobs)) (\<lambda>fresh.
        set_many ops (map (\<lambda>(k, v). (blobs_ns t c, k, v)) fresh)) sv2"
      by (simp only: act_eval prod.case sum.case zip_filter_map Let_def)
  qed
  show "(thenA (if blobs \<noteq> [] then
                bindA (askA (\<lambda>sv. map (\<lambda>(k, _). store_contains ops (blobs_ns t c) k sv) blobs)) (\<lambda>stored.
                  let new_blobs = map (\<lambda>((k, v), _). (blobs_ns t c, k, v))
                                    (filter (\<lambda>(_, done). \<not> done) (zip blobs stored))
                  in if new_blobs \<noteq> [] then aset_many ops new_blobs else retA ())
              else retA ())
      (thenA (aset_many ops rows)
      (bindA (askA max_checkpoints_per_thread) (\<lambda>mx.
        thenA (if mx \<noteq> None then prune_thread ops E t c else retA ())
          (retA (mk_config t c (PStr cid))))))) sv1 =
    (thenA (if blobs \<noteq> [] then
                bindA (askA (\<lambda>sv. filter (\<lambda>(k, v). \<not> store_contains ops (blobs_ns t c) k sv) blobs)) (\<lambda>fresh.
                  set_many ops (map (\<lambda>(k, v). (blobs_ns t c, k, v)) fresh))
              else retA ())
      (thenA (set_many ops rows)
      (bindA (askA max_checkpoints_per_thread) (\<lambda>mx.
        thenA (if mx \<noteq> None then prune_thread ops E t c else retA ())
          (retA (mk_config t c (PStr cid))))))) sv1"
    unfolding rows new ..
qed

lemma aresolve_eq: "aresolve ops E config = resolve ops E config"
proof
  fix sv
  show "aresolve ops E config sv = resolve ops E config sv"
    unfolding aresolve_def resolve_def resolve_latest_def Let_def
    by (auto simp: act_simps split: prod.splits sum.splits option.splits if_splits)
qed

section \<open>Reading\<close>

text \<open>An incrementally stored checkpoint without channel versions.\<close>

definition bare :: "lg_env \<Rightarrow> pyval \<Rightarrow> bool" where
  "bare E saved \<longleftrightarrow> (\<exists>cp. loads_item E saved (lit ''cp'') = Inr cp \<and>
     py_in (PStr (lit ''channel_values'')) cp = Inr False \<and> channel_versions cp = Inr [])"

text \<open>The stores with native async operations: batches, and \<open>keys(prefix=...)\<close>.\<close>

locale async_lib = saver_lib ops inv content okt okv E
  for ops :: "'s store_ops" and inv content okt okv E +
  assumes sets_many: "op_set_many ops \<noteq> None"
    and gets_many: "op_get_many ops \<noteq> None"
    and prefix_keys: "\<exists>ks. op_keys_prefix ops s ns p = Inr ks"
begin

lemma aread_many:
  assumes "inv (sv_store sv)"
  shows "aget_many ops (map (\<lambda>k. (ns, k)) ks) sv = get_many ops ns ks sv"
  using gets_many by (auto simp: aget_many_def get_many_def)

lemma aread_blobs:
  assumes "inv (sv_store sv)"
  shows "aget_many ops (map (\<lambda>(ch, ver). (blobs_ns t c, blob_key E ch ver)) versions) sv = read_blobs ops E t c versions sv"
proof -
  have "map (\<lambda>(ch, ver). (blobs_ns t c, blob_key E ch ver)) versions =
      map (\<lambda>k. (blobs_ns t c, k)) (map (\<lambda>(ch, ver). blob_key E ch ver) versions)" by (induction versions) auto
  then show ?thesis using aread_many [OF assms] by (simp only: read_blobs_def)
qed

lemma aread_checkpoint:
  assumes "inv (sv_store sv)" "incremental sv \<longrightarrow> \<not> bare E saved"
  shows "bindE (decode_checkpoint E saved sv) (\<lambda>(cp0, versions).
      bindE (if versions \<noteq> [] then bindE (aget_many ops (map (\<lambda>(ch, ver). (blobs_ns t c, blob_key E ch ver)) versions) sv)
                (\<lambda>blobs. attach_values E cp0 versions blobs) else Inr cp0) f) =
    bindE (loads_item E saved (lit ''cp'')) (\<lambda>cp0.
      bindE (if incremental sv then bindE (py_in (PStr (lit ''channel_values'')) cp0) (\<lambda>has.
                   if has then Inr cp0
                   else bindE (channel_versions cp0) (\<lambda>versions.
                        bindE (read_blobs ops E t c versions sv) (\<lambda>blobs. attach_values E cp0 versions blobs)))
            else Inr cp0) f)"
proof (cases "loads_item E saved (lit ''cp'')")
  case (Inr cp)
  show ?thesis
  proof (cases "incremental sv")
    case True
    show ?thesis
    proof (cases "py_in (PStr (lit ''channel_values'')) cp")
      case has: (Inr b)
      show ?thesis
      proof (cases "channel_versions cp")
        case vs: (Inr versions)
        have "b \<or> versions \<noteq> []" using assms(2) True Inr has vs by (auto simp: bare_def)
        then show ?thesis
          by (auto simp: decode_checkpoint_def Inr True has vs aread_blobs [OF assms(1)] simp del: lit_simps)
      qed (simp add: decode_checkpoint_def Inr True has del: lit_simps)
    qed (simp add: decode_checkpoint_def Inr True del: lit_simps)
  qed (simp add: decode_checkpoint_def Inr del: lit_simps)
qed (simp add: decode_checkpoint_def del: lit_simps)

lemma asort_writes:
  assumes "\<forall>k \<in> set ks. \<exists>x. write_order k = Inr x"
  shows "(if length ks > 1 then sort_writes ks else Inr ks) = sort_writes ks"
proof -
  consider "ks = []" | k where "ks = [k]" | "length ks > 1" by (cases ks; cases "tl ks") auto
  then show ?thesis using assms by cases (auto simp: sort_writes_def)
qed

lemma aread_writes:
  assumes "inv (sv_store sv)" "\<forall>k \<in> set (store_keys ops wns sv). \<exists>x. write_order k = Inr x"
  shows "bindE (sort_writes (store_keys ops wns sv)) (\<lambda>ks.
      bindE (if ks \<noteq> [] then aget_many ops (map (\<lambda>k. (wns, k)) ks) sv else Inr []) f) =
    bindE (if length (store_keys ops wns sv) > 1 then sort_writes (store_keys ops wns sv) else Inr (store_keys ops wns sv)) (\<lambda>ks.
      bindE (get_many ops wns ks sv) f)"
proof -
  have "(if ks \<noteq> [] then aget_many ops (map (\<lambda>k. (wns, k)) ks) sv else Inr []) = get_many ops wns ks sv" for ks
    using read_many [OF assms(1), of wns "[]"] by (simp add: aread_many [OF assms(1)])
  then show ?thesis unfolding asort_writes [OF assms(2)] by simp
qed

text \<open>Every key of a writes namespace is one that \<open>put_writes\<close> makes.\<close>

definition write_keys_ok :: "'s saver \<Rightarrow> bool" where
  "write_keys_ok sv \<longleftrightarrow> (\<forall>t c cid. \<forall>k \<in> set (store_keys ops (writes_ns t c cid) sv). \<exists>x. write_order k = Inr x)"

lemma abuild_eq:
  assumes "inv (sv_store sv)" "incremental sv \<longrightarrow> \<not> bare E saved" "write_keys_ok sv"
  shows "abuild_tuple ops E t c cid saved md sv = build_tuple ops E t c cid saved md sv"
proof -
  have "\<forall>k \<in> set (store_keys ops (writes_ns t c cid) sv). \<exists>x. write_order k = Inr x"
    using assms(3) by (simp add: write_keys_ok_def)
  note w = aread_writes [OF assms(1) this]
  show ?thesis unfolding abuild_tuple_def build_tuple_def Let_def tuple_of_parts_def w
    by (rule aread_checkpoint [OF assms(1,2)])
qed

text \<open>What finding the checkpoint may change: the thread's pointer, when it is missing or dangling.\<close>

lemma resolve_latest_step:
  assumes "inv (sv_store sv)" "resolve_latest ops t c sv = (r, sv')"
  shows "sv' = sv \<or> (\<exists>newest s. newest \<in> ns_keys (content (sv_store sv)) (ckpt_ns t c) \<and>
    op_set ops (sv_store sv) LATEST_NS (latest_key t c) (PStr newest) = Inr s \<and> sv' = sv\<lparr>sv_store := s\<rparr>)"
proof -
  let ?ks = "store_keys ops (ckpt_ns t c) sv"
  have newest: "k \<in> ns_keys (content (sv_store sv)) (ckpt_ns t c)" if "max_str ?ks = Some k" for k
  proof -
    have "?ks \<noteq> []" using that by auto
    then have "k = Max (set ?ks)" "Max (set ?ks) \<in> set ?ks" using max_str_Max that by auto
    then show ?thesis using read_keys [OF assms(1), of "ckpt_ns t c"] by simp
  qed
  have "sv' = sv \<or> (\<exists>k s. max_str ?ks = Some k \<and>
      op_set ops (sv_store sv) LATEST_NS (latest_key t c) (PStr k) = Inr s \<and> sv' = sv\<lparr>sv_store := s\<rparr>)"
    using assms(2) by (auto simp: resolve_latest_def Let_def act_simps store_set_def
        split: if_splits prod.splits sum.splits option.splits)
  then show ?thesis using newest by blast
qed

lemma resolve_step:
  assumes "inv (sv_store sv)" "resolve ops E config sv = (r, sv')"
  shows "sv' = sv \<or> (\<exists>t c r'. resolve_latest ops t c sv = (r', sv'))"
  using assms by (auto simp: resolve_def Let_def act_simps split: if_splits prod.splits sum.splits option.splits)

lemma resolve_keeps:
  assumes "inv (sv_store sv)" "resolve ops E config sv = (r, sv')" "\<forall>ns k. (ns, k) \<in> dom (content (sv_store sv)) \<longrightarrow> okv (PStr k)"
  shows "inv (sv_store sv')" "incremental sv' = incremental sv"
    "ns \<noteq> LATEST_NS \<Longrightarrow> content (sv_store sv') (ns, k) = content (sv_store sv) (ns, k)"
proof -
  consider "sv' = sv" | t c n s where "n \<in> ns_keys (content (sv_store sv)) (ckpt_ns t c)"
      "op_set ops (sv_store sv) LATEST_NS (latest_key t c) (PStr n) = Inr s" "sv' = sv\<lparr>sv_store := s\<rparr>"
    using resolve_step [OF assms(1,2)] resolve_latest_step [OF assms(1)] by blast
  then have "inv (sv_store sv') \<and> incremental sv' = incremental sv \<and>
      (ns \<noteq> LATEST_NS \<longrightarrow> content (sv_store sv') (ns, k) = content (sv_store sv) (ns, k))"
  proof cases
    case 2
    have "okt (ckpt_ns t c) \<and> okt n" "okv (PStr n)"
      using 2(1) text_law [OF assms(1), of "ckpt_ns t c" n] assms(3) by (simp_all add: ns_keys_iff)
    then obtain s' where "op_set ops (sv_store sv) LATEST_NS (latest_key t c) (PStr n) = Inr s'" "inv s'"
        "content s' = (content (sv_store sv))((LATEST_NS, latest_key t c) \<mapsto> PStr n)"
      using set_law [OF assms(1), of LATEST_NS "latest_key t c" "PStr n"] by auto
    then show ?thesis using 2 by simp
  qed (use assms(1) in simp)
  then show "inv (sv_store sv')" "incremental sv' = incremental sv"
    "ns \<noteq> LATEST_NS \<Longrightarrow> content (sv_store sv') (ns, k) = content (sv_store sv) (ns, k)" by blast+
qed

lemma resolve_found:
  assumes "inv (sv_store sv)" "resolve ops E config sv = (Inr (Some (t, c, cid, saved)), sv')"
    "\<forall>ns k. (ns, k) \<in> dom (content (sv_store sv)) \<longrightarrow> okv (PStr k)"
  shows "content (sv_store sv) (ckpt_ns t c, cid) = Some saved"
proof -
  have get: "content (sv_store s) p = Some x" if "the_default PNone (content (sv_store s) p) = x" "x \<noteq> PNone" for s :: "'s saver" and p x
    using that by (cases "content (sv_store s) p") auto
  have latest: "content (sv_store s1) (ckpt_ns t c, cid) = Some x" if "resolve_latest ops t c sv = (Inr (Some (cid, x)), s1)" "x \<noteq> PNone" for s1 x
    using that assms(1) get by (auto simp: resolve_latest_def Let_def act_simps store_set_def
        split: if_splits prod.splits sum.splits option.splits)
  have "saved \<noteq> PNone \<and> (content (sv_store sv') (ckpt_ns t c, cid) = Some saved)"
    using assms(2) resolve_keeps(1) [OF assms] latest get assms(1)
    by (auto simp: resolve_def Let_def act_simps split: if_splits prod.splits sum.splits option.splits)
  then show ?thesis using resolve_keeps(3) [OF assms, of "ckpt_ns t c" cid] by simp
qed

lemma aget_tuple_eq:
  assumes "inv (sv_store sv)" "\<forall>ns k. (ns, k) \<in> dom (content (sv_store sv)) \<longrightarrow> okv (PStr k)" "write_keys_ok sv"
    "incremental sv \<longrightarrow> (\<forall>p saved. content (sv_store sv) p = Some saved \<longrightarrow> \<not> bare E saved)"
  shows "aget_tuple ops E config sv = get_tuple ops E config sv"
  unfolding aget_tuple_def get_tuple_def aresolve_eq
proof (rule bindA_cong_result)
  fix x sv1 assume x: "resolve ops E config sv = (Inr x, sv1)"
  note k = resolve_keeps [OF assms(1) x assms(2)]
  have w: "write_keys_ok sv1"
  proof -
    have "set (store_keys ops (writes_ns t c cid) sv1) = set (store_keys ops (writes_ns t c cid) sv)" for t c cid
      using read_keys [OF assms(1), of "writes_ns t c cid"] read_keys [OF k(1), of "writes_ns t c cid"] k(3) by (simp add: ns_keys_def)
    then show ?thesis using assms(3) by (simp add: write_keys_ok_def)
  qed
  have "incremental sv1 \<longrightarrow> \<not> bare E saved" if "x = Some (t, c, cid, saved)" for t c cid saved
    using resolve_found [OF assms(1) _ assms(2), of config t c cid saved sv1] x that k(2) assms(4) by auto
  then show "(case x of None \<Rightarrow> retA None
      | Some (t, c, cid, saved) \<Rightarrow> bindA (readA (abuild_tuple ops E t c cid saved PNone)) (\<lambda>tup. retA (Some tup))) sv1 =
    (case x of None \<Rightarrow> retA None
      | Some (t, c, cid, saved) \<Rightarrow> bindA (readA (build_tuple ops E t c cid saved PNone)) (\<lambda>tup. retA (Some tup))) sv1"
    using abuild_eq [OF k(1) _ w] by (auto simp: act_simps split: option.splits)
qed

section \<open>Listing and pending writes\<close>

lemma alist_ids_eq:
  assumes "inv (sv_store sv)" "write_keys_ok sv"
    "incremental sv \<longrightarrow> (\<forall>p saved. content (sv_store sv) p = Some saved \<longrightarrow> \<not> bare E saved)"
  shows "alist_ids ops E flt before lim t c ns ids n sv = list_ids ops E flt before lim t c ns ids n sv"
proof (induction ids arbitrary: n)
  case (Cons cid ids)
  let ?saved = "the_default PNone (content (sv_store sv) (ns, cid))"
  have eq: "abuild_tuple ops E t c cid ?saved md sv = build_tuple ops E t c cid ?saved md sv" if "?saved \<noteq> PNone" for md
  proof (rule abuild_eq [OF assms(1) _ assms(2)])
    show "incremental sv \<longrightarrow> \<not> bare E ?saved"
      using assms(3) that by (cases "content (sv_store sv) (ns, cid)") auto
  qed
  have none: "metadata_if_matching E PNone flt = Inr PNone" by (simp add: metadata_if_matching_def)
  show ?case
  proof (cases "?saved = PNone")
    case True
    then show ?thesis unfolding alist_ids.simps list_ids.simps Cons.IH read_get [OF assms(1)] bindE_simps True none
      by simp
  next
    case False
    show ?thesis unfolding alist_ids.simps list_ids.simps Cons.IH read_get [OF assms(1)] bindE_simps eq [OF False] ..
  qed
qed simp

lemma alist_loop_eq:
  assumes "inv (sv_store sv)" "write_keys_ok sv"
    "incremental sv \<longrightarrow> (\<forall>p saved. content (sv_store sv) p = Some saved \<longrightarrow> \<not> bare E saved)"
  shows "alist_loop ops E flt want before lim targets n sv = list_loop ops E flt want before lim targets n sv"
proof (induction targets arbitrary: n)
  case (Cons target targets)
  obtain t c ns where target: "target = (t, c, ns)" by (cases target)
  show ?case unfolding target alist_loop.simps list_loop.simps alist_ids_eq [OF assms] Cons.IH ..
qed simp

lemma list_targets_keeps: "list_targets ops config sv = (r, sv') \<Longrightarrow> sv_store sv' = sv_store sv \<and> incremental sv' = incremental sv"
  by (auto simp: list_targets_def namespaces_def act_simps Let_def split: option.splits if_splits sum.splits prod.splits)

lemma alist_eq:
  assumes "inv (sv_store sv)" "write_keys_ok sv"
    "incremental sv \<longrightarrow> (\<forall>p saved. content (sv_store sv) p = Some saved \<longrightarrow> \<not> bare E saved)"
  shows "alist_checkpoints ops E config flt before lim sv = list_checkpoints ops E config flt before lim sv"
  unfolding alist_checkpoints_def list_checkpoints_def Let_def
proof (rule bindA_cong_result)
  fix targets sv1 assume "list_targets ops config sv = (Inr targets, sv1)"
  from list_targets_keeps [OF this] assms
  have "inv (sv_store sv1)" "write_keys_ok sv1"
      "incremental sv1 \<longrightarrow> (\<forall>p saved. content (sv_store sv1) p = Some saved \<longrightarrow> \<not> bare E saved)"
    by (simp_all add: write_keys_ok_def store_keys_def)
  from alist_loop_eq [OF this]
  show "readA (alist_loop ops E flt (case config of None \<Rightarrow> PNone | Some c \<Rightarrow> get_checkpoint_id E c)
      (case before of None \<Rightarrow> PNone | Some c \<Rightarrow> get_checkpoint_id E c) lim targets 0) sv1 =
    readA (list_loop ops E flt (case config of None \<Rightarrow> PNone | Some c \<Rightarrow> get_checkpoint_id E c)
      (case before of None \<Rightarrow> PNone | Some c \<Rightarrow> get_checkpoint_id E c) lim targets 0) sv1"
    by (simp add: readA_def)
qed

lemma write_rows_keys:
  "write_rows E task path idx ws = Inr rows \<Longrightarrow> (k, v, pos) \<in> set rows \<Longrightarrow> startswith k (task @ [SEP])"
proof (induction ws arbitrary: idx rows)
  case (Cons w ws)
  then show ?case by (cases w) (auto simp: Let_def bindE_eq_Inr write_key_def startswith_iff)
qed simp

lemma write_batch_rows:
  "write_rows E task path idx ws = Inr rows \<Longrightarrow>
   write_batch ops E ns task path idx ws sv =
     Inr (map (\<lambda>(k, v, _). (ns, k, v)) (filter (\<lambda>(k, _, pos). \<not> (pos \<and> store_contains ops ns k sv)) rows))"
proof (induction ws arbitrary: idx rows)
  case (Cons w ws)
  obtain ch v where w: "w = (ch, v)" by (cases w)
  from Cons.prems obtain e rs where e: "write_entry E task path ch v = Inr e"
      "write_rows E task path (Suc idx) ws = Inr rs"
      "rows = (write_key task (write_index E idx ch), e, write_index E idx ch \<ge> 0) # rs"
    by (auto simp: w Let_def bindE_eq_Inr)
  then show ?case using Cons.IH [OF e(2)] by (simp add: w Let_def)
qed simp

lemma aput_writes_eq:
  assumes "inv (sv_store sv)" "okt task" "write_rows E task path 0 ws = Inr rows"
  shows "aput_writes ops E config ws task path sv = put_writes ops E config ws task path sv"
proof -
  have "bindA (if list_ex (\<lambda>(_, _, pos). pos) rows
         then readA (\<lambda>sv. op_keys_prefix ops (sv_store sv) ns (task @ [SEP])) else retA []) (\<lambda>existing.
           let batch = map (\<lambda>(k, v, _). (ns, k, v)) (filter (\<lambda>(k, _, pos). \<not> (pos \<and> k \<in> set existing)) rows)
           in if batch \<noteq> [] then aset_many ops batch else retA ()) sv =
      set_many ops (map (\<lambda>(k, v, _). (ns, k, v)) (filter (\<lambda>(k, _, pos). \<not> (pos \<and> store_contains ops ns k sv)) rows)) sv" for ns
  proof -
    obtain ks where ks: "op_keys_prefix ops (sv_store sv) ns (task @ [SEP]) = Inr ks" using prefix_keys by blast
    have "okt (task @ [SEP])" using assms(2) SEP_okt [of "[]"] by simp
    from keys_prefix_law [OF assms(1) this ks]
    have mem: "k \<in> set ks \<longleftrightarrow> store_contains ops ns k sv" if "(k, v, pos) \<in> set rows" for k v pos
      using write_rows_keys [OF assms(3) that] by (simp add: read_contains [OF assms(1)] ns_keys_def)
    define existing where "existing = (if list_ex (\<lambda>(_, _, pos). pos) rows then ks else [])"
    have batch: "filter (\<lambda>(k, _, pos). \<not> (pos \<and> k \<in> set existing)) rows =
        filter (\<lambda>(k, _, pos). \<not> (pos \<and> store_contains ops ns k sv)) rows"
      by (rule filter_cong [OF refl]) (use mem in \<open>auto simp: existing_def list_ex_iff\<close>)
    let ?b = "map (\<lambda>(k, v, _). (ns, k, v)) (filter (\<lambda>(k, _, pos). \<not> (pos \<and> store_contains ops ns k sv)) rows)"
    have "(if list_ex (\<lambda>(_, _, pos). pos) rows
         then readA (\<lambda>sv. op_keys_prefix ops (sv_store sv) ns (task @ [SEP])) else retA []) sv = (Inr existing, sv)"
      by (simp add: existing_def ks act_simps)
    then have "bindA (if list_ex (\<lambda>(_, _, pos). pos) rows
         then readA (\<lambda>sv. op_keys_prefix ops (sv_store sv) ns (task @ [SEP])) else retA []) (\<lambda>existing.
           let batch = map (\<lambda>(k, v, _). (ns, k, v)) (filter (\<lambda>(k, _, pos). \<not> (pos \<and> k \<in> set existing)) rows)
           in if batch \<noteq> [] then aset_many ops batch else retA ()) sv =
        (if ?b \<noteq> [] then aset_many ops ?b else retA ()) sv"
      by (simp only: act_eval prod.case sum.case batch Let_def)
    also have "\<dots> = set_many ops ?b sv"
      by (cases "?b = []") (simp_all add: set_many_def aset_many_eq [OF sets_many])
    finally show ?thesis .
  qed
  then show ?thesis unfolding aput_writes_def put_writes_def Let_def
    by (auto simp: act_eval assms(3) readA_def write_batch_rows [OF assms(3)] split: sum.splits)
qed

end

section \<open>Redis and PostgreSQL\<close>

lemma redis_aops_eq: "redis_aops C R = redis_ops C R"
  by (simp add: redis_aops_def redis_ops_def redis_aset_def redis_set_def redis_aget_def redis_get_def
      redis_aset_many_def redis_set_many_def redis_aget_many_def redis_get_many_def redis_acontains_def
      redis_contains_def redis_adelete_def redis_delete_def redis_akeys_def redis_keys_def redis_amax_key_def
      redis_max_key_def redis_anamespaces_def redis_namespaces_def redis_adelete_many_def redis_delete_many_def
      redis_adelete_namespace_def redis_delete_namespace_def iter_hkeys_def hkey_pattern_def fun_eq_iff
      split: option.splits)

lemma pg_aops_eq: "pg_aops C P = pg_ops C P"
  by (simp add: pg_aops_def pg_ops_def pg_aset_def pg_set_def pg_aget_def pg_get_def pg_aset_many_def pg_set_many_def
      pg_aget_many_def pg_get_many_def pg_acontains_def pg_contains_def pg_adelete_def pg_delete_def pg_akeys_def
      pg_keys_def pg_amax_key_def pg_max_key_def pg_anamespaces_def pg_namespaces_def pg_adelete_many_def
      pg_delete_many_def pg_adelete_namespace_def pg_delete_namespace_def fun_eq_iff)

context redis_backend
begin

lemma redis_async_lib: "async_lib (redis_ops C R) (redis_inv C rinv view) (redis_content C view) is_text (storable C)"
  by unfold_locales (simp_all add: redis_ops_def)

end

context pg_backend
begin

lemma pg_async_lib: "async_lib (pg_ops C P) (pg_inv C pinv tables tab) (pg_content C tables tab) pg_text (storable C)"
  by unfold_locales (simp_all add: pg_ops_def)

end

interpretation redis_async: async_lib "redis_ops C ref_redis" "redis_inv C dict_ok ref_view" "redis_content C ref_view"
  is_text "storable C" E
  for C E
  by (rule ref_server.redis_async_lib)

interpretation pg_async: async_lib "pg_ops C ref_pg_api" "pg_inv C ref_pg_ok ref_tables id" "pg_content C ref_tables id"
  pg_text "storable C" E
  for C E
  by (rule ref_pg_server.pg_async_lib)



text \<open>
  Where the async twin differs: of an incrementally stored checkpoint without channel versions
  the sync read attaches an empty dictionary of channel values, the async read attaches none, so
  that \<open>channel_values\<close> is missing from what it returns; everything else in the two tuples agrees.
\<close>

theorem async_bare_differs:
  assumes server: "redis_server R rinv view glob" and "redis_inv C rinv view (sv_store sv)" "incremental sv"
    and "\<forall>k \<in> ns_keys (redis_content C view (sv_store sv)) (writes_ns t c cid). \<exists>x. write_order k = Inr x"
    and "loads_item E saved (lit ''cp'') = Inr (PDict cp)" "dget cp (PStr (lit ''channel_values'')) = None"
    and "channel_versions (PDict cp) = Inr []"
    and "build_tuple (redis_ops C R) E t c cid saved md sv = Inr tup"
  shows "t_checkpoint tup = PDict (dset (PStr (lit ''channel_values'')) (PDict []) cp) \<and>
    abuild_tuple (redis_aops C R) E t c cid saved md sv = Inr (tup\<lparr>t_checkpoint := PDict cp\<rparr>) \<and>
    has_key (t_checkpoint tup) (lit ''channel_values'') \<and> \<not> has_key (PDict cp) (lit ''channel_values'')"
proof -
  note b = redis_backend.intro [OF server]
  note a = redis_backend.redis_async_lib [OF b, where C = C]
  let ?ops = "redis_ops C R" and ?wns = "writes_ns t c cid" and ?cv = "PStr (lit ''channel_values'')"
  have keys: "\<forall>k \<in> set (store_keys ?ops ?wns sv). \<exists>x. write_order k = Inr x"
    using assms(4) redis_backend.keys_redis [OF b assms(2), of ?wns None] by (simp add: store_keys_def redis_ops_def)
  have none: "read_blobs ?ops E t c [] sv = Inr []"
    using redis_backend.get_many_redis [OF b assms(2), of "[]"] by (simp add: read_blobs_def get_many_def redis_ops_def)
  have attach: "attach_values E (PDict cp) [] [] = Inr (PDict (dset ?cv (PDict []) cp))"
    by (simp add: attach_values_def blob_values_def dict_of_def del: lit_simps)
  let ?rest = "\<lambda>checkpoint. bindE (if md = PNone then loads_item E saved (lit ''md'') else Inr md) (\<lambda>md.
    bindE (if length (store_keys ?ops ?wns sv) > 1 then sort_writes (store_keys ?ops ?wns sv) else Inr (store_keys ?ops ?wns sv)) (\<lambda>ks.
    bindE (get_many ?ops ?wns ks sv) (\<lambda>raw. bindE (decode_writes E None raw) (\<lambda>pending.
    bindE (get_key saved (lit ''parent'')) (\<lambda>parent_id.
      Inr \<lparr>t_config = mk_config t c (PStr cid), t_checkpoint = checkpoint, t_metadata = md,
           t_parent_config = parent_config t c parent_id, t_pending_writes = pending\<rparr>)))))"
  have sync: "build_tuple ?ops E t c cid saved md sv = ?rest (PDict (dset ?cv (PDict []) cp))"
    unfolding build_tuple_def Let_def using assms(3,5-7) none attach by (simp del: lit_simps)
  have async: "abuild_tuple ?ops E t c cid saved md sv = ?rest (PDict cp)"
    unfolding abuild_tuple_def Let_def tuple_of_parts_def async_lib.aread_writes [OF a assms(2) keys] decode_checkpoint_def
    using assms(3,5-7) by (simp del: lit_simps)
  have "t_checkpoint tup = PDict (dset ?cv (PDict []) cp) \<and> ?rest (PDict cp) = Inr (tup\<lparr>t_checkpoint := PDict cp\<rparr>)"
    using assms(8) unfolding sync by (auto simp: bindE_eq_Inr simp del: lit_simps)
  then show ?thesis using async assms(6) by (simp add: redis_aops_eq dget_dset del: lit_simps)
qed

text \<open>For example, a checkpoint with an id only, read by an incremental saver.\<close>

theorem async_bare_differs_witness:
  "let sv = (ex_saver (ref_store [115]) False)\<lparr>incremental := True\<rparr>;
       tup = \<lparr>t_config = mk_config [97] [] (PStr [49]), t_checkpoint = PDict [(PStr (lit ''id''), PStr [49]),
                (PStr (lit ''channel_values''), PDict [])], t_metadata = ex_md, t_parent_config = None, t_pending_writes = []\<rparr>
   in build_tuple (redis_ops flag_codec ref_redis) ex_env [97] [] [49] (ex_rec 1 PNone) PNone sv = Inr tup \<and>
      abuild_tuple (redis_aops flag_codec ref_redis) ex_env [97] [] [49] (ex_rec 1 PNone) PNone sv = Inr (tup\<lparr>t_checkpoint := ex_cp [49]\<rparr>)"
proof -
  define sv where "sv = (ex_saver (ref_store [115]) False)\<lparr>incremental := True\<rparr>"
  define tup where "tup = \<lparr>t_config = mk_config [97] [] (PStr [49]), t_checkpoint = PDict [(PStr (lit ''id''), PStr [49]),
     (PStr (lit ''channel_values''), PDict [])], t_metadata = ex_md, t_parent_config = None, t_pending_writes = []\<rparr>"
  have s: "sv_store sv = ref_store [115]" "incremental sv" by (simp_all add: sv_def)
  have free: "\<forall>ns k. ref_view [] ([115] @ 58 # ns) k = None" by (simp add: ref_view_def)
  have i: "redis_inv flag_codec dict_ok ref_view (sv_store sv)" "redis_content flag_codec ref_view (sv_store sv) = Map.empty"
    using ref_server.redis_open [OF ref_store_init dict_ok_Nil _ free] by (simp_all add: s)
  have w: "\<forall>k \<in> ns_keys (redis_content flag_codec ref_view (sv_store sv)) (writes_ns [97] [] [49]). \<exists>x. write_order k = Inr x"
    by (simp add: i(2) ns_keys_def)
  have r: "record_of ex_env (ex_rec 1 PNone) (ex_cp [49]) ex_md PNone"
    by (simp add: record_of_def dumps_list_def ex_env_def table_env_def ex_serde_def ex_rec_def ex_md_def ex_cp_def)
  note l = record_of_loads [OF r ex_serde_law(2,1)]
  have cp: "loads_item ex_env (ex_rec 1 PNone) (lit ''cp'') = Inr (PDict [(PStr (lit ''id''), PStr [49])])"
    using l(1) by (simp add: ex_cp_def del: lit_simps)
  have ks: "store_keys (redis_ops flag_codec ref_redis) ns sv = []" for ns
    using ref_server.keys_redis [OF i(1), of ns None] by (simp add: store_keys_def redis_ops_def i(2) ns_keys_def)
  have gm: "get_many (redis_ops flag_codec ref_redis) ns [] sv = Inr []" for ns
    by (simp add: get_many_def redis_ops_def redis_get_many_def)
  have b: "build_tuple (redis_ops flag_codec ref_redis) ex_env [97] [] [49] (ex_rec 1 PNone) PNone sv = Inr tup"
    using l(2,3) cp unfolding build_tuple_def tup_def Let_def
    by (simp add: s(2) ks gm channel_versions_def read_blobs_def attach_values_def blob_values_def dict_of_def parent_config_def)
  have "abuild_tuple (redis_aops flag_codec ref_redis) ex_env [97] [] [49] (ex_rec 1 PNone) PNone sv =
      Inr (tup\<lparr>t_checkpoint := PDict [(PStr (lit ''id''), PStr [49])]\<rparr>)"
    using async_bare_differs [OF ref_redis_server i(1) s(2) w cp _ _ b] by (simp add: channel_versions_def)
  then show ?thesis using b by (simp add: Let_def sv_def tup_def ex_cp_def)
qed

end
