(* ===== verification/Float64.thy ===== *)
theory Float64
  imports Prelude
begin

text \<open>
  IEEE 754 binary64 as Rust's \<open>f64\<close> uses it: a number is its 64 bits, the comparisons are those
  of the language (no order for NaN, equal zeros), conversions round to the nearest number and
  ties to even. The operations here are those the condition evaluator calls: comparison,
  \<open>i64/u64 as f64\<close>, \<open>f64::from(f32)\<close> and \<open>str::parse\<close> on digits with one point. The lemmas at the
  end say up to which bound integers convert exactly.
\<close>

section \<open>Comparison\<close>

definition f64_mag :: "64 word \<Rightarrow> nat" where
  "f64_mag w = unat w mod 2 ^ 63"

definition f64_neg :: "64 word \<Rightarrow> bool" where
  "f64_neg w \<longleftrightarrow> 2 ^ 63 \<le> unat w"

text \<open>The bits of infinity, \<open>2047 * 2 ^ 52\<close>; greater magnitudes are NaN.\<close>

definition f64_inf :: nat where
  "f64_inf = 9218868437227405312"

definition f64_nan :: "64 word \<Rightarrow> bool" where
  "f64_nan w \<longleftrightarrow> f64_inf < f64_mag w"

definition f64_ord :: "64 word \<Rightarrow> int" where
  "f64_ord w = (if f64_neg w then - int (f64_mag w) else int (f64_mag w))"

definition f64_eq :: "64 word \<Rightarrow> 64 word \<Rightarrow> bool" where
  "f64_eq x y \<longleftrightarrow> \<not> f64_nan x \<and> \<not> f64_nan y \<and> f64_ord x = f64_ord y"

definition f64_lt :: "64 word \<Rightarrow> 64 word \<Rightarrow> bool" where
  "f64_lt x y \<longleftrightarrow> \<not> f64_nan x \<and> \<not> f64_nan y \<and> f64_ord x < f64_ord y"

definition f64_le :: "64 word \<Rightarrow> 64 word \<Rightarrow> bool" where
  "f64_le x y \<longleftrightarrow> \<not> f64_nan x \<and> \<not> f64_nan y \<and> f64_ord x \<le> f64_ord y"

section \<open>Rounding\<close>

fun log2 :: "nat \<Rightarrow> nat" where
  "log2 n = (if n < 2 then 0 else Suc (log2 (n div 2)))"

declare log2.simps [simp del] One_nat_def [simp del]

definition round_even :: "nat \<Rightarrow> nat \<Rightarrow> nat" where
  "round_even num den =
     (let q = num div den; r = num mod den
      in if 2 * r < den \<or> (2 * r = den \<and> even q) then q else q + 1)"

text \<open>The exponent of \<open>n / d\<close>: the greatest \<open>e\<close> with \<open>2 ^ e \<le> n / d\<close>.\<close>

definition ratio_exp :: "nat \<Rightarrow> nat \<Rightarrow> int" where
  "ratio_exp n d =
     (let k = int (log2 n) - int (log2 d)
      in if (if 0 \<le> k then d * 2 ^ nat k \<le> n else d \<le> n * 2 ^ nat (- k)) then k else k - 1)"

text \<open>The magnitude bits of the number nearest to \<open>n / d\<close>, with subnormals and overflow.\<close>

definition f64_of_ratio :: "nat \<Rightarrow> nat \<Rightarrow> nat" where
  "f64_of_ratio n d =
     (if n = 0 then 0
      else let e = max (ratio_exp n d) (- 1022);
               q = (if 52 \<le> e then round_even n (d * 2 ^ nat (e - 52))
                    else round_even (n * 2 ^ nat (52 - e)) d)
           in min f64_inf (nat (e + 1022) * 2 ^ 52 + q))"

definition f64_sign :: "bool \<Rightarrow> nat \<Rightarrow> 64 word" where
  "f64_sign neg m = word_of_nat (m + (if neg then 2 ^ 63 else 0))"

definition f64_of_int :: "int \<Rightarrow> 64 word" where
  "f64_of_int i = f64_sign (i < 0) (f64_of_ratio (nat \<bar>i\<bar>) 1)"

text \<open>\<open>f64::from\<close> of a 32-bit float: exact, with the exponent rebiased.\<close>

definition f64_of_f32 :: "32 word \<Rightarrow> 64 word" where
  "f64_of_f32 w =
     (let b = unat w mod 2 ^ 31; ex = b div 2 ^ 23; man = b mod 2 ^ 23
      in f64_sign (2 ^ 31 \<le> unat w)
           (if ex = 255 then f64_inf + man * 2 ^ 29
            else if ex = 0 then f64_of_ratio man (2 ^ 149)
            else f64_of_ratio ((2 ^ 23 + man) * 2 ^ ex) (2 ^ 150)))"

section \<open>Parsing\<close>

definition is_digit :: "nat \<Rightarrow> bool" where
  "is_digit c \<longleftrightarrow> 48 \<le> c \<and> c \<le> 57"

definition digits_nat :: "pystr \<Rightarrow> nat" where
  "digits_nat s = foldl (\<lambda>a c. 10 * a + (c - 48)) 0 s"

text \<open>A leading \<open>-\<close> and the rest.\<close>

definition split_sign :: "pystr \<Rightarrow> bool \<times> pystr" where
  "split_sign s = (case s of c # t \<Rightarrow> if c = 45 then (True, t) else (False, s) | [] \<Rightarrow> (False, s))"

text \<open>
  \<open>text.parse::<f64>()\<close> and \<open>text.parse::<i64>()\<close> on what the lexer passes: an optional \<open>-\<close> and
  groups of digits joined by points. Two points are an error, and so is an integer out of range.
\<close>

definition parse_f64 :: "pystr \<Rightarrow> 64 word option" where
  "parse_f64 s =
     (let (neg, t) = split_sign s
      in case split_on 46 t of
           [a, b] \<Rightarrow> Some (f64_sign neg (f64_of_ratio (digits_nat (a @ b)) (10 ^ length b)))
         | _ \<Rightarrow> None)"

definition i64_ok :: "int \<Rightarrow> bool" where
  "i64_ok i \<longleftrightarrow> - (2 ^ 63) \<le> i \<and> i < 2 ^ 63"

definition u64_ok :: "int \<Rightarrow> bool" where
  "u64_ok i \<longleftrightarrow> 0 \<le> i \<and> i < 2 ^ 64"

definition parse_i64 :: "pystr \<Rightarrow> int option" where
  "parse_i64 s =
     (let (neg, t) = split_sign s; n = int (digits_nat t); i = (if neg then - n else n)
      in if i64_ok i then Some i else None)"

section \<open>Integers\<close>

lemma log2_bounds: "0 < n \<Longrightarrow> 2 ^ log2 n \<le> n \<and> n < 2 ^ Suc (log2 n)"
proof (induction n rule: log2.induct)
  case (1 n)
  show ?case
  proof (cases "n < 2")
    case True
    then show ?thesis using 1(2) by (simp add: log2.simps)
  next
    case False
    then have "2 ^ log2 (n div 2) \<le> n div 2 \<and> n div 2 < 2 ^ Suc (log2 (n div 2))"
      using 1(1) by simp
    then show ?thesis using False by (subst (1 2) log2.simps) (simp, linarith)
  qed
qed

lemma log2_one [simp]: "log2 1 = 0"
  by (simp add: log2.simps)

lemma log2_le: "0 < n \<Longrightarrow> n < 2 ^ Suc k \<Longrightarrow> log2 n \<le> k"
proof (rule ccontr)
  assume "0 < n" "n < 2 ^ Suc k" "\<not> log2 n \<le> k"
  then have "(2::nat) ^ Suc k \<le> 2 ^ log2 n" by (intro power_increasing) auto
  with log2_bounds [OF \<open>0 < n\<close>] \<open>n < 2 ^ Suc k\<close> show False by linarith
qed

lemma log2_eqI:
  assumes "2 ^ k \<le> n" and "n < 2 ^ Suc k"
  shows "log2 n = k"
proof (rule antisym)
  have n: "0 < n" using assms(1) less_le_trans [of 0 "2 ^ k" n] by simp
  show "log2 n \<le> k" by (rule log2_le [OF n assms(2)])
  have "(2::nat) ^ k < 2 ^ Suc (log2 n)" using log2_bounds [OF n] assms(1) by linarith
  then show "k \<le> log2 n" using power_strict_increasing_iff [of "2::nat" k "Suc (log2 n)"] by simp
qed

lemma ratio_exp_int: "0 < n \<Longrightarrow> ratio_exp n 1 = int (log2 n)"
  using log2_bounds [of n] by (simp add: ratio_exp_def)

text \<open>An integer of at most 53 bits has the bits of its exponent and its shifted digits.\<close>

lemma f64_of_ratio_exact:
  assumes "0 < n" and "n < 2 ^ 53"
  shows "f64_of_ratio n 1 = (log2 n + 1022) * 2 ^ 52 + n * 2 ^ (52 - log2 n)"
proof -
  have k: "log2 n \<le> 52" using log2_le [OF assms(1), of 52] assms(2) by simp
  have e: "max (ratio_exp n 1) (- 1022) = int (log2 n)"
    using assms by (simp add: ratio_exp_int)
  have "n * 2 ^ (52 - log2 n) < 2 ^ Suc (log2 n) * 2 ^ (52 - log2 n)"
    using log2_bounds [OF assms(1)] by (intro mult_strict_right_mono) auto
  also have "\<dots> = 2 ^ 53" using k by (simp flip: power_add)
  finally have lt: "n * 2 ^ (52 - log2 n) < 2 ^ 53" .
  have m: "(log2 n + 1022) * 2 ^ 52 + n * 2 ^ (52 - log2 n) \<le> f64_inf"
    using lt k unfolding f64_inf_def by simp
  have q: "(if (52::int) \<le> int (log2 n) then round_even n (1 * 2 ^ nat (int (log2 n) - 52))
            else round_even (n * 2 ^ nat (52 - int (log2 n))) 1) = n * 2 ^ (52 - log2 n)"
  proof (cases "log2 n = 52")
    case True
    then show ?thesis by (simp add: round_even_def)
  next
    case False
    then have "nat (52 - int (log2 n)) = 52 - log2 n" using k by linarith
    then show ?thesis using k False by (simp add: round_even_def)
  qed
  have z: "nat (int (log2 n) + 1022) = log2 n + 1022" by simp
  show ?thesis
    unfolding f64_of_ratio_def using assms(1)
    by (simp only: Let_def e q z min_absorb2 [OF m]) simp
qed

lemma f64_of_ratio_mono:
  assumes "n < m" and "m < 2 ^ 53"
  shows "f64_of_ratio n 1 < f64_of_ratio m 1"
proof (cases "n = 0")
  case True
  then show ?thesis using assms f64_of_ratio_exact [of m] by (simp add: f64_of_ratio_def)
next
  case False
  note n = log2_bounds [of n] and m = log2_bounds [of m]
  have km: "log2 m \<le> 52" using log2_le [of m 52] assms by simp
  have "log2 n \<le> log2 m"
    using False assms m log2_le [of n "log2 m"] by simp
  then consider "log2 n = log2 m" | "log2 n < log2 m" by linarith
  then have "(log2 n + 1022) * 2 ^ 52 + n * 2 ^ (52 - log2 n)
             < (log2 m + 1022) * 2 ^ 52 + m * 2 ^ (52 - log2 m)"
  proof cases
    case 1
    then show ?thesis using assms(1) by simp
  next
    case 2
    have "n * 2 ^ (52 - log2 n) < 2 ^ Suc (log2 n) * 2 ^ (52 - log2 n)"
      using n False by (intro mult_strict_right_mono) auto
    also have "\<dots> = 2 ^ 53" using 2 km by (simp flip: power_add)
    finally have a: "n * 2 ^ (52 - log2 n) < 2 ^ 53" .
    have "2 ^ 52 = 2 ^ log2 m * (2::nat) ^ (52 - log2 m)" using km by (simp flip: power_add)
    also have "\<dots> \<le> m * 2 ^ (52 - log2 m)" using m assms by (intro mult_right_mono) auto
    finally have b: "2 ^ 52 \<le> m * 2 ^ (52 - log2 m)" .
    have "(log2 n + 1022) * 2 ^ 52 + 2 ^ 52 \<le> (log2 m + 1022) * 2 ^ (52::nat)" using 2 by simp
    then show ?thesis using a b by simp
  qed
  then show ?thesis using assms False by (simp add: f64_of_ratio_exact)
qed

lemma f64_of_ratio_le_inf: "f64_of_ratio n d \<le> f64_inf"
  by (simp add: f64_of_ratio_def Let_def)

lemma f64_sign_simps:
  assumes "m \<le> f64_inf"
  shows "f64_mag (f64_sign neg m) = m" "f64_neg (f64_sign neg m) = neg"
proof -
  have "m < 2 ^ 63" using assms by (simp add: f64_inf_def)
  then have "unat (f64_sign neg m) = m + (if neg then 2 ^ 63 else 0)"
    unfolding f64_sign_def by (subst unat_of_nat) (simp add: take_bit_nat_eq_self)
  then show "f64_mag (f64_sign neg m) = m" "f64_neg (f64_sign neg m) = neg"
    using \<open>m < 2 ^ 63\<close> by (auto simp: f64_mag_def f64_neg_def)
qed

lemma f64_of_int_ord: "f64_ord (f64_of_int i) = sgn i * int (f64_of_ratio (nat \<bar>i\<bar>) 1)"
  using f64_of_ratio_def [of 0 1]
  by (cases i "0::int" rule: linorder_cases)
    (simp_all add: f64_ord_def f64_of_int_def f64_sign_simps f64_of_ratio_le_inf)

lemma f64_of_int_not_nan [simp]: "\<not> f64_nan (f64_of_int i)"
  by (simp add: f64_nan_def f64_of_int_def f64_sign_simps f64_of_ratio_le_inf not_less)

text \<open>Integers of at most 53 bits convert without loss, so that they compare as integers.\<close>

lemma f64_of_int_mono:
  assumes "i < j" "\<bar>i\<bar> < 2 ^ 53" "\<bar>j\<bar> < 2 ^ 53"
  shows "f64_ord (f64_of_int i) < f64_ord (f64_of_int j)"
proof -
  have z: "f64_of_ratio 0 1 = 0" by (simp add: f64_of_ratio_def)
  have pos: "0 < f64_of_ratio (nat k) 1" if "0 < k" "k < 2 ^ 53" for k :: int
    using f64_of_ratio_mono [of 0 "nat k"] that z by simp
  consider "0 \<le> i" | "i < 0" "0 \<le> j" | "j < 0" using assms(1) by linarith
  then show ?thesis
  proof cases
    case 1
    then have "f64_of_ratio (nat i) 1 < f64_of_ratio (nat j) 1"
      using assms by (intro f64_of_ratio_mono) auto
    then show ?thesis using 1 assms(1) by (cases "i = 0") (simp_all add: f64_of_int_ord z)
  next
    case 2
    then have "f64_ord (f64_of_int i) < 0" using pos [of "- i"] assms by (simp add: f64_of_int_ord)
    moreover have "0 \<le> f64_ord (f64_of_int j)"
      using 2 by (cases "j = 0") (simp_all add: f64_of_int_ord)
    ultimately show ?thesis by linarith
  next
    case 3
    then have "f64_of_ratio (nat (- j)) 1 < f64_of_ratio (nat (- i)) 1"
      using assms by (intro f64_of_ratio_mono) auto
    then show ?thesis using 3 assms(1) by (simp add: f64_of_int_ord)
  qed
qed

lemma f64_of_int_exact:
  assumes "\<bar>i\<bar> < 2 ^ 53" "\<bar>j\<bar> < 2 ^ 53"
  shows "f64_eq (f64_of_int i) (f64_of_int j) \<longleftrightarrow> i = j"
    and "f64_lt (f64_of_int i) (f64_of_int j) \<longleftrightarrow> i < j"
    and "f64_le (f64_of_int i) (f64_of_int j) \<longleftrightarrow> i \<le> j"
  using f64_of_int_mono [of i j] f64_of_int_mono [of j i] assms
  by (cases i j rule: linorder_cases; simp add: f64_eq_def f64_lt_def f64_le_def)+

declare One_nat_def [simp]

end
