(* ===== verification/Condition.thy ===== *)
theory Condition
  imports Float64
begin

text \<open>
  The expression language of edge conditions (\<open>rust/src/condition.rs\<close>): the lexer, the recursive
  descent parser with its depth budget, and the evaluator over msgpack values. The text of a
  condition is a list of code points and the parser's position is the list of the tokens left.
  Error messages are kept without their variable part. The Unicode classes of characters are a
  parameter (\<open>unicode\<close>); the classes of Rust's \<open>char\<close> are tables, not code.
\<close>

record unicode =
  ch_space :: "nat \<Rightarrow> bool"
  ch_alpha :: "nat \<Rightarrow> bool"
  ch_numeric :: "nat \<Rightarrow> bool"

definition cond_err :: "string \<Rightarrow> exc + 'a" where
  "cond_err msg = Inl (ValueError msg)"

definition COND_MAX_DEPTH :: nat where "COND_MAX_DEPTH = 64"

datatype tok =
    TIdent pystr | TStr pystr | TInt int | TFloat "64 word" | TBool bool | TNull
  | TAnd | TOr | TNot | TIn | TEq | TNe | TLt | TLe | TGt | TGe
  | TLParen | TRParen | TLBracket | TRBracket | TComma | TDot

datatype cmp_op = CEq | CNe | CLt | CLe | CGt | CGe | CIn | CNotIn

datatype expr =
    EStr pystr | EInt int | EFloat "64 word" | EBool bool | ENull
  | EList "expr list" | EVar "pystr list" | ENot expr
  | EAnd "expr list" | EOr "expr list" | ECmp cmp_op expr expr

section \<open>Lexer\<close>

text \<open>The body of a string literal up to its closing quote, and what follows it.\<close>

definition unescape :: "nat \<Rightarrow> nat" where
  "unescape c = (if c = of_char (CHR ''n'') then 10 else if c = of_char (CHR ''t'') then 9 else c)"

fun lex_str :: "nat \<Rightarrow> pystr \<Rightarrow> (pystr \<times> pystr) option" where
  "lex_str quot [] = None"
| "lex_str quot (ch # s) =
     (if ch = 92 \<and> s \<noteq> [] then map_option (apfst ((#) (unescape (hd s)))) (lex_str quot (tl s))
      else if ch = quot then Some ([], s)
      else map_option (apfst ((#) ch)) (lex_str quot s))"

text \<open>The digits and points of a number, whether there is a point, and what follows.\<close>

fun num_span :: "pystr \<Rightarrow> pystr \<times> bool \<times> pystr" where
  "num_span [] = ([], False, [])"
| "num_span (c # s) =
     (if is_digit c then case num_span s of (n, fl, r) \<Rightarrow> (c # n, fl, r)
      else if c = 46 \<and> s \<noteq> [] \<and> is_digit (hd s) then case num_span s of (n, fl, r) \<Rightarrow> (c # n, True, r)
      else ([], False, c # s))"

definition lex_number :: "pystr \<Rightarrow> exc + (tok \<times> pystr)" where
  "lex_number chars =
     (let (sg, t) = (if hd chars = 45 then ([45], tl chars) else ([], chars));
          (n, is_float, rest) = num_span t
      in if is_float
         then case parse_f64 (sg @ n) of Some f \<Rightarrow> Inr (TFloat f, rest) | None \<Rightarrow> cond_err ''invalid number''
         else case parse_i64 (sg @ n) of Some i \<Rightarrow> Inr (TInt i, rest) | None \<Rightarrow> cond_err ''invalid number'')"

definition word_char :: "unicode \<Rightarrow> nat \<Rightarrow> bool" where
  "word_char U c \<longleftrightarrow> ch_alpha U c \<or> ch_numeric U c \<or> c = 95"

definition word_tok :: "pystr \<Rightarrow> tok" where
  "word_tok w =
     (if w = lit ''and'' then TAnd else if w = lit ''or'' then TOr
      else if w = lit ''not'' then TNot else if w = lit ''in'' then TIn
      else if w = lit ''true'' \<or> w = lit ''True'' then TBool True
      else if w = lit ''false'' \<or> w = lit ''False'' then TBool False
      else if w = lit ''null'' \<or> w = lit ''none'' \<or> w = lit ''None'' then TNull
      else TIdent w)"

text \<open>One round of the loop of \<open>lex\<close>: the token that starts with \<open>c\<close>, and the characters after it.\<close>

definition lex_tok :: "unicode \<Rightarrow> nat \<Rightarrow> pystr \<Rightarrow> exc + (tok \<times> pystr)" where
  "lex_tok U c s =
     (if c = of_char CHR ''('' then Inr (TLParen, s)
      else if c = of_char CHR '')'' then Inr (TRParen, s)
      else if c = of_char CHR ''['' then Inr (TLBracket, s)
      else if c = of_char CHR '']'' then Inr (TRBracket, s)
      else if c = of_char CHR '','' then Inr (TComma, s)
      else if c = of_char CHR ''.'' then Inr (TDot, s)
      else if c = 39 \<or> c = 34 then
        (case lex_str c s of None \<Rightarrow> cond_err ''unterminated string literal''
         | Some (t, rest) \<Rightarrow> Inr (TStr t, rest))
      else if c = of_char CHR ''='' then
        (if s \<noteq> [] \<and> hd s = of_char CHR ''='' then Inr (TEq, tl s)
         else cond_err ''expected == (single = is not valid)'')
      else if c = of_char CHR ''!'' then
        (if s \<noteq> [] \<and> hd s = of_char CHR ''='' then Inr (TNe, tl s)
         else cond_err ''expected != (use not for negation)'')
      else if c = of_char CHR ''<'' then
        (if s \<noteq> [] \<and> hd s = of_char CHR ''='' then Inr (TLe, tl s) else Inr (TLt, s))
      else if c = of_char CHR ''>'' then
        (if s \<noteq> [] \<and> hd s = of_char CHR ''='' then Inr (TGe, tl s) else Inr (TGt, s))
      else if is_digit c then lex_number (c # s)
      else if c = 45 \<and> s \<noteq> [] \<and> is_digit (hd s) then lex_number (c # s)
      else if ch_alpha U c \<or> c = 95 then
        Inr (word_tok (takeWhile (word_char U) (c # s)), dropWhile (word_char U) (c # s))
      else cond_err ''unexpected character'')"

lemma lex_str_shorter: "lex_str q s = Some (t, rest) \<Longrightarrow> length rest < length s"
proof (induction q s arbitrary: t rest rule: lex_str.induct)
  case (2 q ch s)
  show ?case
  proof (cases "ch = 92 \<and> s \<noteq> []")
    case True
    then obtain t' where "lex_str q (tl s) = Some (t', rest)" using 2(3) by auto
    then have "length rest < length (tl s)" using 2(1) True by blast
    then show ?thesis by simp
  next
    case False
    then show ?thesis using 2(2,3) by (fastforce split: if_splits)
  qed
qed simp

lemma num_span_shorter: "num_span s = (n, fl, r) \<Longrightarrow> length n + length r = length s"
  by (induction s arbitrary: n fl r rule: num_span.induct)
    (auto split: if_splits prod.splits)

lemma num_span_ne: "num_span (c # s) = (n, fl, r) \<Longrightarrow> is_digit c \<Longrightarrow> n \<noteq> []"
  by (auto split: if_splits prod.splits)

lemma lex_number_shorter:
  assumes "lex_number (c # s) = Inr (t, rest)" and "is_digit c \<or> (c = 45 \<and> s \<noteq> [] \<and> is_digit (hd s))"
  shows "length rest \<le> length s"
proof (cases "c = 45")
  case True
  obtain n fl r where "num_span s = (n, fl, r)" using prod_cases3 by blast
  then show ?thesis using assms(1) True num_span_shorter [of s n fl r]
    by (auto simp: lex_number_def cond_err_def split: if_splits option.splits)
next
  case False
  obtain n fl r where n: "num_span (c # s) = (n, fl, r)" using prod_cases3 by blast
  then have "n \<noteq> []" using num_span_ne [OF n] assms(2) False by blast
  then have "length r \<le> length s" using num_span_shorter [OF n] by (cases n) auto
  then show ?thesis using assms(1) False n
    by (auto simp: lex_number_def cond_err_def simp del: num_span.simps split: if_splits option.splits)
qed

lemma lex_tok_shorter: "lex_tok U c s = Inr (t, rest) \<Longrightarrow> length rest \<le> length s"
  using lex_number_shorter [of c s t rest] lex_str_shorter [of c s]
    length_dropWhile_le [of "word_char U" s]
  by (auto simp: lex_tok_def cond_err_def word_char_def split: if_splits option.splits)

function lex :: "unicode \<Rightarrow> pystr \<Rightarrow> exc + tok list" where
  "lex U [] = Inr []"
| "lex U (c # s) =
     (if ch_space U c then lex U s
      else bindE (lex_tok U c s) (\<lambda>(t, rest). bindE (lex U rest) (\<lambda>ts. Inr (t # ts))))"
  by pat_completeness auto
termination
  by (relation "measure (\<lambda>(U, s). length s)") (auto dest: lex_tok_shorter)

section \<open>Parser\<close>

text \<open>
  The loops \<open>while self.peek() is sep\<close> of \<open>parse_or\<close> and \<open>parse_and\<close>, and the loop over the items
  of a list. Their bound is the number of tokens left and one: every round consumes a token, so
  that \<open>Diverged\<close> is not an outcome (shown below).
\<close>

fun parse_terms ::
  "tok \<Rightarrow> (tok list \<Rightarrow> exc + (expr \<times> tok list)) \<Rightarrow> nat \<Rightarrow> tok list \<Rightarrow> exc + (expr list \<times> tok list)" where
  "parse_terms sep p 0 ts = Inl Diverged"
| "parse_terms sep p (Suc n) ts =
     (if ts \<noteq> [] \<and> hd ts = sep
      then bindE (p (tl ts)) (\<lambda>(e, r). bindE (parse_terms sep p n r) (\<lambda>(es, r'). Inr (e # es, r')))
      else Inr ([], ts))"

fun parse_items ::
  "(tok list \<Rightarrow> exc + (expr \<times> tok list)) \<Rightarrow> nat \<Rightarrow> tok list \<Rightarrow> exc + (expr list \<times> tok list)" where
  "parse_items p 0 ts = Inl Diverged"
| "parse_items p (Suc n) ts =
     (if ts \<noteq> [] \<and> hd ts = TRBracket then Inr ([], tl ts)
      else bindE (p ts) (\<lambda>(e, r).
        if r \<noteq> [] \<and> hd r = TComma
        then bindE (parse_items p n (tl r)) (\<lambda>(es, r'). Inr (e # es, r'))
        else if r \<noteq> [] \<and> hd r = TRBracket then Inr ([e], tl r)
        else cond_err ''expected , or ] in list''))"

fun ident_of :: "tok list \<Rightarrow> pystr option" where
  "ident_of (TIdent seg # ts) = Some seg"
| "ident_of _ = None"

fun parse_path :: "tok list \<Rightarrow> exc + (pystr list \<times> tok list)" where
  "parse_path [] = Inr ([], [])"
| "parse_path (t # ts) =
     (if t = TDot then
        (case ident_of ts of
           Some seg \<Rightarrow> bindE (parse_path (tl ts)) (\<lambda>(p, r). Inr (seg # p, r))
         | None \<Rightarrow> cond_err ''expected identifier after .'')
      else Inr ([], t # ts))"

text \<open>The operator at the front, and the tokens after it; \<open>not in\<close> is two tokens.\<close>

definition peek_op :: "tok list \<Rightarrow> (cmp_op \<times> tok list) option" where
  "peek_op ts =
     (case ts of
        [] \<Rightarrow> None
      | t # r \<Rightarrow>
        (if t = TEq then Some (CEq, r) else if t = TNe then Some (CNe, r)
         else if t = TLt then Some (CLt, r) else if t = TLe then Some (CLe, r)
         else if t = TGt then Some (CGt, r) else if t = TGe then Some (CGe, r)
         else if t = TIn then Some (CIn, r)
         else if t = TNot \<and> r \<noteq> [] \<and> hd r = TIn then Some (CNotIn, tl r)
         else None))"

function parse_or :: "nat \<Rightarrow> tok list \<Rightarrow> exc + (expr \<times> tok list)"
  and parse_and :: "nat \<Rightarrow> tok list \<Rightarrow> exc + (expr \<times> tok list)"
  and parse_not :: "nat \<Rightarrow> tok list \<Rightarrow> exc + (expr \<times> tok list)"
  and parse_cmp :: "nat \<Rightarrow> tok list \<Rightarrow> exc + (expr \<times> tok list)"
  and parse_primary :: "nat \<Rightarrow> tok list \<Rightarrow> exc + (expr \<times> tok list)" where
  "parse_or d ts =
     (if COND_MAX_DEPTH < d then cond_err ''condition nested too deeply''
      else bindE (parse_and (Suc d) ts) (\<lambda>(first, r).
        if r = [] \<or> hd r \<noteq> TOr then Inr (first, r)
        else bindE (parse_terms TOr (\<lambda>x. parse_and (Suc d) x) (Suc (length r)) r) (\<lambda>(es, r').
          Inr (EOr (first # es), r'))))"
| "parse_and d ts =
     bindE (parse_not (Suc d) ts) (\<lambda>(first, r).
       if r = [] \<or> hd r \<noteq> TAnd then Inr (first, r)
       else bindE (parse_terms TAnd (\<lambda>x. parse_not (Suc d) x) (Suc (length r)) r) (\<lambda>(es, r').
         Inr (EAnd (first # es), r')))"
| "parse_not d ts =
     (if COND_MAX_DEPTH < d then cond_err ''condition nested too deeply''
      else if ts \<noteq> [] \<and> hd ts = TNot
      then bindE (parse_not (Suc d) (tl ts)) (\<lambda>(inner, r). Inr (ENot inner, r))
      else parse_cmp (Suc d) ts)"
| "parse_cmp d ts =
     bindE (parse_primary (Suc d) ts) (\<lambda>(left, r).
       case peek_op r of
         None \<Rightarrow> Inr (left, r)
       | Some (op, r') \<Rightarrow> bindE (parse_primary (Suc d) r') (\<lambda>(right, r''). Inr (ECmp op left right, r'')))"
| "parse_primary d ts =
     (if COND_MAX_DEPTH < d then cond_err ''condition nested too deeply''
      else case ts of
        TLParen # r \<Rightarrow> bindE (parse_or (Suc d) r) (\<lambda>(e, r').
          if r' \<noteq> [] \<and> hd r' = TRParen then Inr (e, tl r') else cond_err ''expected )'')
      | TStr s # r \<Rightarrow> Inr (EStr s, r)
      | TInt n # r \<Rightarrow> Inr (EInt n, r)
      | TFloat f # r \<Rightarrow> Inr (EFloat f, r)
      | TBool b # r \<Rightarrow> Inr (EBool b, r)
      | TNull # r \<Rightarrow> Inr (ENull, r)
      | TLBracket # r \<Rightarrow>
          bindE (parse_items (\<lambda>x. parse_primary (Suc d) x) (Suc (length r)) r) (\<lambda>(items, r').
            Inr (EList items, r'))
      | TIdent seg # r \<Rightarrow> bindE (parse_path r) (\<lambda>(p, r'). Inr (EVar (seg # p), r'))
      | _ \<Rightarrow> cond_err ''unexpected token'')"
  by pat_completeness auto
termination
  by (relation "measure (\<lambda>x. case x of
        Inl (Inl (d, _)) \<Rightarrow> 2 * (65 - d) | Inl (Inr (d, _)) \<Rightarrow> 2 * (65 - d) + 1
      | Inr (Inl (d, _)) \<Rightarrow> 2 * (65 - d) | Inr (Inr (Inl (d, _))) \<Rightarrow> 2 * (65 - d) + 1
      | Inr (Inr (Inr (d, _))) \<Rightarrow> 2 * (65 - d))")
    (auto simp: COND_MAX_DEPTH_def)

declare parse_or.simps [simp del] parse_and.simps [simp del] parse_not.simps [simp del]
  parse_cmp.simps [simp del] parse_primary.simps [simp del]

definition parse :: "unicode \<Rightarrow> pystr \<Rightarrow> exc + expr" where
  "parse U src =
     bindE (lex U src) (\<lambda>toks.
       if toks = [] then cond_err ''empty condition''
       else bindE (parse_or 0 toks) (\<lambda>(e, rest).
         if rest \<noteq> [] then cond_err ''unexpected trailing token'' else Inr e))"

section \<open>Evaluator\<close>

text \<open>
  \<open>rmpv::Value\<close>. A msgpack string whose bytes are not UTF-8 is \<open>VStrRaw\<close>; its \<open>as_str\<close> is \<open>None\<close>.
\<close>

datatype mvalue =
    VNil | VBool bool | VInt int | VF32 "32 word" | VF64 "64 word" | VStr pystr | VStrRaw bytes
  | VBin bytes | VArr "mvalue list" | VMap "(mvalue \<times> mvalue) list" | VExt int bytes

fun as_f64 :: "mvalue \<Rightarrow> 64 word option" where
  "as_f64 (VInt i) = Some (f64_of_int i)"
| "as_f64 (VF64 f) = Some f"
| "as_f64 (VF32 f) = Some (f64_of_f32 f)"
| "as_f64 _ = None"

fun val_truthy :: "mvalue \<Rightarrow> bool" where
  "val_truthy VNil = False"
| "val_truthy (VBool b) = b"
| "val_truthy (VInt i) = (\<not> f64_eq (f64_of_int i) 0)"
| "val_truthy (VF32 f) = (\<not> f64_eq (f64_of_f32 f) 0)"
| "val_truthy (VF64 f) = (\<not> f64_eq f 0)"
| "val_truthy (VStr s) = (s \<noteq> [])"
| "val_truthy (VStrRaw _) = False"
| "val_truthy (VBin b) = (b \<noteq> [])"
| "val_truthy (VArr a) = (a \<noteq> [])"
| "val_truthy (VMap m) = (m \<noteq> [])"
| "val_truthy (VExt _ _) = True"

text \<open>The structural equality of values, with the equality of floats at the leaves.\<close>

function val_eq :: "mvalue \<Rightarrow> mvalue \<Rightarrow> bool"
  and vals_eq :: "mvalue list \<Rightarrow> mvalue list \<Rightarrow> bool"
  and pairs_eq :: "(mvalue \<times> mvalue) list \<Rightarrow> (mvalue \<times> mvalue) list \<Rightarrow> bool" where
  "val_eq VNil v = (v = VNil)"
| "val_eq (VBool b) v = (v = VBool b)"
| "val_eq (VInt i) v = (v = VInt i)"
| "val_eq (VF32 f) v = (case v of VF32 g \<Rightarrow> f64_eq (f64_of_f32 f) (f64_of_f32 g) | _ \<Rightarrow> False)"
| "val_eq (VF64 f) v = (case v of VF64 g \<Rightarrow> f64_eq f g | _ \<Rightarrow> False)"
| "val_eq (VStr s) v = (v = VStr s)"
| "val_eq (VStrRaw s) v = (v = VStrRaw s)"
| "val_eq (VBin b) v = (v = VBin b)"
| "val_eq (VArr xs) v = (case v of VArr ys \<Rightarrow> vals_eq xs ys | _ \<Rightarrow> False)"
| "val_eq (VMap xs) v = (case v of VMap ys \<Rightarrow> pairs_eq xs ys | _ \<Rightarrow> False)"
| "val_eq (VExt t b) v = (v = VExt t b)"
| "vals_eq [] ys = (ys = [])"
| "vals_eq (x # xs) ys = (ys \<noteq> [] \<and> val_eq x (hd ys) \<and> vals_eq xs (tl ys))"
| "pairs_eq [] ys = (ys = [])"
| "pairs_eq ((k, x) # xs) ys =
     (ys \<noteq> [] \<and> val_eq k (fst (hd ys)) \<and> val_eq x (snd (hd ys)) \<and> pairs_eq xs (tl ys))"
  by pat_completeness auto
termination
  by (relation "measure (\<lambda>x. case x of Inl (v, _) \<Rightarrow> size v
        | Inr (Inl (xs, _)) \<Rightarrow> size_list size xs
        | Inr (Inr (ps, _)) \<Rightarrow> size_list (size_prod size size) ps)")
    auto

definition values_equal :: "mvalue \<Rightarrow> mvalue \<Rightarrow> bool" where
  "values_equal a b =
     (case (as_f64 a, as_f64 b) of (Some x, Some y) \<Rightarrow> f64_eq x y | _ \<Rightarrow> val_eq a b)"

definition ordering_true :: "cmp_op \<Rightarrow> mvalue \<Rightarrow> mvalue \<Rightarrow> bool" where
  "ordering_true op a b =
     (case (as_f64 a, as_f64 b) of
        (Some x, Some y) \<Rightarrow>
          (case op of CLt \<Rightarrow> f64_lt x y | CLe \<Rightarrow> f64_le x y
           | CGt \<Rightarrow> f64_lt y x | CGe \<Rightarrow> f64_le y x | _ \<Rightarrow> False)
      | _ \<Rightarrow>
        (case (a, b) of
           (VStr x, VStr y) \<Rightarrow>
             (case op of CLt \<Rightarrow> x < y | CLe \<Rightarrow> x \<le> y | CGt \<Rightarrow> x > y | CGe \<Rightarrow> x \<ge> y | _ \<Rightarrow> False)
         | _ \<Rightarrow> False))"

text \<open>\<open>h.contains(n)\<close>.\<close>

fun str_contains :: "pystr \<Rightarrow> pystr \<Rightarrow> bool" where
  "str_contains [] n = (n = [])"
| "str_contains (c # h) n = (startswith (c # h) n \<or> str_contains h n)"

definition is_member :: "mvalue \<Rightarrow> mvalue \<Rightarrow> bool" where
  "is_member a b =
     (case b of
        VArr items \<Rightarrow> list_ex (\<lambda>it. values_equal it a) items
      | VStr hay \<Rightarrow> (case a of VStr needle \<Rightarrow> str_contains hay needle | _ \<Rightarrow> False)
      | VMap pairs \<Rightarrow> list_ex (\<lambda>(k, _). values_equal k a) pairs
      | _ \<Rightarrow> False)"

text \<open>\<open>collect_paths\<close> appends to \<open>out\<close> what is not there yet.\<close>

fun collect_paths :: "expr \<Rightarrow> pystr list list \<Rightarrow> pystr list list"
  and collect_all :: "expr list \<Rightarrow> pystr list list \<Rightarrow> pystr list list" where
  "collect_paths (EVar path) out = (if path \<in> set out then out else out @ [path])"
| "collect_paths (ENot e) out = collect_paths e out"
| "collect_paths (EAnd es) out = collect_all es out"
| "collect_paths (EOr es) out = collect_all es out"
| "collect_paths (EList es) out = collect_all es out"
| "collect_paths (ECmp _ a b) out = collect_paths b (collect_paths a out)"
| "collect_paths _ out = out"
| "collect_all [] out = out"
| "collect_all (e # es) out = collect_all es (collect_paths e out)"

fun find_key :: "pystr \<Rightarrow> (mvalue \<times> mvalue) list \<Rightarrow> mvalue option" where
  "find_key seg [] = None"
| "find_key seg ((k, v) # pairs) = (if k = VStr seg then Some v else find_key seg pairs)"

fun lookup :: "mvalue \<Rightarrow> pystr list \<Rightarrow> mvalue option" where
  "lookup cur [] = Some cur"
| "lookup cur (seg # path) =
     (case cur of
        VMap pairs \<Rightarrow> (case find_key seg pairs of Some v \<Rightarrow> lookup v path | None \<Rightarrow> None)
      | _ \<Rightarrow> None)"

fun eval_cmp :: "cmp_op \<Rightarrow> mvalue \<Rightarrow> mvalue \<Rightarrow> bool" where
  "eval_cmp CEq a b = values_equal a b"
| "eval_cmp CNe a b = (\<not> values_equal a b)"
| "eval_cmp CIn a b = is_member a b"
| "eval_cmp CNotIn a b = (\<not> is_member a b)"
| "eval_cmp op a b = ordering_true op a b"

fun eval :: "expr \<Rightarrow> mvalue \<Rightarrow> mvalue" where
  "eval (EStr s) state = VStr s"
| "eval (EInt n) state = VInt n"
| "eval (EFloat f) state = VF64 f"
| "eval (EBool b) state = VBool b"
| "eval ENull state = VNil"
| "eval (EList items) state = VArr (map (\<lambda>e. eval e state) items)"
| "eval (EVar path) state = the_default VNil (lookup state path)"
| "eval (ENot e) state = VBool (\<not> val_truthy (eval e state))"
| "eval (EAnd terms) state = VBool (list_all (\<lambda>t. val_truthy (eval t state)) terms)"
| "eval (EOr terms) state = VBool (list_ex (\<lambda>t. val_truthy (eval t state)) terms)"
| "eval (ECmp op a b) state = VBool (eval_cmp op (eval a state) (eval b state))"

definition eval_truthy :: "expr \<Rightarrow> mvalue \<Rightarrow> bool" where
  "eval_truthy e state = val_truthy (eval e state)"

end
