(* ===== verification/Condition_Laws.thy ===== *)
theory Condition_Laws
  imports Condition
begin

text \<open>
  What the parser of conditions accepts: it always returns, it consumes what it has read, and the
  expressions it builds are well-formed and no higher than the depth budget allows, so that the
  recursive walks over them (evaluation, collection of paths) have a bounded depth. The evaluator
  reads the state only at the collected paths.
\<close>

section \<open>Expressions\<close>

fun value_error :: "exc \<Rightarrow> bool" where
  "value_error (ValueError _) = True"
| "value_error _ = False"

fun height :: "expr \<Rightarrow> nat" where
  "height (EList es) = Suc (foldr max (map height es) 0)"
| "height (ENot e) = Suc (height e)"
| "height (EAnd es) = Suc (foldr max (map height es) 0)"
| "height (EOr es) = Suc (foldr max (map height es) 0)"
| "height (ECmp _ a b) = Suc (max (height a) (height b))"
| "height _ = 1"

text \<open>Integers fit \<open>i64\<close>, paths are not empty, conjunctions and disjunctions have two terms.\<close>

fun expr_ok :: "expr \<Rightarrow> bool" where
  "expr_ok (EInt n) = i64_ok n"
| "expr_ok (EVar p) = (p \<noteq> [])"
| "expr_ok (EList es) = list_all expr_ok es"
| "expr_ok (ENot e) = expr_ok e"
| "expr_ok (EAnd es) = (2 \<le> length es \<and> list_all expr_ok es)"
| "expr_ok (EOr es) = (2 \<le> length es \<and> list_all expr_ok es)"
| "expr_ok (ECmp _ a b) = (expr_ok a \<and> expr_ok b)"
| "expr_ok _ = True"

lemma foldr_max_le [simp]: "foldr max xs 0 \<le> (n::nat) \<longleftrightarrow> (\<forall>x \<in> set xs. x \<le> n)"
  by (induction xs) auto

definition fits :: "nat \<Rightarrow> expr \<Rightarrow> bool" where
  "fits h e \<longleftrightarrow> height e \<le> h \<and> expr_ok e"

lemma fits_mono: "fits h e \<Longrightarrow> h \<le> h' \<Longrightarrow> fits h' e"
  by (auto simp: fits_def)

lemma fits_simps [simp]:
  "fits (Suc h) (EList es) \<longleftrightarrow> (\<forall>e \<in> set es. fits h e)"
  "fits (Suc h) (ENot e) \<longleftrightarrow> fits h e"
  "fits (Suc h) (EAnd es) \<longleftrightarrow> 2 \<le> length es \<and> (\<forall>e \<in> set es. fits h e)"
  "fits (Suc h) (EOr es) \<longleftrightarrow> 2 \<le> length es \<and> (\<forall>e \<in> set es. fits h e)"
  "fits (Suc h) (ECmp op a b) \<longleftrightarrow> fits h a \<and> fits h b"
  "fits (Suc h) (EStr s)" "fits (Suc h) (EFloat f)" "fits (Suc h) (EBool c)" "fits (Suc h) ENull"
  "fits (Suc h) (EInt n) \<longleftrightarrow> i64_ok n" "fits (Suc h) (EVar p) \<longleftrightarrow> p \<noteq> []"
  by (auto simp: fits_def list_all_iff)

section \<open>Lexer\<close>

fun tok_ok :: "tok \<Rightarrow> bool" where
  "tok_ok (TInt n) = i64_ok n"
| "tok_ok _ = True"

abbreviation toks_ok :: "tok list \<Rightarrow> bool" where
  "toks_ok ts \<equiv> list_all tok_ok ts"

lemma word_tok_ok: "tok_ok (word_tok w)"
  by (simp add: word_tok_def del: lit_simps)

lemma lex_number_ok: "lex_number s = Inr (t, rest) \<Longrightarrow> tok_ok t"
  by (auto simp: lex_number_def cond_err_def parse_i64_def Let_def
      split: if_splits option.splits prod.splits)

lemma lex_number_returns: "lex_number s = Inl e \<Longrightarrow> value_error e"
  by (auto simp: lex_number_def cond_err_def Let_def split: option.splits prod.splits if_split_asm)

lemma lex_tok_ok: "lex_tok U c s = Inr (t, rest) \<Longrightarrow> tok_ok t"
  unfolding lex_tok_def cond_err_def
  by (auto simp: lex_number_ok word_tok_ok split: if_split_asm option.splits)

lemma lex_tok_returns: "lex_tok U c s = Inl e \<Longrightarrow> value_error e"
  unfolding lex_tok_def cond_err_def
  by (auto simp: lex_number_returns split: option.splits if_split_asm)

lemma lex_ok: "lex U s = Inr ts \<Longrightarrow> toks_ok ts"
  by (induction U s arbitrary: ts rule: lex.induct)
    (auto simp: bindE_eq_Inr lex_tok_ok split: if_splits)

lemma lex_returns: "lex U s = Inl e \<Longrightarrow> value_error e"
proof (induction U s rule: lex.induct)
  case (2 U c s)
  show ?case
  proof (cases "ch_space U c")
    case True
    then show ?thesis using 2(1,3) by simp
  next
    case False
    show ?thesis
    proof (cases "lex_tok U c s")
      case (Inl e')
      then show ?thesis using 2(3) False lex_tok_returns [of U c s] by simp
    next
      case (Inr x)
      obtain t rest where x: "x = (t, rest)" by fastforce
      have "lex U rest = Inl e" using 2(3) False Inr x by (cases "lex U rest") auto
      then show ?thesis using 2(2) [OF False Inr x [symmetric]] by blast
    qed
  qed
qed simp

section \<open>Parser\<close>

definition parsed :: "nat \<Rightarrow> tok list \<Rightarrow> exc + (expr \<times> tok list) \<Rightarrow> bool" where
  "parsed h ts r =
     (case r of Inl e \<Rightarrow> value_error e
      | Inr (e, rest) \<Rightarrow> fits h e \<and> (\<exists>u. u \<noteq> [] \<and> ts = u @ rest))"

definition parsed_list :: "nat \<Rightarrow> tok list \<Rightarrow> exc + (expr list \<times> tok list) \<Rightarrow> bool" where
  "parsed_list h ts r =
     (case r of Inl e \<Rightarrow> value_error e
      | Inr (es, rest) \<Rightarrow> (\<forall>e \<in> set es. fits h e) \<and> (\<exists>u. ts = u @ rest))"

lemma parsed_Inl [simp]: "parsed h ts (Inl e) \<longleftrightarrow> value_error e" "parsed_list h ts (Inl e) \<longleftrightarrow> value_error e"
  by (simp_all add: parsed_def parsed_list_def)

lemma parsed_Inr:
  "parsed h ts (Inr (e, r)) \<longleftrightarrow> fits h e \<and> (\<exists>u. u \<noteq> [] \<and> ts = u @ r)"
  "parsed_list h ts (Inr (es, r)) \<longleftrightarrow> (\<forall>e \<in> set es. fits h e) \<and> (\<exists>u. ts = u @ r)"
  by (simp_all add: parsed_def parsed_list_def)

lemma parsed_bind:
  assumes "parsed h ts m" and "toks_ok ts"
    and "\<And>e u r. m = Inr (e, r) \<Longrightarrow> fits h e \<Longrightarrow> u \<noteq> [] \<Longrightarrow> ts = u @ r \<Longrightarrow> toks_ok r \<Longrightarrow> P (f (e, r))"
    and "\<And>e. value_error e \<Longrightarrow> P (Inl e)"
  shows "P (bindE m f)"
  using assms by (cases m) (force simp: parsed_def)+

lemma parsed_list_bind:
  assumes "parsed_list h ts m" and "toks_ok ts"
    and "\<And>es u r. m = Inr (es, r) \<Longrightarrow> \<forall>e \<in> set es. fits h e \<Longrightarrow> ts = u @ r \<Longrightarrow> toks_ok r \<Longrightarrow> P (f (es, r))"
    and "\<And>e. value_error e \<Longrightarrow> P (Inl e)"
  shows "P (bindE m f)"
  using assms by (cases m) (force simp: parsed_list_def)+

lemma parse_terms_parsed:
  assumes p: "\<And>x. toks_ok x \<Longrightarrow> parsed h x (p x)"
  shows "toks_ok ts \<Longrightarrow> length ts < n \<Longrightarrow> parsed_list h ts (parse_terms sep p n ts)"
proof (induction n arbitrary: ts)
  case (Suc n)
  show ?case
  proof (cases "ts \<noteq> [] \<and> hd ts = sep")
    case True
    then obtain t where ts: "ts = sep # t" by (cases ts) auto
    have t: "toks_ok t" using Suc.prems ts by simp
    have "parsed_list h ts (bindE (p t) (\<lambda>(e, r). bindE (parse_terms sep p n r) (\<lambda>(es, r'). Inr (e # es, r'))))"
    proof (rule parsed_bind [OF p [OF t] t])
      fix e u r assume e: "fits h e" "u \<noteq> []" "t = u @ r" and r: "toks_ok r"
      have "length r < n" using Suc.prems ts e(3) by simp
      from Suc.IH [OF r this]
      have "parsed_list h ts (bindE (parse_terms sep p n r) (\<lambda>(es, r'). Inr (e # es, r')))"
        by (rule parsed_list_bind [OF _ r]) (auto simp: parsed_Inr ts e)
      then show "parsed_list h ts (case (e, r) of (e, r) \<Rightarrow>
          bindE (parse_terms sep p n r) (\<lambda>(es, r'). Inr (e # es, r')))" by simp
    qed simp
    then show ?thesis by (simp add: ts)
  qed (auto simp: parsed_Inr)
qed simp

lemma parse_terms_ne:
  "parse_terms sep p (Suc n) ts = Inr (es, r) \<Longrightarrow> ts \<noteq> [] \<Longrightarrow> hd ts = sep \<Longrightarrow> es \<noteq> []"
  by (auto simp: bindE_eq_Inr)

lemma parse_items_parsed:
  assumes p: "\<And>x. toks_ok x \<Longrightarrow> parsed h x (p x)"
  shows "toks_ok ts \<Longrightarrow> length ts < n \<Longrightarrow> parsed_list h ts (parse_items p n ts)"
proof (induction n arbitrary: ts)
  case (Suc n)
  show ?case
  proof (cases "ts \<noteq> [] \<and> hd ts = TRBracket")
    case False
    let ?k = "\<lambda>(e, r). if r \<noteq> [] \<and> hd r = TComma
        then bindE (parse_items p n (tl r)) (\<lambda>(es, r'). Inr (e # es, r'))
        else if r \<noteq> [] \<and> hd r = TRBracket then Inr ([e], tl r)
        else cond_err ''expected , or ] in list''"
    have "parsed_list h ts (bindE (p ts) ?k)"
    proof (rule parsed_bind [OF p [OF Suc.prems(1)] Suc.prems(1)])
      fix e u r assume e: "fits h e" "u \<noteq> []" "ts = u @ r" and r: "toks_ok r"
      consider (comma) r' where "r = TComma # r'" | (close) r' where "r = TRBracket # r'"
        | (bad) "\<not> (r \<noteq> [] \<and> hd r = TComma)" "\<not> (r \<noteq> [] \<and> hd r = TRBracket)"
        by (cases r) auto
      then show "parsed_list h ts (?k (e, r))"
      proof cases
        case comma
        have r': "toks_ok r'" "length r' < n" using comma r Suc.prems e by auto
        have "parsed_list h ts (bindE (parse_items p n r') (\<lambda>(es, r'). Inr (e # es, r')))"
          by (rule parsed_list_bind [OF Suc.IH [OF r'] r'(1)]) (auto simp: parsed_Inr comma e)
        then show ?thesis by (simp add: comma)
      qed (auto simp: parsed_Inr e cond_err_def)
    qed simp
    then show ?thesis using False by auto
  qed (auto simp: parsed_Inr neq_Nil_conv)
qed simp

lemma parse_path_suffix: "parse_path ts = Inr (p, r) \<Longrightarrow> \<exists>u. ts = u @ r"
proof (induction ts arbitrary: p r rule: parse_path.induct)
  case (2 t ts)
  show ?case
  proof (cases "t = TDot")
    case True
    then obtain seg q where s: "ident_of ts = Some seg" and q: "parse_path (tl ts) = Inr (q, r)"
      using 2(2) by (auto simp: bindE_eq_Inr cond_err_def split: option.splits)
    obtain u where "tl ts = u @ r" using 2(1) [OF True s q] by blast
    moreover obtain x where "ts = x # tl ts" using s by (cases ts) auto
    ultimately have "t # ts = (t # x # u) @ r" by simp
    then show ?thesis ..
  next
    case False
    then show ?thesis using 2(2) by simp
  qed
qed simp

lemma parse_path_returns: "parse_path ts = Inl e \<Longrightarrow> value_error e"
  by (induction ts rule: parse_path.induct)
    (auto simp: bindE_def cond_err_def split: option.splits sum.splits if_splits)

lemma peek_op_suffix: "peek_op r = Some (op, r') \<Longrightarrow> \<exists>u. u \<noteq> [] \<and> r = u @ r'"
proof (cases r)
  case (Cons t s)
  assume *: "peek_op r = Some (op, r')"
  show ?thesis
  proof (cases "s \<noteq> [] \<and> hd s = TIn \<and> t = TNot")
    case True
    then obtain s' where "s = TIn # s'" by (cases s) auto
    then have "r = [t, TIn] @ r'" using * Cons True by (simp add: peek_op_def)
    then show ?thesis by blast
  next
    case False
    then have "r = [t] @ r'" using * Cons by (auto simp: peek_op_def split: if_splits)
    then show ?thesis by blast
  qed
qed (simp add: peek_op_def)

text \<open>One level of the descent; the budget left at depth \<open>d\<close> is \<open>65 - d\<close>.\<close>

lemma height_pos: "0 < height e"
  by (cases e) auto

lemma fits_up: "fits (65 - Suc d) e \<Longrightarrow> Suc (65 - Suc d) = 65 - d"
  using height_pos [of e] by (auto simp: fits_def)

lemma fits_weaken: "fits (65 - Suc d) e \<Longrightarrow> fits (65 - d) e"
  by (erule fits_mono) simp

lemma fits_node:
  assumes "fits (65 - Suc d) e"
  shows "fits (65 - d) (ENot e)"
    and "fits (65 - Suc d) e' \<Longrightarrow> fits (65 - d) (ECmp op e e')"
    and "\<forall>x \<in> set es. fits (65 - Suc d) x \<Longrightarrow> es \<noteq> [] \<Longrightarrow> fits (65 - d) (EAnd (e # es)) \<and> fits (65 - d) (EOr (e # es))"
  using assms by (auto simp: fits_up [OF assms, symmetric] Suc_le_eq)

lemma chain_step:
  assumes p: "\<And>x. toks_ok x \<Longrightarrow> parsed (65 - Suc d) x (p x)" and ts: "toks_ok ts"
    and node: "\<And>e es. fits (65 - Suc d) e \<Longrightarrow> \<forall>x \<in> set es. fits (65 - Suc d) x \<Longrightarrow> es \<noteq> [] \<Longrightarrow> fits (65 - d) (C (e # es))"
  shows "parsed (65 - d) ts (bindE (p ts) (\<lambda>(first, r).
        if r = [] \<or> hd r \<noteq> sep then Inr (first, r)
        else bindE (parse_terms sep p (Suc (length r)) r) (\<lambda>(es, r'). Inr (C (first # es), r'))))"
proof (rule parsed_bind [OF p [OF ts] ts])
  fix e u r assume e: "fits (65 - Suc d) e" "u \<noteq> []" and r: "toks_ok r" "ts = u @ r"
  show "parsed (65 - d) ts (case (e, r) of (first, r) \<Rightarrow> if r = [] \<or> hd r \<noteq> sep then Inr (first, r)
        else bindE (parse_terms sep p (Suc (length r)) r) (\<lambda>(es, r'). Inr (C (first # es), r')))"
  proof (cases "r = [] \<or> hd r \<noteq> sep")
    case True
    then show ?thesis using e r by (auto simp: parsed_Inr fits_weaken)
  next
    case sep: False
    have "parsed_list (65 - Suc d) r (parse_terms sep p (Suc (length r)) r)"
      by (rule parse_terms_parsed [OF p r(1)]) auto
    then have "parsed (65 - d) ts
        (bindE (parse_terms sep p (Suc (length r)) r) (\<lambda>(es, r'). Inr (C (e # es), r')))"
    proof (rule parsed_list_bind [OF _ r(1)])
      fix es v r'
      assume es: "parse_terms sep p (Suc (length r)) r = Inr (es, r')"
        "\<forall>e \<in> set es. fits (65 - Suc d) e" "r = v @ r'"
      have "es \<noteq> []" using parse_terms_ne [OF es(1)] sep by blast
      then show "parsed (65 - d) ts (case (es, r') of (es, r') \<Rightarrow> Inr (C (e # es), r'))"
        using e node [OF e(1) es(2)] es(3) r(2) by (auto simp: parsed_Inr)
    qed simp
    then show ?thesis using sep by simp
  qed
qed simp

lemma parse_or_step:
  assumes "\<And>x. toks_ok x \<Longrightarrow> parsed (65 - Suc d) x (parse_and (Suc d) x)" and "toks_ok ts"
  shows "parsed (65 - d) ts (parse_or d ts)"
  using chain_step [OF assms, of EOr TOr] fits_node(3) by (simp add: parse_or.simps cond_err_def)

lemma parse_and_step:
  assumes "\<And>x. toks_ok x \<Longrightarrow> parsed (65 - Suc d) x (parse_not (Suc d) x)" and "toks_ok ts"
  shows "parsed (65 - d) ts (parse_and d ts)"
  using chain_step [OF assms, of EAnd TAnd] fits_node(3) by (simp add: parse_and.simps)

lemma parse_not_step:
  assumes not: "\<And>x. toks_ok x \<Longrightarrow> parsed (65 - Suc d) x (parse_not (Suc d) x)"
    and cmp: "\<And>x. toks_ok x \<Longrightarrow> parsed (65 - Suc d) x (parse_cmp (Suc d) x)" and ts: "toks_ok ts"
  shows "parsed (65 - d) ts (parse_not d ts)"
proof (cases "ts \<noteq> [] \<and> hd ts = TNot")
  case True
  then obtain t where t: "ts = TNot # t" by (cases ts) auto
  have t': "toks_ok t" using ts t by simp
  have "parsed (65 - d) ts (bindE (parse_not (Suc d) t) (\<lambda>(inner, r). Inr (ENot inner, r)))"
    by (rule parsed_bind [OF not [OF t'] t']) (auto simp: parsed_Inr t fits_node(1))
  then show ?thesis by (subst parse_not.simps) (simp add: t cond_err_def)
next
  case False
  have "parsed (65 - d) ts (parse_cmp (Suc d) ts)"
    using cmp [OF ts] by (auto simp: parsed_def fits_weaken split: sum.splits)
  then show ?thesis using False by (subst parse_not.simps) (auto simp: cond_err_def)
qed

lemma parse_cmp_step:
  assumes prim: "\<And>x. toks_ok x \<Longrightarrow> parsed (65 - Suc d) x (parse_primary (Suc d) x)" and ts: "toks_ok ts"
  shows "parsed (65 - d) ts (parse_cmp d ts)"
  unfolding parse_cmp.simps
proof (rule parsed_bind [OF prim [OF ts] ts])
  fix e r u assume e: "fits (65 - Suc d) e" "u \<noteq> []" and r: "toks_ok r" and u: "ts = u @ r"
  show "parsed (65 - d) ts (case (e, r) of (left, r) \<Rightarrow> case peek_op r of None \<Rightarrow> Inr (left, r)
      | Some (op, r') \<Rightarrow> bindE (parse_primary (Suc d) r') (\<lambda>(right, r''). Inr (ECmp op left right, r'')))"
  proof (cases "peek_op r")
    case None
    then show ?thesis using e u by (auto simp: parsed_Inr fits_weaken)
  next
    case (Some x)
    obtain op r' where x: "x = (op, r')" by fastforce
    obtain v where v: "r = v @ r'" using peek_op_suffix [of r op r'] Some x by blast
    have r': "toks_ok r'" using r v by simp
    have "parsed (65 - d) ts (bindE (parse_primary (Suc d) r') (\<lambda>(right, r''). Inr (ECmp op e right, r'')))"
      by (rule parsed_bind [OF prim [OF r'] r']) (auto simp: parsed_Inr u v e fits_node(2) [OF e(1), simplified])
    then show ?thesis using Some x by simp
  qed
qed simp

lemma parsed_leaf:
  "d \<le> 64 \<Longrightarrow> fits 1 e \<Longrightarrow> parsed (65 - d) (t # r) (Inr (e, r))"
  by (auto simp: parsed_Inr intro: fits_mono exI [of _ "[t]"])

lemma parse_primary_step:
  assumes or: "\<And>x. toks_ok x \<Longrightarrow> parsed (65 - Suc d) x (parse_or (Suc d) x)"
    and prim: "\<And>x. toks_ok x \<Longrightarrow> parsed (65 - Suc d) x (parse_primary (Suc d) x)" and ts: "toks_ok ts"
  shows "parsed (65 - d) ts (parse_primary d ts)"
proof (cases "64 < d")
  case True
  then show ?thesis by (subst parse_primary.simps) (simp add: COND_MAX_DEPTH_def cond_err_def)
next
  case False
  then have d: "d \<le> 64" "Suc (64 - d) = 65 - d" by auto
  show ?thesis
  proof (cases ts)
    case Nil
    then show ?thesis by (subst parse_primary.simps) (simp add: cond_err_def)
  next
    case (Cons t r)
    have r: "toks_ok r" using ts Cons by simp
    have leaf: "parsed (65 - d) ts (Inr (e, r))" if "fits 1 e" for e
      using parsed_leaf [OF d(1) that] Cons by simp
    have paren: "parsed (65 - d) ts (bindE (parse_or (Suc d) r) (\<lambda>(e, r').
          if r' \<noteq> [] \<and> hd r' = TRParen then Inr (e, tl r') else cond_err ''expected )''))"
    proof (rule parsed_bind [OF or [OF r] r])
      fix e u r' assume e: "fits (65 - Suc d) e" "r = u @ r'"
      show "parsed (65 - d) ts (case (e, r') of (e, r') \<Rightarrow>
          if r' \<noteq> [] \<and> hd r' = TRParen then Inr (e, tl r') else cond_err ''expected )'')"
      proof (cases "r' \<noteq> [] \<and> hd r' = TRParen")
        case True
        then have "ts = (t # u @ [TRParen]) @ tl r'" using e(2) Cons by (cases r') auto
        then show ?thesis using True fits_weaken [OF e(1)] by (auto simp: parsed_Inr)
      qed (auto simp: cond_err_def)
    qed simp
    have list: "parsed (65 - d) ts (bindE (parse_items (\<lambda>x. parse_primary (Suc d) x) (Suc (length r)) r)
          (\<lambda>(items, r'). Inr (EList items, r')))"
    proof (rule parsed_list_bind [OF parse_items_parsed [OF prim r] r])
      fix es u r' assume es: "\<forall>e \<in> set es. fits (65 - Suc d) e" "r = u @ r'"
      have "fits (65 - d) (EList es)" using es(1) fits_simps(1) [of "64 - d" es] d(2) by simp
      moreover have "ts = (t # u) @ r'" using Cons es(2) by simp
      ultimately show "parsed (65 - d) ts (case (es, r') of (items, r') \<Rightarrow> Inr (EList items, r'))"
        by (auto simp: parsed_Inr simp del: append_Cons)
    qed simp_all
    have path: "parsed (65 - d) ts (bindE (parse_path r) (\<lambda>(p, r'). Inr (EVar (seg # p), r')))" for seg
    proof (cases "parse_path r")
      case (Inr x)
      obtain p r' where x: "x = (p, r')" by fastforce
      obtain u where "r = u @ r'" using parse_path_suffix Inr x by blast
      then have "ts = (t # u) @ r'" using Cons by simp
      moreover have "fits (65 - d) (EVar (seg # p))" using fits_simps(11) [of "64 - d"] d(2) by simp
      ultimately show ?thesis using Inr x by (auto simp: parsed_Inr simp del: append_Cons)
    qed (use parse_path_returns [of r] in auto)
    have n: "fits 1 (EInt k)" if "t = TInt k" for k using ts Cons that by (simp add: fits_def)
    have l: "fits 1 (EStr q)" "fits 1 (EFloat w)" "fits 1 (EBool b)" "fits 1 ENull" for q w b
      by (simp_all add: fits_def)
    have nd: "\<not> COND_MAX_DEPTH < d" using d(1) by (simp add: COND_MAX_DEPTH_def)
    have err: "parsed (65 - d) ts (cond_err m)" for m by (simp add: cond_err_def)
    show ?thesis
      apply (subst parse_primary.simps)
      apply (simp only: if_not_P [OF nd])
      apply (subst (2) Cons)
      apply (cases t; simp only: list.case tok.case)
                           apply (rule path leaf [OF l(1)] leaf [OF n] leaf [OF l(2)] leaf [OF l(3)]
          leaf [OF l(4)] paren list err | assumption)+
      done
  qed
qed

lemma parser_parsed:
  "toks_ok ts \<Longrightarrow> parsed (65 - d) ts (parse_or d ts)"
  "toks_ok ts \<Longrightarrow> parsed (65 - d) ts (parse_and d ts)"
  "toks_ok ts \<Longrightarrow> parsed (65 - d) ts (parse_not d ts)"
  "toks_ok ts \<Longrightarrow> parsed (65 - d) ts (parse_cmp d ts)"
  "toks_ok ts \<Longrightarrow> parsed (65 - d) ts (parse_primary d ts)"
proof (induction "65 - d" arbitrary: d ts)
  case 0
  then have d: "64 < d" by simp
  have low: "parsed h x (parse_or k x)" "parsed h x (parse_not k x)" "parsed h x (parse_primary k x)"
    if "64 < k" for h x k
    using that by (subst parse_or.simps parse_not.simps parse_primary.simps,
        simp add: COND_MAX_DEPTH_def cond_err_def)+
  { case 1 show ?case by (rule low(1) [OF d])
  next case 2 show ?case by (rule parse_and_step [OF low(2) 2]) (use d in simp)
  next case 3 show ?case by (rule low(2) [OF d])
  next case 4 show ?case by (rule parse_cmp_step [OF low(3) 4]) (use d in simp)
  next case 5 show ?case by (rule low(3) [OF d]) }
next
  case (Suc n)
  have n: "n = 65 - Suc d" using Suc(6) by simp
  note IH = Suc(1-5) [OF n]
  { case 1 show ?case by (rule parse_or_step [OF IH(2) 1])
  next case 2 show ?case by (rule parse_and_step [OF IH(3) 2])
  next case 3 show ?case by (rule parse_not_step [OF IH(3,4) 3])
  next case 4 show ?case by (rule parse_cmp_step [OF IH(5) 4])
  next case 5 show ?case by (rule parse_primary_step [OF IH(1,5) 5]) }
qed

lemma parse_returns:
  assumes "parse U src = Inl e"
  shows "value_error e"
proof (cases "lex U src")
  case (Inl e')
  then show ?thesis using assms lex_returns [of U src] by (simp add: parse_def)
next
  case (Inr ts)
  have "parsed 65 ts (parse_or 0 ts)" using parser_parsed(1) [OF lex_ok [OF Inr], of 0] by simp
  then show ?thesis using assms
    by (cases "parse_or 0 ts") (auto simp: parse_def Inr cond_err_def split: prod.splits if_splits)
qed

lemma parse_fits:
  assumes "parse U src = Inr e"
  shows "fits 65 e"
proof -
  obtain ts where ts: "lex U src = Inr ts" and p: "parse_or 0 ts = Inr (e, [])"
    using assms by (auto simp: parse_def bindE_eq_Inr cond_err_def split: if_splits)
  have "parsed 65 ts (parse_or 0 ts)" using parser_parsed(1) [OF lex_ok [OF ts], of 0] by simp
  then show ?thesis by (simp add: p parsed_Inr)
qed

section \<open>Evaluator\<close>

text \<open>The paths of the variables of an expression.\<close>

fun vars :: "expr \<Rightarrow> pystr list set" where
  "vars (EVar p) = {p}"
| "vars (ENot e) = vars e"
| "vars (EAnd es) = \<Union> (set (map vars es))"
| "vars (EOr es) = \<Union> (set (map vars es))"
| "vars (EList es) = \<Union> (set (map vars es))"
| "vars (ECmp _ a b) = vars a \<union> vars b"
| "vars _ = {}"

lemma collect_all_set:
  "(\<And>e out. e \<in> set es \<Longrightarrow> set (collect_paths e out) = set out \<union> vars e) \<Longrightarrow>
   set (collect_all es out) = set out \<union> \<Union> (vars ` set es)"
  by (induction es arbitrary: out) auto

lemma collect_paths_set: "set (collect_paths e out) = set out \<union> vars e"
  by (induction e arbitrary: out) (auto simp: collect_all_set)

text \<open>Evaluation reads the state at these paths only.\<close>

lemma eval_cong: "(\<And>p. p \<in> vars e \<Longrightarrow> lookup s p = lookup s' p) \<Longrightarrow> eval e s = eval e s'"
proof (induction e)
  case (EAnd es)
  then have "eval x s = eval x s'" if "x \<in> set es" for x using that by auto
  then show ?case by (simp add: list_all_iff)
next
  case (EOr es)
  then have "eval x s = eval x s'" if "x \<in> set es" for x using that by auto
  then show ?case by (simp add: list_ex_iff)
next
  case (EList es)
  then have "eval x s = eval x s'" if "x \<in> set es" for x using that by auto
  then show ?case by simp
qed auto

lemma expr_ok_vars: "expr_ok e \<Longrightarrow> p \<in> vars e \<Longrightarrow> p \<noteq> []"
  by (induction e) (auto simp: list_all_iff)

end
