(* ===== verification/Condition_Props.thy ===== *)
theory Condition_Props
  imports Condition_Laws
begin

text \<open>
  The properties of the condition language: what \<open>parse\<close> returns, and how integers compare.
\<close>

text \<open>
  C32. Parsing a condition always returns, with a \<open>ValueError\<close> or with an expression; the
  expression is well-formed (integers in the range of \<open>i64\<close>, no empty path, conjunctions and
  disjunctions of at least two terms) and at most 65 levels high, however long the text is, so
  that the recursive evaluation needs a bounded stack.
\<close>
theorem condition_parse_bounded:
  "case parse U src of
     Inl e \<Rightarrow> (\<exists>msg. e = ValueError msg)
   | Inr e \<Rightarrow> height e \<le> COND_MAX_DEPTH + 1 \<and> expr_ok e"
proof (cases "parse U src")
  case (Inl e)
  have "\<exists>msg. e = ValueError msg" using parse_returns [OF Inl] by (cases e) auto
  then show ?thesis by (simp add: Inl)
next
  case (Inr e)
  then show ?thesis using parse_fits [OF Inr] by (simp add: fits_def COND_MAX_DEPTH_def)
qed

lemma values_equal_int:
  "\<bar>i\<bar> < 2 ^ 53 \<Longrightarrow> \<bar>j\<bar> < 2 ^ 53 \<Longrightarrow> values_equal (VInt i) (VInt j) \<longleftrightarrow> i = j"
  by (simp add: values_equal_def f64_of_int_exact)

lemma int_rounds: "f64_of_int (2 ^ 53) = f64_of_int (2 ^ 53 + 1)"
proof -
  have "log2 (2 ^ 53) = 53" "log2 (2 ^ 53 + 1) = 53" by (rule log2_eqI; simp)+
  then have "ratio_exp (2 ^ 53) 1 = 53" "ratio_exp (2 ^ 53 + 1) 1 = 53"
    by (simp_all only: ratio_exp_int zero_less_numeral zero_less_power of_nat_numeral)
  then have "f64_of_ratio (2 ^ 53) 1 = f64_of_ratio (2 ^ 53 + 1) 1"
    by (simp add: f64_of_ratio_def round_even_def)
  then show ?thesis by (simp add: f64_of_int_def)
qed

text \<open>
  C33. The evaluator compares numbers as 64-bit floats. For integers below \<open>2 ^ 53\<close> in absolute
  value all comparisons and membership in a list are those of the integers; the bound is sharp:
  \<open>2 ^ 53\<close> and \<open>2 ^ 53 + 1\<close> are equal for a condition.
\<close>
theorem condition_int_compare:
  assumes "\<bar>i\<bar> < 2 ^ 53" and "\<bar>j\<bar> < 2 ^ 53" and "list_all (\<lambda>k. \<bar>k\<bar> < 2 ^ 53) ks"
  shows "eval_cmp CEq (VInt i) (VInt j) = (i = j) \<and> eval_cmp CNe (VInt i) (VInt j) = (i \<noteq> j)
    \<and> eval_cmp CLt (VInt i) (VInt j) = (i < j) \<and> eval_cmp CLe (VInt i) (VInt j) = (i \<le> j)
    \<and> eval_cmp CGt (VInt i) (VInt j) = (i > j) \<and> eval_cmp CGe (VInt i) (VInt j) = (i \<ge> j)
    \<and> eval_cmp CIn (VInt i) (VArr (map VInt ks)) = (i \<in> set ks)
    \<and> eval_cmp CEq (VInt (2 ^ 53)) (VInt (2 ^ 53 + 1))"
proof (intro conjI)
  show "eval_cmp CIn (VInt i) (VArr (map VInt ks)) = (i \<in> set ks)"
    using assms(1,3) by (induction ks) (auto simp: is_member_def values_equal_int)
  show "eval_cmp CEq (VInt (2 ^ 53)) (VInt (2 ^ 53 + 1))"
    unfolding eval_cmp.simps values_equal_def as_f64.simps int_rounds by (simp add: f64_eq_def)
qed (use assms in \<open>auto simp: values_equal_int ordering_true_def f64_of_int_exact\<close>)

theorem condition_int_compare_witness:
  "\<not> eval_cmp CLt (VInt 7) (VInt (- 3)) \<and> eval_cmp CIn (VInt 7) (VArr (map VInt [1, 7]))
   \<and> eval_cmp CEq (VInt (2 ^ 53)) (VInt (2 ^ 53 + 1))"
  using condition_int_compare [of 7 "- 3" "[1, 7]"] by simp

end
