(* ===== verification/Utf8.thy ===== *)
theory Utf8
  imports Prelude
begin

text \<open>
  UTF-8 as \<open>str::as_bytes\<close> and \<open>std::str::from_utf8\<close> have it: the shortest form only, no
  surrogates, nothing above U+10FFFF. Encoding and decoding are inverse to each other.
\<close>

definition utf8_char :: "nat \<Rightarrow> nat list" where
  "utf8_char c =
     (if c < 128 then [c]
      else if c < 2048 then [192 + c div 64, 128 + c mod 64]
      else if c < 65536 then [224 + c div 4096, 128 + c div 64 mod 64, 128 + c mod 64]
      else [240 + c div 262144, 128 + c div 4096 mod 64, 128 + c div 64 mod 64, 128 + c mod 64])"

definition utf8 :: "pystr \<Rightarrow> bytes" where
  "utf8 s = map word_of_nat (concat (map utf8_char s))"

definition cont :: "nat \<Rightarrow> bool" where
  "cont b \<longleftrightarrow> 128 \<le> b \<and> b < 192"

fun utf8_dec :: "nat list \<Rightarrow> pystr option" where
  "utf8_dec [] = Some []"
| "utf8_dec (b # r) =
     (if b < 128 then map_option ((#) b) (utf8_dec r)
      else if 194 \<le> b \<and> b < 224 then
        (case r of
           c1 # r1 \<Rightarrow>
             if cont c1 then map_option ((#) ((b - 192) * 64 + (c1 - 128))) (utf8_dec r1) else None
         | [] \<Rightarrow> None)
      else if 224 \<le> b \<and> b < 240 then
        (case r of
           c1 # c2 # r2 \<Rightarrow>
             let c = (b - 224) * 4096 + (c1 - 128) * 64 + (c2 - 128)
             in if cont c1 \<and> cont c2 \<and> 2048 \<le> c \<and> scalar c then map_option ((#) c) (utf8_dec r2) else None
         | _ \<Rightarrow> None)
      else if 240 \<le> b \<and> b < 245 then
        (case r of
           c1 # c2 # c3 # r3 \<Rightarrow>
             let c = (b - 240) * 262144 + (c1 - 128) * 4096 + (c2 - 128) * 64 + (c3 - 128)
             in if cont c1 \<and> cont c2 \<and> cont c3 \<and> 65536 \<le> c \<and> scalar c
                then map_option ((#) c) (utf8_dec r3) else None
         | _ \<Rightarrow> None)
      else None)"

definition from_utf8 :: "bytes \<Rightarrow> pystr option" where
  "from_utf8 bs = utf8_dec (map unat bs)"

lemma digits64:
  fixes c :: nat
  shows "c div 64 * 64 + c mod 64 = c"
    and "c div 4096 * 4096 + c div 64 mod 64 * 64 + c mod 64 = c"
    and "c div 262144 * 262144 + c div 4096 mod 64 * 4096 + c div 64 mod 64 * 64 + c mod 64 = c"
proof -
  have a: "c div 4096 = c div 64 div 64" "c div 262144 = c div 64 div 64 div 64"
    by (simp_all flip: div_mult2_eq)
  show 1: "c div 64 * 64 + c mod 64 = c" by simp
  have 2: "c div 64 div 64 * 64 + c div 64 mod 64 = c div 64" by simp
  have 3: "c div 64 div 64 div 64 * 64 + c div 64 div 64 mod 64 = c div 64 div 64" by simp
  show "c div 4096 * 4096 + c div 64 mod 64 * 64 + c mod 64 = c" using 1 2 unfolding a by linarith
  show "c div 262144 * 262144 + c div 4096 mod 64 * 4096 + c div 64 mod 64 * 64 + c mod 64 = c"
    using 1 2 3 unfolding a by linarith
qed

lemma utf8_char_dec:
  assumes "scalar c"
  shows "utf8_dec (utf8_char c @ r) = map_option ((#) c) (utf8_dec r)"
proof -
  have m: "c mod 64 < 64" "c div 64 mod 64 < 64" "c div 4096 mod 64 < 64" by simp_all
  have top: "c \<le> 1114111" using assms by (auto simp: scalar_def)
  consider "c < 128" | "128 \<le> c" "c < 2048" | "2048 \<le> c" "c < 65536" | "65536 \<le> c" by linarith
  then show ?thesis
  proof cases
    case 1
    then show ?thesis by (simp add: utf8_char_def)
  next
    case 2
    define x y where "x = c div 64" and "y = c mod 64"
    then have "2 \<le> x" "x < 32" "y < 64" "x * 64 + y = c" "utf8_char c = [192 + x, 128 + y]"
      using 2 digits64(1) [of c] by (auto simp: utf8_char_def)
    then show ?thesis by (simp add: cont_def)
  next
    case 3
    then have "c div 4096 < 16" by auto
    then show ?thesis using 3 m digits64(2) [of c] assms by (simp add: utf8_char_def cont_def Let_def)
  next
    case 4
    then have "c div 262144 < 5" using top by auto
    then show ?thesis using 4 m digits64(3) [of c] assms by (simp add: utf8_char_def cont_def Let_def)
  qed
qed

lemma utf8_char_bytes: "scalar c \<Longrightarrow> b \<in> set (utf8_char c) \<Longrightarrow> b < 256"
proof -
  assume "scalar c" "b \<in> set (utf8_char c)"
  moreover have "c div 64 < 32" if "c < 2048" using that by auto
  moreover have "c div 4096 < 16" if "c < 65536" using that by auto
  moreover have "c div 262144 < 5" if "c \<le> 1114111" using that by auto
  moreover have "x mod 64 < 64" for x :: nat by simp
  ultimately show ?thesis
    by (auto simp: utf8_char_def scalar_def split: if_splits intro: less_trans [of _ "128 + 64"])
qed

lemma utf8_nats_dec: "is_text s \<Longrightarrow> utf8_dec (concat (map utf8_char s)) = Some s"
  by (induction s) (simp_all add: utf8_char_dec)

lemma from_utf8_utf8: "is_text s \<Longrightarrow> from_utf8 (utf8 s) = Some s"
proof -
  assume s: "is_text s"
  have "map (unat \<circ> (word_of_nat :: nat \<Rightarrow> 8 word)) (concat (map utf8_char s)) = concat (map utf8_char s)"
  proof (rule map_idI)
    fix b assume "b \<in> set (concat (map utf8_char s))"
    then have "b < 256" using s utf8_char_bytes by (auto simp: is_text_def)
    then show "(unat \<circ> (word_of_nat :: nat \<Rightarrow> 8 word)) b = b" by (simp add: unat_of_nat take_bit_nat_eq_self)
  qed
  then show ?thesis using utf8_nats_dec [OF s] by (simp add: from_utf8_def utf8_def)
qed

text \<open>What decodes is text, and its encoding is what was decoded.\<close>

lemma utf8_char_two: "2 \<le> x \<Longrightarrow> x < 32 \<Longrightarrow> y < 64 \<Longrightarrow> utf8_char (x * 64 + y) = [192 + x, 128 + y]"
  by (simp add: utf8_char_def)

lemma utf8_char_three:
  assumes "x < 16" "y < 64" "z < 64" "2048 \<le> x * 4096 + y * 64 + z"
  shows "utf8_char (x * 4096 + y * 64 + z) = [224 + x, 128 + y, 128 + z]"
proof -
  have e: "x * 4096 + y * 64 + z = (x * 64 + y) * 64 + z" by simp
  have "(x * 4096 + y * 64 + z) div 64 = x * 64 + y" using assms by simp
  moreover have "(x * 4096 + y * 64 + z) mod 64 = z" unfolding e mod_mult_self3 using assms by simp
  moreover have "(x * 4096 + y * 64 + z) div 4096 = x" using assms by simp
  ultimately show ?thesis using assms by (simp add: utf8_char_def)
qed

lemma utf8_char_four:
  assumes "y < 64" "z < 64" "w < 64" "65536 \<le> x * 262144 + y * 4096 + z * 64 + w"
  shows "utf8_char (x * 262144 + y * 4096 + z * 64 + w) = [240 + x, 128 + y, 128 + z, 128 + w]"
proof -
  let ?c = "x * 262144 + y * 4096 + z * 64 + w"
  have e: "?c = ((x * 64 + y) * 64 + z) * 64 + w" by simp
  have a: "?c div 64 = (x * 64 + y) * 64 + z" using assms by simp
  have a': "?c mod 64 = w" unfolding e mod_mult_self3 using assms by simp
  have a2: "((x * 64 + y) * 64 + z) mod 64 = z" unfolding mod_mult_self3 using assms by simp
  have b: "?c div 4096 = x * 64 + y" using assms by simp
  have c: "?c div 262144 = x" using assms by simp
  have b2: "(x * 64 + y) mod 64 = y" unfolding mod_mult_self3 using assms by simp
  show ?thesis using assms unfolding utf8_char_def a a' b c a2 b2 by simp
qed

lemma utf8_dec_inv: "utf8_dec bs = Some s \<Longrightarrow> is_text s \<and> concat (map utf8_char s) = bs"
proof (induction bs arbitrary: s rule: utf8_dec.induct)
  case (2 b r)
  consider (one) "b < 128" | (two) "194 \<le> b" "b < 224" | (three) "224 \<le> b" "b < 240" | (four) "240 \<le> b" "b < 245"
    using 2(5) by (auto split: if_splits)
  then show ?case
  proof cases
    case one
    then show ?thesis using 2(1) [OF one] 2(5) by (auto simp: utf8_char_def scalar_def)
  next
    case two
    then obtain c1 r1 t where e: "r = c1 # r1" "cont c1" "utf8_dec r1 = Some t"
      "s = ((b - 192) * 64 + (c1 - 128)) # t"
      using 2(5) by (auto split: list.splits if_splits)
    have "is_text t \<and> concat (map utf8_char t) = r1" using 2(2) two e by simp
    moreover have "utf8_char ((b - 192) * 64 + (c1 - 128)) = [b, c1]"
      by (subst utf8_char_two) (use two e(2) in \<open>auto simp: cont_def\<close>)
    moreover have "(b - 192) * 64 + (c1 - 128) < 2048" using two e(2) unfolding cont_def by linarith
    then have "scalar ((b - 192) * 64 + (c1 - 128))" unfolding scalar_def by linarith
    ultimately show ?thesis using e by simp
  next
    case three
    then obtain c1 c2 r2 t where e: "r = c1 # c2 # r2" "cont c1" "cont c2" "utf8_dec r2 = Some t"
      "2048 \<le> (b - 224) * 4096 + (c1 - 128) * 64 + (c2 - 128)"
      "scalar ((b - 224) * 4096 + (c1 - 128) * 64 + (c2 - 128))"
      "s = ((b - 224) * 4096 + (c1 - 128) * 64 + (c2 - 128)) # t"
      using 2(5) by (auto simp: Let_def split: list.splits if_splits)
    have "is_text t \<and> concat (map utf8_char t) = r2" using 2(3) three e by simp
    moreover have "utf8_char ((b - 224) * 4096 + (c1 - 128) * 64 + (c2 - 128)) = [b, c1, c2]"
      by (subst utf8_char_three) (use three e(2,3,5) in \<open>auto simp: cont_def\<close>)
    ultimately show ?thesis using e by simp
  next
    case four
    then obtain c1 c2 c3 r3 t where e: "r = c1 # c2 # c3 # r3" "cont c1" "cont c2" "cont c3" "utf8_dec r3 = Some t"
      "65536 \<le> (b - 240) * 262144 + (c1 - 128) * 4096 + (c2 - 128) * 64 + (c3 - 128)"
      "scalar ((b - 240) * 262144 + (c1 - 128) * 4096 + (c2 - 128) * 64 + (c3 - 128))"
      "s = ((b - 240) * 262144 + (c1 - 128) * 4096 + (c2 - 128) * 64 + (c3 - 128)) # t"
      using 2(5) by (auto simp: Let_def split: list.splits if_splits)
    have "is_text t \<and> concat (map utf8_char t) = r3" using 2(4) four e by simp
    moreover have "utf8_char ((b - 240) * 262144 + (c1 - 128) * 4096 + (c2 - 128) * 64 + (c3 - 128)) = [b, c1, c2, c3]"
      by (subst utf8_char_four) (use four e(2,3,4,6) in \<open>auto simp: cont_def\<close>)
    ultimately show ?thesis using e by simp
  qed
qed simp

lemma utf8_from_utf8: "from_utf8 bs = Some s \<Longrightarrow> is_text s \<and> utf8 s = bs"
proof -
  assume "from_utf8 bs = Some s"
  then have "is_text s" "concat (map utf8_char s) = map unat bs"
    using utf8_dec_inv [of "map unat bs" s] by (auto simp: from_utf8_def)
  moreover have "map (word_of_nat \<circ> unat) bs = bs" by (rule map_idI) simp
  ultimately show ?thesis by (simp add: utf8_def)
qed

end
