(* ===== verification/Codec.thy ===== *)
theory Codec
  imports Float64 Utf8 Values Store_Contract
begin

text \<open>
  The msgpack codec (\<open>rust/src/codec.rs\<close>): \<open>encode\<close> writes a Python value as msgpack bytes and
  \<open>decode\<close> reads one value from the front of a byte string. The buffer being written is the result
  of the writers; the reader's position is the list of the bytes left. Error messages are kept
  without their variable part. A dictionary decides by Python's equality of keys (\<open>1\<close>, \<open>1.0\<close> and
  \<open>True\<close> are one key) and refuses keys that are not hashable.
\<close>

definition MAX_DEPTH :: nat where "MAX_DEPTH = 128"

definition too_deep :: exc where "too_deep = ValueError ''value nests too deeply''"
definition int_out_of_range :: exc where "int_out_of_range = ValueError ''integer out of 64-bit range''"
definition malformed :: exc where "malformed = ValueError ''msgpack decode error''"

text \<open>\<open>to_be_bytes\<close> and its inverse.\<close>

abbreviation byte :: "nat \<Rightarrow> 8 word" where "byte n \<equiv> word_of_nat n"

fun be :: "nat \<Rightarrow> nat \<Rightarrow> bytes" where
  "be 0 n = []"
| "be (Suc w) n = be w (n div 256) @ [byte (n mod 256)]"

definition un_be :: "bytes \<Rightarrow> nat" where
  "un_be bs = foldl (\<lambda>acc b. acc * 256 + unat b) 0 bs"

section \<open>Encoding\<close>

definition write_i64 :: "int \<Rightarrow> bytes" where
  "write_i64 v =
     (if 0 \<le> v \<and> v \<le> 127 then [byte (nat v)]
      else if - 32 \<le> v \<and> v \<le> - 1 then [byte (nat (v mod 256))]
      else if 128 \<le> v \<and> v \<le> 255 then 0xcc # be 1 (nat v)
      else if 256 \<le> v \<and> v \<le> 65535 then 0xcd # be 2 (nat v)
      else if 65536 \<le> v \<and> v \<le> 4294967295 then 0xce # be 4 (nat v)
      else if 4294967296 \<le> v then 0xcf # be 8 (nat v)
      else if - 128 \<le> v \<and> v \<le> - 33 then 0xd0 # be 1 (nat (v mod 2 ^ 8))
      else if - 32768 \<le> v \<and> v \<le> - 129 then 0xd1 # be 2 (nat (v mod 2 ^ 16))
      else if - 2147483648 \<le> v \<and> v \<le> - 32769 then 0xd2 # be 4 (nat (v mod 2 ^ 32))
      else 0xd3 # be 8 (nat (v mod 2 ^ 64)))"

definition write_u64 :: "int \<Rightarrow> bytes" where
  "write_u64 v = 0xcf # be 8 (nat v)"

definition u32_len :: "nat \<Rightarrow> exc + nat" where
  "u32_len len = (if len < 2 ^ 32 then Inr len else Inl (ValueError ''exceeds the 32-bit length msgpack allows''))"

definition write_str_header :: "nat \<Rightarrow> exc + bytes" where
  "write_str_header len =
     (if len \<le> 31 then Inr [byte (160 + len)]
      else if len \<le> 255 then Inr (0xd9 # be 1 len)
      else if len \<le> 65535 then Inr (0xda # be 2 len)
      else bindE (u32_len len) (\<lambda>n. Inr (0xdb # be 4 n)))"

definition write_bin_header :: "nat \<Rightarrow> exc + bytes" where
  "write_bin_header len =
     (if len \<le> 255 then Inr (0xc4 # be 1 len)
      else if len \<le> 65535 then Inr (0xc5 # be 2 len)
      else bindE (u32_len len) (\<lambda>n. Inr (0xc6 # be 4 n)))"

definition write_array_header :: "nat \<Rightarrow> exc + bytes" where
  "write_array_header len =
     (if len \<le> 15 then Inr [byte (144 + len)]
      else if len \<le> 65535 then Inr (0xdc # be 2 len)
      else bindE (u32_len len) (\<lambda>n. Inr (0xdd # be 4 n)))"

definition write_map_header :: "nat \<Rightarrow> exc + bytes" where
  "write_map_header len =
     (if len \<le> 15 then Inr [byte (128 + len)]
      else if len \<le> 65535 then Inr (0xde # be 2 len)
      else bindE (u32_len len) (\<lambda>n. Inr (0xdf # be 4 n)))"

text \<open>A header and a body, written one after the other.\<close>

definition with_header :: "exc + bytes \<Rightarrow> exc + bytes list \<Rightarrow> exc + bytes" where
  "with_header hdr body = bindE hdr (\<lambda>h. bindE body (\<lambda>bs. Inr (h @ concat bs)))"

function write_obj :: "nat \<Rightarrow> pyval \<Rightarrow> exc + bytes" where
  "write_obj depth obj =
     (if MAX_DEPTH < depth then Inl too_deep
      else case obj of
        PStr s \<Rightarrow> if is_text s then with_header (write_str_header (length (utf8 s))) (Inr [utf8 s]) else Inl UnicodeError
      | PDict d \<Rightarrow> with_header (write_map_header (length d))
          (mapE (\<lambda>(k, v). bindE (write_obj (Suc depth) k) (\<lambda>x. bindE (write_obj (Suc depth) v) (\<lambda>y. Inr (x @ y)))) d)
      | PList xs \<Rightarrow> with_header (write_array_header (length xs)) (mapE (\<lambda>x. write_obj (Suc depth) x) xs)
      | PNone \<Rightarrow> Inr [0xc0]
      | PBool b \<Rightarrow> Inr [if b then 0xc3 else 0xc2]
      | PInt i \<Rightarrow> if i64_ok i then Inr (write_i64 i) else if u64_ok i then Inr (write_u64 i) else Inl int_out_of_range
      | PFloat f \<Rightarrow> Inr (0xcb # be 8 (unat f))
      | PBytes b \<Rightarrow> with_header (write_bin_header (length b)) (Inr [b])
      | PTuple xs \<Rightarrow> with_header (write_array_header (length xs)) (mapE (\<lambda>x. write_obj (Suc depth) x) xs)
      | PObj _ \<Rightarrow> Inl TypeError)"
  by pat_completeness auto
termination
  by (relation "measure (\<lambda>(depth, _). 129 - depth)") (auto simp: MAX_DEPTH_def)

declare write_obj.simps [simp del]

definition mp_encode :: "pyval \<Rightarrow> exc + bytes" where
  "mp_encode obj = write_obj 0 obj"

section \<open>Dictionary keys\<close>

text \<open>The exact value of a finite float is the integer \<open>i\<close>.\<close>

definition f64_is_int :: "64 word \<Rightarrow> int \<Rightarrow> bool" where
  "f64_is_int w i =
     (let m = f64_mag w; ex = m div 2 ^ 52; man = m mod 2 ^ 52;
          n = int (if ex = 0 then man else 2 ^ 52 + man) * (if f64_neg w then - 1 else 1);
          e = (if ex = 0 then 1 else int ex) - 1075
      in m < f64_inf \<and> (if 0 \<le> e then n * 2 ^ nat e = i else n = i * 2 ^ nat (- e)))"

fun key_int :: "pyval \<Rightarrow> int option" where
  "key_int (PBool b) = Some (if b then 1 else 0)"
| "key_int (PInt i) = Some i"
| "key_int _ = None"

definition key_eq :: "pyval \<Rightarrow> pyval \<Rightarrow> bool" where
  "key_eq a b =
     (case (key_int a, key_int b) of
        (Some i, Some j) \<Rightarrow> i = j
      | (Some i, None) \<Rightarrow> (case b of PFloat f \<Rightarrow> f64_is_int f i | _ \<Rightarrow> False)
      | (None, Some j) \<Rightarrow> (case a of PFloat f \<Rightarrow> f64_is_int f j | _ \<Rightarrow> False)
      | (None, None) \<Rightarrow> (case (a, b) of (PFloat f, PFloat g) \<Rightarrow> f64_eq f g | _ \<Rightarrow> a = b))"

fun hashable :: "pyval \<Rightarrow> bool" where
  "hashable (PList _) = False"
| "hashable (PDict _) = False"
| "hashable _ = True"

fun put_key :: "pyval \<Rightarrow> pyval \<Rightarrow> (pyval \<times> pyval) list \<Rightarrow> (pyval \<times> pyval) list" where
  "put_key k v [] = [(k, v)]"
| "put_key k v ((k', v') # d) = (if key_eq k' k then (k', v) # d else (k', v') # put_key k v d)"

definition set_item :: "pyval \<Rightarrow> pyval \<Rightarrow> (pyval \<times> pyval) list \<Rightarrow> exc + (pyval \<times> pyval) list" where
  "set_item k v d = (if hashable k then Inr (put_key k v d) else Inl TypeError)"

section \<open>Decoding\<close>

definition rd_take :: "nat \<Rightarrow> bytes \<Rightarrow> exc + (bytes \<times> bytes)" where
  "rd_take n bs = (if n \<le> length bs then Inr (take n bs, drop n bs) else Inl malformed)"

definition len_of :: "nat \<Rightarrow> bytes \<Rightarrow> exc + (nat \<times> bytes)" where
  "len_of width bs = bindE (rd_take width bs) (\<lambda>(raw, r). Inr (un_be raw, r))"

definition read_str :: "nat \<Rightarrow> bytes \<Rightarrow> exc + (pyval \<times> bytes)" where
  "read_str len bs =
     bindE (rd_take len bs) (\<lambda>(raw, r).
       Inr (case from_utf8 raw of Some text \<Rightarrow> PStr text | None \<Rightarrow> PBytes raw, r))"

definition read_bin :: "nat \<Rightarrow> bytes \<Rightarrow> exc + (pyval \<times> bytes)" where
  "read_bin len bs = bindE (rd_take len bs) (\<lambda>(raw, r). Inr (PBytes raw, r))"

fun read_items :: "(bytes \<Rightarrow> exc + (pyval \<times> bytes)) \<Rightarrow> nat \<Rightarrow> bytes \<Rightarrow> exc + (pyval list \<times> bytes)" where
  "read_items rd 0 bs = Inr ([], bs)"
| "read_items rd (Suc n) bs =
     bindE (rd bs) (\<lambda>(x, r). bindE (read_items rd n r) (\<lambda>(xs, r'). Inr (x # xs, r')))"

fun read_pairs ::
  "(bytes \<Rightarrow> exc + (pyval \<times> bytes)) \<Rightarrow> nat \<Rightarrow> (pyval \<times> pyval) list \<Rightarrow> bytes \<Rightarrow> exc + ((pyval \<times> pyval) list \<times> bytes)" where
  "read_pairs rd 0 d bs = Inr (d, bs)"
| "read_pairs rd (Suc n) d bs =
     bindE (rd bs) (\<lambda>(key, r). bindE (rd r) (\<lambda>(value, r').
       bindE (set_item key value d) (\<lambda>d'. read_pairs rd n d' r')))"

definition read_array :: "(bytes \<Rightarrow> exc + (pyval \<times> bytes)) \<Rightarrow> nat \<Rightarrow> bytes \<Rightarrow> exc + (pyval \<times> bytes)" where
  "read_array rd len bs = bindE (read_items rd len bs) (\<lambda>(items, r). Inr (PList items, r))"

definition read_map :: "(bytes \<Rightarrow> exc + (pyval \<times> bytes)) \<Rightarrow> nat \<Rightarrow> bytes \<Rightarrow> exc + (pyval \<times> bytes)" where
  "read_map rd len bs = bindE (read_pairs rd len [] bs) (\<lambda>(d, r). Inr (PDict d, r))"

text \<open>An unsigned and a signed integer of \<open>width\<close> bytes.\<close>

definition read_uint :: "nat \<Rightarrow> bytes \<Rightarrow> exc + (pyval \<times> bytes)" where
  "read_uint width bs = bindE (len_of width bs) (\<lambda>(n, r). Inr (PInt (int n), r))"

definition read_int :: "nat \<Rightarrow> bytes \<Rightarrow> exc + (pyval \<times> bytes)" where
  "read_int width bs =
     bindE (len_of width bs) (\<lambda>(n, r).
       Inr (PInt (if n < 2 ^ (8 * width - 1) then int n else int n - 2 ^ (8 * width)), r))"

definition sized :: "nat \<Rightarrow> (nat \<Rightarrow> bytes \<Rightarrow> exc + (pyval \<times> bytes)) \<Rightarrow> bytes \<Rightarrow> exc + (pyval \<times> bytes)" where
  "sized width rd bs = bindE (len_of width bs) (\<lambda>(n, r). rd n r)"

text \<open>The values that are not containers, by their marker.\<close>

definition read_scalar :: "nat \<Rightarrow> bytes \<Rightarrow> exc + (pyval \<times> bytes)" where
  "read_scalar marker r =
     (if marker \<le> 0x7f then Inr (PInt (int marker), r)
      else if 0xe0 \<le> marker then Inr (PInt (int marker - 256), r)
      else if 0xa0 \<le> marker \<and> marker \<le> 0xbf then read_str (marker mod 32) r
      else if marker = 0xc0 then Inr (PNone, r)
      else if marker = 0xc2 then Inr (PBool False, r)
      else if marker = 0xc3 then Inr (PBool True, r)
      else if marker = 0xc4 then sized 1 read_bin r
      else if marker = 0xc5 then sized 2 read_bin r
      else if marker = 0xc6 then sized 4 read_bin r
      else if marker = 0xca then bindE (len_of 4 r) (\<lambda>(n, r'). Inr (PFloat (f64_of_f32 (word_of_nat n)), r'))
      else if marker = 0xcb then bindE (len_of 8 r) (\<lambda>(n, r'). Inr (PFloat (word_of_nat n), r'))
      else if marker = 0xcc then read_uint 1 r
      else if marker = 0xcd then read_uint 2 r
      else if marker = 0xce then read_uint 4 r
      else if marker = 0xcf then read_uint 8 r
      else if marker = 0xd0 then read_int 1 r
      else if marker = 0xd1 then read_int 2 r
      else if marker = 0xd2 then read_int 4 r
      else if marker = 0xd3 then read_int 8 r
      else if marker = 0xd9 then sized 1 read_str r
      else if marker = 0xda then sized 2 read_str r
      else if marker = 0xdb then sized 4 read_str r
      else if marker = 0xc1 then Inl malformed
      else Inl (ValueError ''msgpack extension types are not supported''))"

function read_obj :: "nat \<Rightarrow> bytes \<Rightarrow> exc + (pyval \<times> bytes)" where
  "read_obj depth bs =
     (if MAX_DEPTH < depth then Inl too_deep
      else case bs of
        [] \<Rightarrow> Inl malformed
      | b # r \<Rightarrow>
        let marker = unat b
        in if 0x80 \<le> marker \<and> marker \<le> 0x8f then read_map (\<lambda>x. read_obj (Suc depth) x) (marker mod 16) r
           else if 0x90 \<le> marker \<and> marker \<le> 0x9f then read_array (\<lambda>x. read_obj (Suc depth) x) (marker mod 16) r
           else if marker = 0xdc then sized 2 (read_array (\<lambda>x. read_obj (Suc depth) x)) r
           else if marker = 0xdd then sized 4 (read_array (\<lambda>x. read_obj (Suc depth) x)) r
           else if marker = 0xde then sized 2 (read_map (\<lambda>x. read_obj (Suc depth) x)) r
           else if marker = 0xdf then sized 4 (read_map (\<lambda>x. read_obj (Suc depth) x)) r
           else read_scalar marker r)"
  by pat_completeness auto
termination
  by (relation "measure (\<lambda>(depth, _). 129 - depth)") (auto simp: MAX_DEPTH_def)

declare read_obj.simps [simp del]

definition mp_decode :: "bytes \<Rightarrow> exc + pyval" where
  "mp_decode bs = bindE (read_obj 0 bs) (\<lambda>(v, _). Inr v)"

definition msgpack :: codec where
  "msgpack = \<lparr>encode = mp_encode, decode = mp_decode\<rparr>"

end
