(* ===== verification/Graph.thy ===== *)
theory Graph
  imports Condition Codec
begin

text \<open>
  The handoff graph (\<open>rust/src/graph.rs\<close>), the conversion of Python values to msgpack values it
  uses (\<open>py_to_value\<close> of \<open>rust/src/codec.rs\<close>) and \<open>handoff_router\<close> of the LangGraph adapter. A
  routing state is a Python value; what reading a key or an attribute of an instance of another
  class does is a parameter (\<open>objects\<close>). The hash maps are lists of pairs and the set of nodes is
  a list; the laws are proved for every order of them. A panic is an error value.
\<close>

section \<open>Python values as msgpack values\<close>

function py_to_value_at :: "nat \<Rightarrow> pyval \<Rightarrow> exc + mvalue" where
  "py_to_value_at depth obj =
     (if MAX_DEPTH < depth then Inl too_deep
      else case obj of
        PNone \<Rightarrow> Inr VNil
      | PBool b \<Rightarrow> Inr (VBool b)
      | PInt i \<Rightarrow> if i64_ok i \<or> u64_ok i then Inr (VInt i) else Inl int_out_of_range
      | PFloat f \<Rightarrow> Inr (VF64 f)
      | PStr s \<Rightarrow> if is_text s then Inr (VStr s) else Inl UnicodeError
      | PBytes b \<Rightarrow> Inr (VBin b)
      | PDict d \<Rightarrow> bindE (mapE (\<lambda>(k, v). bindE (py_to_value_at (Suc depth) k) (\<lambda>k'.
            bindE (py_to_value_at (Suc depth) v) (\<lambda>v'. Inr (k', v')))) d) (\<lambda>pairs. Inr (VMap pairs))
      | PList xs \<Rightarrow> bindE (mapE (\<lambda>x. py_to_value_at (Suc depth) x) xs) (\<lambda>items. Inr (VArr items))
      | PTuple xs \<Rightarrow> bindE (mapE (\<lambda>x. py_to_value_at (Suc depth) x) xs) (\<lambda>items. Inr (VArr items))
      | PObj _ \<Rightarrow> Inl TypeError)"
  by pat_completeness auto
termination
  by (relation "measure (\<lambda>(depth, _). 129 - depth)") (auto simp: MAX_DEPTH_def)

declare py_to_value_at.simps [simp del]

definition py_to_value :: "pyval \<Rightarrow> exc + mvalue" where
  "py_to_value obj = py_to_value_at 0 obj"

section \<open>Reading the routing state\<close>

record objects =
  ob_mapping :: "nat \<Rightarrow> bool"
  ob_getitem :: "nat \<Rightarrow> pystr \<Rightarrow> exc + pyval"
  ob_getattr :: "nat \<Rightarrow> pystr \<Rightarrow> exc + pyval"

text \<open>The value of a lookup whose error \<open>missing\<close> means that there is none.\<close>

definition found_or :: "exc \<Rightarrow> exc + 'a \<Rightarrow> exc + 'a option" where
  "found_or missing r =
     (case r of Inr v \<Rightarrow> Inr (Some v) | Inl e \<Rightarrow> if e = missing then Inr None else Inl e)"

definition child :: "objects \<Rightarrow> pyval \<Rightarrow> pystr \<Rightarrow> exc + pyval option" where
  "child ob obj segment =
     (case obj of
        PDict d \<Rightarrow> Inr (dget d (PStr segment))
      | PObj n \<Rightarrow>
          (if ob_mapping ob n then found_or KeyError (ob_getitem ob n segment)
           else if startswith segment [95] then Inr None
           else found_or AttributeError (ob_getattr ob n segment))
      | _ \<Rightarrow> Inr None)"

fun resolve_path :: "objects \<Rightarrow> pyval \<Rightarrow> pystr list \<Rightarrow> exc + pyval option" where
  "resolve_path ob current [] = Inr (Some current)"
| "resolve_path ob current (segment # path) =
     bindE (child ob current segment) (\<lambda>r.
       case r of Some value \<Rightarrow> resolve_path ob value path | None \<Rightarrow> Inr None)"

text \<open>The pairs with the value of the first key \<open>seg\<close> replaced.\<close>

fun set_key :: "pystr \<Rightarrow> mvalue \<Rightarrow> (mvalue \<times> mvalue) list \<Rightarrow> (mvalue \<times> mvalue) list" where
  "set_key seg v [] = []"
| "set_key seg v ((k, x) # pairs) = (if k = VStr seg then (k, v) # pairs else (k, x) # set_key seg v pairs)"

text \<open>\<open>insert_path\<close>; \<open>path[0]\<close> of an empty path is a panic.\<close>

fun insert_path ::
  "(mvalue \<times> mvalue) list \<Rightarrow> pystr list \<Rightarrow> mvalue \<Rightarrow> exc + (mvalue \<times> mvalue) list" where
  "insert_path pairs [] leaf = Inl IndexError"
| "insert_path pairs (seg # path) leaf =
     (if path = [] then Inr (pairs @ [(VStr seg, leaf)])
      else case find_key seg pairs of
        Some (VMap inner) \<Rightarrow>
          bindE (insert_path inner path leaf) (\<lambda>inner'. Inr (set_key seg (VMap inner') pairs))
      | Some _ \<Rightarrow> Inr pairs
      | None \<Rightarrow>
          bindE (insert_path [] path leaf) (\<lambda>inner'. Inr (pairs @ [(VStr seg, VMap inner')])))"

section \<open>The graph\<close>

record edge =
  e_to :: pystr
  e_when :: "pystr option"
  e_cond :: "expr option"

record graph =
  g_adj :: "(pystr, edge list) dict"
  g_nodes :: "pystr list"
  g_on_cycle :: pystr
  g_node_paths :: "(pystr, pystr list list) dict"

definition drop_covered_paths :: "pystr list list \<Rightarrow> pystr list list" where
  "drop_covered_paths paths =
     fold (\<lambda>path kept. if list_ex (\<lambda>k. take (length k) path = k) kept then kept else kept @ [path])
       (sort_key length paths) []"

definition out_edges :: "graph \<Rightarrow> pystr \<Rightarrow> edge list" where
  "out_edges g n = the_default [] (dget (g_adj g) n)"

text \<open>
  The search of \<open>would_create_cycle\<close>, from the node on top of the stack; the targets of a node
  are pushed in order, so that the last one is on top.
\<close>

function cycle_search :: "graph \<Rightarrow> pystr \<Rightarrow> pystr list \<Rightarrow> pystr list \<Rightarrow> bool" where
  "cycle_search g src [] seen = False"
| "cycle_search g src (n # stack) seen =
     (if n = src then True
      else if n \<in> set seen then cycle_search g src stack seen
      else cycle_search g src (rev (map e_to (out_edges g n)) @ stack) (n # seen))"
  by pat_completeness auto

lemma out_edges_key: "out_edges g n \<noteq> [] \<Longrightarrow> n \<in> set (dkeys (g_adj g))"
  using dget_None_iff [of "g_adj g" n] by (auto simp: out_edges_def)

lemma card_unseen_le: "card (set ks - insert n (set seen)) \<le> card (set ks - set seen)"
  by (rule card_mono) auto

lemma card_unseen_less:
  "n \<in> set ks \<Longrightarrow> n \<notin> set seen \<Longrightarrow> card (set ks - insert n (set seen)) < card (set ks - set seen)"
  by (intro psubset_card_mono) auto

termination cycle_search
proof (relation "measures [\<lambda>(g, src, stack, seen). card (set (dkeys (g_adj g)) - set seen),
    \<lambda>(g, src, stack, seen). length stack]", goal_cases)
  case (3 g src n stack seen)
  show ?case
  proof (cases "out_edges g n = []")
    case True
    then show ?thesis using card_unseen_le [of "dkeys (g_adj g)" n seen] by auto
  next
    case False
    then show ?thesis using card_unseen_less [OF out_edges_key [OF False] 3(2)] by simp
  qed
qed auto

definition would_create_cycle :: "graph \<Rightarrow> pystr \<Rightarrow> pystr \<Rightarrow> bool" where
  "would_create_cycle g src to = (if src = to then True else cycle_search g src [to] [])"

definition cond_paths :: "edge list \<Rightarrow> pystr list list" where
  "cond_paths es = fold (\<lambda>e out. case e_cond e of Some c \<Rightarrow> collect_paths c out | None \<Rightarrow> out) es []"

definition refresh_paths :: "pystr \<Rightarrow> graph \<Rightarrow> graph" where
  "refresh_paths node g =
     (let paths = cond_paths (out_edges g node)
      in g\<lparr>g_node_paths := dset node (drop_covered_paths paths) (g_node_paths g)\<rparr>)"

fun fill_paths ::
  "objects \<Rightarrow> pyval \<Rightarrow> pystr list list \<Rightarrow> (mvalue \<times> mvalue) list \<Rightarrow> exc + (mvalue \<times> mvalue) list" where
  "fill_paths ob state [] pairs = Inr pairs"
| "fill_paths ob state (path # paths) pairs =
     bindE (resolve_path ob state path) (\<lambda>r.
       case r of
         None \<Rightarrow> fill_paths ob state paths pairs
       | Some value \<Rightarrow> bindE (py_to_value value) (\<lambda>leaf.
           bindE (insert_path pairs path leaf) (fill_paths ob state paths)))"

definition partial_state :: "objects \<Rightarrow> graph \<Rightarrow> pystr \<Rightarrow> pyval \<Rightarrow> exc + mvalue" where
  "partial_state ob g node state =
     bindE (fill_paths ob state (the_default [] (dget (g_node_paths g) node)) []) (\<lambda>pairs. Inr (VMap pairs))"

section \<open>Operations\<close>

definition graph_new :: "pystr \<Rightarrow> exc + graph" where
  "graph_new on_cycle =
     (if on_cycle \<noteq> lit ''error'' \<and> on_cycle \<noteq> lit ''allow''
      then Inl (ValueError ''on_cycle must be error or allow'')
      else Inr \<lparr>g_adj = [], g_nodes = [], g_on_cycle = on_cycle, g_node_paths = []\<rparr>)"

text \<open>\<open>HashSet::insert\<close>.\<close>

definition add_node :: "pystr \<Rightarrow> graph \<Rightarrow> graph" where
  "add_node name g = g\<lparr>g_nodes := (if name \<in> set (g_nodes g) then g_nodes g else g_nodes g @ [name])\<rparr>"

definition parse_when :: "unicode \<Rightarrow> pystr option \<Rightarrow> exc + expr option" where
  "parse_when U when =
     (case when of None \<Rightarrow> Inr None | Some src \<Rightarrow> bindE (parse U src) (\<lambda>c. Inr (Some c)))"

definition add_edge :: "unicode \<Rightarrow> pystr \<Rightarrow> pystr \<Rightarrow> pystr option \<Rightarrow> graph \<Rightarrow> exc + graph" where
  "add_edge U from_node to when g =
     bindE (parse_when U when) (\<lambda>cond.
       if g_on_cycle g = lit ''error'' \<and> would_create_cycle g from_node to
       then Inl (ValueError ''would create a cycle'')
       else let g1 = add_node to (add_node from_node g);
                e = \<lparr>e_to = to, e_when = when, e_cond = cond\<rparr>;
                g2 = g1\<lparr>g_adj := dset from_node (out_edges g1 from_node @ [e]) (g_adj g1)\<rparr>
            in Inr (refresh_paths from_node g2))"

text \<open>The loop of \<open>route\<close> over the edges of a node.\<close>

definition edge_matches :: "mvalue \<Rightarrow> edge \<Rightarrow> bool" where
  "edge_matches state e = (case e_cond e of None \<Rightarrow> True | Some c \<Rightarrow> eval_truthy c state)"

fun first_match :: "mvalue \<Rightarrow> edge list \<Rightarrow> pystr option" where
  "first_match state [] = None"
| "first_match state (e # es) = (if edge_matches state e then Some (e_to e) else first_match state es)"

definition route :: "objects \<Rightarrow> graph \<Rightarrow> pystr \<Rightarrow> pyval option \<Rightarrow> exc + pystr option" where
  "route ob g node state =
     bindE (case state of None \<Rightarrow> Inr (VMap []) | Some obj \<Rightarrow> partial_state ob g node obj) (\<lambda>v.
       Inr (first_match v (out_edges g node)))"

definition graph_nodes :: "graph \<Rightarrow> pystr list" where
  "graph_nodes g = sort (g_nodes g)"

definition graph_edges :: "graph \<Rightarrow> pystr \<Rightarrow> (pystr \<times> pystr option) list" where
  "graph_edges g node = map (\<lambda>e. (e_to e, e_when e)) (out_edges g node)"

definition has_node :: "graph \<Rightarrow> pystr \<Rightarrow> bool" where
  "has_node g node \<longleftrightarrow> node \<in> set (g_nodes g)"

definition graph_len :: "graph \<Rightarrow> nat" where
  "graph_len g = length (g_nodes g)"

section \<open>Topological sorting\<close>

text \<open>\<open>is_dag\<close>: the indegrees, the stack of nodes without a predecessor left, and the loop.\<close>

definition all_targets :: "graph \<Rightarrow> pystr list" where
  "all_targets g = concat (map (\<lambda>(n, es). map e_to es) (g_adj g))"

definition indegrees :: "graph \<Rightarrow> (pystr, nat) dict" where
  "indegrees g = fold (\<lambda>t m. dset t (the_default 0 (dget m t) + 1) m) (all_targets g)
     (map (\<lambda>n. (n, 0)) (g_nodes g))"

text \<open>The loop over the edges of a settled node; a decrement of zero overflows.\<close>

fun relax :: "pystr list \<Rightarrow> (pystr, nat) dict \<Rightarrow> pystr list \<Rightarrow> exc + ((pystr, nat) dict \<times> pystr list)" where
  "relax [] m ready = Inr (m, ready)"
| "relax (t # ts) m ready =
     (case dget m t of
        None \<Rightarrow> relax ts m ready
      | Some d \<Rightarrow> if d = 0 then Inl RuntimeError
                  else relax ts (dset t (d - 1) m) (if d - 1 = 0 then t # ready else ready))"

lemma relax_measure:
  "relax ts m ready = Inr (m', ready') \<Longrightarrow> dsum id m' + length ready' \<le> dsum id m + length ready"
proof (induction ts m ready rule: relax.induct)
  case (2 t ts m ready)
  show ?case
  proof (cases "dget m t")
    case None
    then show ?thesis using 2 by simp
  next
    case (Some d)
    then have "d \<noteq> 0" using 2(3) by (auto split: if_splits)
    moreover have "dsum id (dset t (d - 1) m) + d = dsum id m + (d - 1)"
      using dsum_dset [of id t "d - 1" m] Some by simp
    ultimately show ?thesis using 2(2) [OF Some] 2(3) Some by (auto simp: id_def split: if_splits)
  qed
qed simp

function settle :: "graph \<Rightarrow> (pystr, nat) dict \<Rightarrow> pystr list \<Rightarrow> nat \<Rightarrow> exc + nat" where
  "settle g m [] settled = Inr settled"
| "settle g m (n # ready) settled =
     bindE (relax (map e_to (out_edges g n)) m ready) (\<lambda>(m', ready'). settle g m' ready' (settled + 1))"
  by pat_completeness auto
termination
  by (relation "measure (\<lambda>(g, m, ready, settled). dsum id m + length ready)")
    (auto dest!: relax_measure)

definition is_dag :: "graph \<Rightarrow> exc + bool" where
  "is_dag g =
     (let m = indegrees g; ready = map fst (filter (\<lambda>(n, d). d = 0) m)
      in bindE (settle g m (rev ready) 0) (\<lambda>settled. Inr (settled = length m)))"

section \<open>The router\<close>

text \<open>\<open>END\<close> is LangGraph's name of the end; a state \<open>None\<close> is an argument left out.\<close>

definition handoff_router ::
  "pystr \<Rightarrow> objects \<Rightarrow> graph \<Rightarrow> pystr \<Rightarrow> pystr option \<Rightarrow> pyval \<Rightarrow> exc + pystr" where
  "handoff_router END ob g node dflt state =
     (let fallback = the_default END dflt
      in bindE (route ob g node (if state = PNone then None else Some state)) (\<lambda>target.
           Inr (case target of None \<Rightarrow> fallback | Some t \<Rightarrow> t)))"

end
