(* ===== verification/Graph_Cycles.thy ===== *)
theory Graph_Cycles
  imports Graph Condition_Laws
begin

text \<open>
  The edges of the graph as a relation, the invariant of the graphs the operations build, the
  search for a path (\<open>would_create_cycle\<close>) and the topological sort (\<open>is_dag\<close>) against the
  relation.
\<close>

section \<open>Edges\<close>

definition edge_rel :: "graph \<Rightarrow> (pystr \<times> pystr) set" where
  "edge_rel g = {(a, e_to e) | a e. e \<in> set (out_edges g a)}"

lemma edge_rel_iff: "(a, b) \<in> edge_rel g \<longleftrightarrow> b \<in> e_to ` set (out_edges g a)"
  by (auto simp: edge_rel_def)

section \<open>The search\<close>

text \<open>From a set closed under edges up to the stack, the source is reached through the stack.\<close>

lemma leaves_through_stack:
  assumes "(n, src) \<in> (edge_rel g)\<^sup>*" and "n \<in> seen" and "src \<notin> seen"
    and "edge_rel g `` seen \<subseteq> seen \<union> stack"
  shows "\<exists>m \<in> stack. (m, src) \<in> (edge_rel g)\<^sup>*"
  using assms by (induction rule: converse_rtrancl_induct) (auto intro: converse_rtrancl_into_rtrancl)

lemma cycle_search_reach:
  "src \<notin> set seen \<Longrightarrow> edge_rel g `` set seen \<subseteq> set seen \<union> set stack \<Longrightarrow>
   cycle_search g src stack seen \<longleftrightarrow> (\<exists>n \<in> set stack. (n, src) \<in> (edge_rel g)\<^sup>*)"
proof (induction g src stack seen rule: cycle_search.induct)
  case (2 g src n stack seen)
  consider (hit) "n = src" | (seen) "n \<noteq> src" "n \<in> set seen" | (new) "n \<noteq> src" "n \<notin> set seen" by blast
  then show ?case
  proof cases
    case hit
    then show ?thesis by auto
  next
    case seen
    have cl: "edge_rel g `` set seen \<subseteq> set seen \<union> set stack" using 2(4) seen(2) by auto
    have "cycle_search g src (n # stack) seen \<longleftrightarrow> (\<exists>n \<in> set stack. (n, src) \<in> (edge_rel g)\<^sup>*)"
      using 2(1) [OF seen 2(3) cl] seen by simp
    then show ?thesis using leaves_through_stack [OF _ seen(2) 2(3) cl] by auto
  next
    case new
    let ?stack = "rev (map e_to (out_edges g n)) @ stack"
    have cl: "edge_rel g `` set (n # seen) \<subseteq> set (n # seen) \<union> set ?stack"
    proof -
      have "edge_rel g `` set (n # seen) = e_to ` set (out_edges g n) \<union> edge_rel g `` set seen"
        by (auto simp: edge_rel_iff Image_iff)
      then show ?thesis using 2(4) by auto
    qed
    have src: "src \<notin> set (n # seen)" using 2(3) new by auto
    have "cycle_search g src (n # stack) seen \<longleftrightarrow> (\<exists>m \<in> set ?stack. (m, src) \<in> (edge_rel g)\<^sup>*)"
      using 2(2) [OF new src cl] new by simp
    moreover have "(n, src) \<in> (edge_rel g)\<^sup>* \<longleftrightarrow> (\<exists>m \<in> e_to ` set (out_edges g n). (m, src) \<in> (edge_rel g)\<^sup>*)"
    proof
      assume "(n, src) \<in> (edge_rel g)\<^sup>*"
      then obtain m where "(n, m) \<in> edge_rel g" "(m, src) \<in> (edge_rel g)\<^sup>*"
        using new(1) by (meson converse_rtranclE)
      then show "\<exists>m \<in> e_to ` set (out_edges g n). (m, src) \<in> (edge_rel g)\<^sup>*"
        unfolding edge_rel_iff by blast
    next
      assume "\<exists>m \<in> e_to ` set (out_edges g n). (m, src) \<in> (edge_rel g)\<^sup>*"
      then obtain m where "(n, m) \<in> edge_rel g" "(m, src) \<in> (edge_rel g)\<^sup>*"
        unfolding edge_rel_iff by blast
      then show "(n, src) \<in> (edge_rel g)\<^sup>*" by (rule converse_rtrancl_into_rtrancl)
    qed
    ultimately show ?thesis by auto
  qed
qed simp

lemma would_create_cycle_iff: "would_create_cycle g src to \<longleftrightarrow> (to, src) \<in> (edge_rel g)\<^sup>*"
  using cycle_search_reach [of src "[]" g "[to]"] by (auto simp: would_create_cycle_def)

section \<open>The invariant\<close>

fun edge_ok :: "unicode \<Rightarrow> edge \<Rightarrow> bool" where
  "edge_ok U e = (case e_when e of None \<Rightarrow> e_cond e = None
      | Some src \<Rightarrow> (case parse U src of Inl _ \<Rightarrow> False | Inr c \<Rightarrow> e_cond e = Some c))"

definition graph_ok :: "unicode \<Rightarrow> graph \<Rightarrow> bool" where
  "graph_ok U g \<longleftrightarrow> dict_ok (g_adj g) \<and> distinct (g_nodes g)
     \<and> (\<forall>n. \<forall>e \<in> set (out_edges g n). edge_ok U e \<and> n \<in> set (g_nodes g) \<and> e_to e \<in> set (g_nodes g))
     \<and> (\<forall>n. the_default [] (dget (g_node_paths g) n) = drop_covered_paths (cond_paths (out_edges g n)))
     \<and> (g_on_cycle g = lit ''error'' \<or> g_on_cycle g = lit ''allow'')
     \<and> (g_on_cycle g = lit ''error'' \<longrightarrow> acyclic (edge_rel g))"

text \<open>The operations as steps; a failing \<open>add_edge\<close> leaves the graph as it is.\<close>

inductive graph_step :: "unicode \<Rightarrow> graph \<Rightarrow> graph \<Rightarrow> bool" for U where
  step_node: "graph_step U g (add_node name g)"
| step_edge: "add_edge U a b when g = Inr g' \<Longrightarrow> graph_step U g g'"

inductive graph_reachable :: "unicode \<Rightarrow> graph \<Rightarrow> bool" for U where
  reach_new: "graph_new c = Inr g \<Longrightarrow> graph_reachable U g"
| reach_step: "graph_reachable U g \<Longrightarrow> graph_step U g g' \<Longrightarrow> graph_reachable U g'"

inductive_cases graph_stepE: "graph_step U g g'"

lemma add_node_simps [simp]:
  "g_adj (add_node n g) = g_adj g" "g_on_cycle (add_node n g) = g_on_cycle g"
  "g_node_paths (add_node n g) = g_node_paths g" "set (g_nodes (add_node n g)) = insert n (set (g_nodes g))"
  "out_edges (add_node n g) = out_edges g" "edge_rel (add_node n g) = edge_rel g"
  "distinct (g_nodes (add_node n g)) = distinct (g_nodes g)"
  by (auto simp: add_node_def out_edges_def edge_rel_def)

lemma add_node_ok: "graph_ok U g \<Longrightarrow> graph_ok U (add_node n g)"
  by (auto simp: graph_ok_def)

lemma graph_new_ok: "graph_new c = Inr g \<Longrightarrow> graph_ok U g"
  by (auto simp: graph_new_def graph_ok_def out_edges_def edge_rel_def drop_covered_paths_def cond_paths_def
      acyclic_def simp del: lit_simps split: if_splits)

lemma parse_when_ok:
  "parse_when U w = Inr c \<Longrightarrow> edge_ok U \<lparr>e_to = b, e_when = w, e_cond = c\<rparr>"
  by (cases w) (auto simp: parse_when_def bindE_eq_Inr)

lemma add_edge_Inr:
  assumes "add_edge U a b w g = Inr g'"
  obtains c where "parse_when U w = Inr c"
    and "g_on_cycle g = lit ''error'' \<longrightarrow> (b, a) \<notin> (edge_rel g)\<^sup>*"
    and "g_adj g' = dset a (out_edges g a @ [\<lparr>e_to = b, e_when = w, e_cond = c\<rparr>]) (g_adj g)"
    and "set (g_nodes g') = insert a (insert b (set (g_nodes g)))"
    and "distinct (g_nodes g') = distinct (g_nodes g)" and "g_on_cycle g' = g_on_cycle g"
    and "g_node_paths g' = dset a (drop_covered_paths (cond_paths (out_edges g' a))) (g_node_paths g)"
proof -
  let ?g1 = "add_node b (add_node a g)"
  obtain c where c: "parse_when U w = Inr c"
    and guard: "\<not> (g_on_cycle g = lit ''error'' \<and> would_create_cycle g a b)"
    and g': "g' = refresh_paths a (?g1\<lparr>g_adj := dset a (out_edges ?g1 a @ [\<lparr>e_to = b, e_when = w, e_cond = c\<rparr>]) (g_adj ?g1)\<rparr>)"
    using assms by (auto simp: add_edge_def bindE_eq_Inr Let_def simp del: lit_simps split: if_splits)
  show thesis
    by (rule that [OF c])
      (use guard in \<open>auto simp: g' refresh_paths_def Let_def would_create_cycle_iff out_edges_def simp del: lit_simps\<close>)
qed

lemma add_edge_ok:
  assumes "graph_ok U g" and "add_edge U a b w g = Inr g'"
  shows "graph_ok U g'" and "edge_rel g' = insert (a, b) (edge_rel g)"
proof -
  obtain c where c: "parse_when U w = Inr c"
    and guard: "g_on_cycle g = lit ''error'' \<longrightarrow> (b, a) \<notin> (edge_rel g)\<^sup>*"
    and adj: "g_adj g' = dset a (out_edges g a @ [\<lparr>e_to = b, e_when = w, e_cond = c\<rparr>]) (g_adj g)"
    and nodes: "set (g_nodes g') = insert a (insert b (set (g_nodes g)))" "distinct (g_nodes g') = distinct (g_nodes g)"
    and oc: "g_on_cycle g' = g_on_cycle g"
    and paths: "g_node_paths g' = dset a (drop_covered_paths (cond_paths (out_edges g' a))) (g_node_paths g)"
    using add_edge_Inr [OF assms(2)] by blast
  have out: "out_edges g' n = (if n = a then out_edges g a @ [\<lparr>e_to = b, e_when = w, e_cond = c\<rparr>] else out_edges g n)" for n
    by (simp add: out_edges_def adj dget_dset)
  show rel: "edge_rel g' = insert (a, b) (edge_rel g)"
    by (auto simp: edge_rel_iff out split: if_splits)
  note ok = assms(1) [unfolded graph_ok_def]
  show "graph_ok U g'"
    unfolding graph_ok_def
  proof (intro conjI)
    show "dict_ok (g_adj g')" "distinct (g_nodes g')" using ok by (simp_all add: adj nodes(2))
    show "\<forall>n. \<forall>e \<in> set (out_edges g' n). edge_ok U e \<and> n \<in> set (g_nodes g') \<and> e_to e \<in> set (g_nodes g')"
      using ok parse_when_ok [OF c, of b] unfolding out nodes(1) by (auto simp del: edge_ok.simps)
    show "\<forall>n. the_default [] (dget (g_node_paths g') n) = drop_covered_paths (cond_paths (out_edges g' n))"
      using ok by (simp add: paths dget_dset out)
    show "g_on_cycle g' = lit ''error'' \<or> g_on_cycle g' = lit ''allow''" using ok by (simp only: oc)
    show "g_on_cycle g' = lit ''error'' \<longrightarrow> acyclic (edge_rel g')"
      using ok guard by (simp only: oc rel acyclic_insert) blast
  qed
qed

lemma graph_reachable_ok: "graph_reachable U g \<Longrightarrow> graph_ok U g"
proof (induction rule: graph_reachable.induct)
  case (reach_new c g)
  then show ?case by (rule graph_new_ok)
next
  case (reach_step g g')
  from reach_step.hyps(2) show ?case
  proof (cases rule: graph_step.cases)
    case (step_node name)
    then show ?thesis using add_node_ok [OF reach_step.IH] by simp
  next
    case (step_edge a b w)
    then show ?thesis by (rule add_edge_ok(1) [OF reach_step.IH])
  qed
qed

section \<open>The topological sort\<close>

text \<open>The edges into a node from nodes that are not settled.\<close>

definition pending :: "graph \<Rightarrow> pystr set \<Rightarrow> pystr \<Rightarrow> nat" where
  "pending g S v = sum_list (map (\<lambda>(u, es). if u \<in> S then 0 else count_list (map e_to es) v) (g_adj g))"

lemma count_concat: "count_list (concat xss) v = sum_list (map (\<lambda>xs. count_list xs v) xss)"
  by (induction xss) (auto simp: count_list_append)

lemma pending_empty: "pending g {} v = count_list (all_targets g) v"
  by (simp add: pending_def all_targets_def count_concat case_prod_unfold o_def)

lemma adj_edges: "dict_ok (g_adj g) \<Longrightarrow> (u, es) \<in> set (g_adj g) \<Longrightarrow> out_edges g u = es"
  by (simp add: out_edges_def dget_iff_in_set [symmetric])

lemma out_edges_adj: "out_edges g u \<noteq> [] \<Longrightarrow> (u, out_edges g u) \<in> set (g_adj g)"
  by (cases "dget (g_adj g) u") (auto simp: out_edges_def dget_in_set)

lemma count_pos: "0 < count_list xs v \<longleftrightarrow> v \<in> set xs"
  by (metis count_list_0_iff neq0_conv)

lemma pending_zero:
  assumes "dict_ok (g_adj g)"
  shows "pending g S v = 0 \<longleftrightarrow> (\<forall>u. (u, v) \<in> edge_rel g \<longrightarrow> u \<in> S)"
proof -
  have "pending g S v = 0 \<longleftrightarrow> (\<forall>(u, es) \<in> set (g_adj g). u \<notin> S \<longrightarrow> v \<notin> e_to ` set es)"
    by (auto simp: pending_def count_list_0_iff split: if_splits)
  also have "\<dots> \<longleftrightarrow> (\<forall>u. v \<in> e_to ` set (out_edges g u) \<longrightarrow> u \<in> S)"
  proof (intro iffI allI impI)
    fix u assume l: "\<forall>(u, es) \<in> set (g_adj g). u \<notin> S \<longrightarrow> v \<notin> e_to ` set es"
      and v: "v \<in> e_to ` set (out_edges g u)"
    then have "(u, out_edges g u) \<in> set (g_adj g)" by (intro out_edges_adj) auto
    then show "u \<in> S" using l v by blast
  next
    assume r: "\<forall>u. v \<in> e_to ` set (out_edges g u) \<longrightarrow> u \<in> S"
    then show "\<forall>(u, es) \<in> set (g_adj g). u \<notin> S \<longrightarrow> v \<notin> e_to ` set es"
      using adj_edges [OF assms] by blast
  qed
  finally show ?thesis by (simp add: edge_rel_iff)
qed

lemma sum_list_split:
  "distinct (map fst xs) \<Longrightarrow> n \<notin> S \<Longrightarrow>
   sum_list (map (\<lambda>(u, es). if u \<in> insert n S then 0 else h es) xs) + (case map_of xs n of None \<Rightarrow> 0 | Some es \<Rightarrow> h es)
   = sum_list (map (\<lambda>(u, es). if u \<in> S then 0 else (h es :: nat)) xs)"
proof (induction xs)
  case (Cons x xs)
  obtain u es where x: "x = (u, es)" by fastforce
  show ?case
  proof (cases "u = n")
    case True
    then have "map_of xs n = None" using Cons.prems x by (simp add: map_of_eq_None_iff)
    then show ?thesis using Cons True x by simp
  next
    case False
    then show ?thesis using Cons x by simp
  qed
qed simp

lemma pending_insert:
  assumes "dict_ok (g_adj g)" and "n \<notin> S"
  shows "pending g (insert n S) v + count_list (map e_to (out_edges g n)) v = pending g S v"
  using sum_list_split [of "g_adj g" n S "\<lambda>es. count_list (map e_to es) v"] assms
  by (simp add: pending_def out_edges_def dict_ok_def split: option.splits)

lemma relax_spec:
  "\<forall>t \<in> set ts. dget m t \<noteq> None \<Longrightarrow> \<forall>v d. dget m v = Some d \<longrightarrow> count_list ts v \<le> d \<Longrightarrow>
   \<exists>m' new. relax ts m ready = Inr (m', new @ ready) \<and> distinct new
     \<and> (\<forall>v. dget m' v = map_option (\<lambda>d. d - count_list ts v) (dget m v))
     \<and> set new = {v \<in> set ts. dget m v = Some (count_list ts v)}"
proof (induction ts arbitrary: m ready)
  case (Cons t ts)
  obtain d where d: "dget m t = Some d" using Cons.prems(1) by auto
  have d1: "count_list ts t < d" using Cons.prems(2) d by fastforce
  let ?m = "dset t (d - 1) m" and ?r = "if d - 1 = 0 then t # ready else ready"
  obtain m' new where IH: "relax ts ?m ?r = Inr (m', new @ ?r)" "distinct new"
    "\<forall>v. dget m' v = map_option (\<lambda>d. d - count_list ts v) (dget ?m v)"
    "set new = {v \<in> set ts. dget ?m v = Some (count_list ts v)}"
  proof (rule exE [OF Cons.IH [of ?m ?r]])
    show "\<forall>x \<in> set ts. dget ?m x \<noteq> None" using Cons.prems(1) by (simp add: dget_dset)
    show "\<forall>v x. dget ?m v = Some x \<longrightarrow> count_list ts v \<le> x"
    proof (intro allI impI)
      fix v x assume x: "dget ?m v = Some x"
      show "count_list ts v \<le> x"
      proof (cases "v = t")
        case True
        then show ?thesis using x d1 by (simp add: dget_dset)
      next
        case False
        then show ?thesis using x Cons.prems(2) [rule_format, of v x] by (simp add: dget_dset)
      qed
    qed
  qed blast
  let ?new = "if d - 1 = 0 then new @ [t] else new"
  have "relax (t # ts) m ready = Inr (m', ?new @ ready)" using d d1 IH(1) by auto
  moreover have "t \<notin> set ts" if "d - 1 = 0" using d1 that count_pos [of ts t] by auto
  then have "distinct ?new" using IH(2,4) by auto
  moreover have "\<forall>v. dget m' v = map_option (\<lambda>d. d - count_list (t # ts) v) (dget m v)"
    using IH(3) d d1 by (auto simp: dget_dset)
  moreover have "set ?new = {v \<in> set (t # ts). dget m v = Some (count_list (t # ts) v)}"
  proof (intro set_eqI iffI)
    fix v assume "v \<in> set ?new"
    then show "v \<in> {v \<in> set (t # ts). dget m v = Some (count_list (t # ts) v)}"
      using IH(4) d d1 count_pos [of ts t] by (auto simp: dget_dset split: if_splits)
  next
    fix v assume "v \<in> {v \<in> set (t # ts). dget m v = Some (count_list (t # ts) v)}"
    then have v: "v \<in> set (t # ts)" "dget m v = Some (count_list (t # ts) v)" by auto
    show "v \<in> set ?new"
    proof (cases "v = t")
      case True
      then have "d = Suc (count_list ts t)" using v(2) d by simp
      then show ?thesis using True IH(4) count_pos [of ts t] by (auto simp: dget_dset)
    next
      case False
      then have "v \<in> set new" using v IH(4) by (simp add: dget_dset)
      then show ?thesis by simp
    qed
  qed
  ultimately show ?case by blast
qed (simp add: option.map_ident)

text \<open>
  The state of the loop: \<open>S\<close> are the settled nodes and \<open>f\<close> their order. The stack holds the other
  nodes without a pending edge.
\<close>

definition settling ::
  "graph \<Rightarrow> pystr set \<Rightarrow> (pystr, nat) dict \<Rightarrow> pystr list \<Rightarrow> pystr set \<Rightarrow> (pystr \<Rightarrow> nat) \<Rightarrow> bool" where
  "settling g D m ready S f \<longleftrightarrow>
     finite S \<and> distinct ready \<and> set ready \<inter> S = {}
     \<and> (\<forall>v. dget m v = (if v \<in> D then Some (pending g S v) else None))
     \<and> S \<union> set ready = {v \<in> D. pending g S v = 0}
     \<and> (\<forall>u v. (u, v) \<in> edge_rel g \<longrightarrow> v \<in> S \<longrightarrow> f u < f v) \<and> (\<forall>v \<in> S. f v < card S)"

lemma settling_step:
  assumes ok: "dict_ok (g_adj g)" and E: "edge_rel g \<subseteq> D \<times> D" and inv: "settling g D m (n # ready) S f"
  shows "\<exists>m' new. relax (map e_to (out_edges g n)) m ready = Inr (m', new @ ready)
     \<and> settling g D m' (new @ ready) (insert n S) (f(n := card S)) \<and> card (insert n S) = Suc (card S)"
proof -
  note inv = inv [unfolded settling_def]
  let ?ts = "map e_to (out_edges g n)"
  have n: "n \<notin> S" "n \<in> D" "pending g S n = 0" "finite S" "n \<notin> set ready" using inv by auto
  have m: "dget m v = (if v \<in> D then Some (pending g S v) else None)" for v using inv by blast
  have p: "pending g (insert n S) v + count_list ?ts v = pending g S v" for v
    by (rule pending_insert [OF ok n(1)])
  have ts: "t \<in> D" if "t \<in> set ?ts" for t using E that by (auto simp: edge_rel_def)
  obtain m' new where r: "relax ?ts m ready = Inr (m', new @ ready)" "distinct new"
    "\<forall>v. dget m' v = map_option (\<lambda>d. d - count_list ?ts v) (dget m v)"
    "set new = {v \<in> set ?ts. dget m v = Some (count_list ?ts v)}"
  proof (rule exE [OF relax_spec [of ?ts m ready]])
    show "\<forall>t \<in> set ?ts. dget m t \<noteq> None" using ts m by auto
    show "\<forall>v d. dget m v = Some d \<longrightarrow> count_list ?ts v \<le> d"
      using m p by (metis le_add2 option.distinct(1) option.inject)
  qed blast
  have new: "v \<in> set new \<longleftrightarrow> v \<in> D \<and> 0 < pending g S v \<and> pending g (insert n S) v = 0" for v
    using p [of v] ts [of v] count_pos [of ?ts v] unfolding r(4) m by auto
  have zero: "v \<in> S \<union> set (n # ready) \<longleftrightarrow> v \<in> D \<and> pending g S v = 0" for v using inv by blast
  have "settling g D m' (new @ ready) (insert n S) (f(n := card S))"
    unfolding settling_def
  proof (intro conjI)
    have "v \<notin> set ready \<and> v \<notin> insert n S" if "v \<in> set new" for v
      using that zero [of v] unfolding new by auto
    then show "finite (insert n S)" "distinct (new @ ready)" "set (new @ ready) \<inter> insert n S = {}"
      using inv r(2) n by auto
    show "\<forall>v. dget m' v = (if v \<in> D then Some (pending g (insert n S) v) else None)"
    proof
      fix v
      show "dget m' v = (if v \<in> D then Some (pending g (insert n S) v) else None)"
        using r(3) [rule_format, of v] m [of v] p [of v] by auto
    qed
    show "insert n S \<union> set (new @ ready) = {v \<in> D. pending g (insert n S) v = 0}"
    proof (intro set_eqI)
      fix v
      show "v \<in> insert n S \<union> set (new @ ready) \<longleftrightarrow> v \<in> {v \<in> D. pending g (insert n S) v = 0}"
        using new [of v] zero [of v] p [of v] by auto
    qed
    have u: "u \<in> S" if "(u, n) \<in> edge_rel g" for u
      using n(3) that unfolding pending_zero [OF ok] by blast
    have "u \<in> S" if "(u, v) \<in> edge_rel g" "v \<in> S" for u v
      using zero [of v] that unfolding pending_zero [OF ok] by blast
    then show "\<forall>u v. (u, v) \<in> edge_rel g \<longrightarrow> v \<in> insert n S \<longrightarrow> (f(n := card S)) u < (f(n := card S)) v"
      using inv u n(1) by auto
    have "f v < Suc (card S)" if "v \<in> S" for v using inv that by (meson less_SucI)
    then show "\<forall>v \<in> insert n S. (f(n := card S)) v < card (insert n S)" using n by auto
  qed
  then show ?thesis using r(1) n by auto
qed

lemma settle_spec:
  assumes "dict_ok (g_adj g)" and "edge_rel g \<subseteq> D \<times> D"
  shows "settling g D m ready S f \<Longrightarrow>
    \<exists>m' S' f'. settle g m ready (card S) = Inr (card S') \<and> settling g D m' [] S' f'"
proof (induction "dsum id m + length ready" arbitrary: m ready S f rule: less_induct)
  case less
  show ?case
  proof (cases ready)
    case Nil
    then show ?thesis using less.prems by auto
  next
    case (Cons n r)
    obtain m' new where st: "relax (map e_to (out_edges g n)) m r = Inr (m', new @ r)"
      "settling g D m' (new @ r) (insert n S) (f(n := card S))" "card (insert n S) = Suc (card S)"
      using settling_step [OF assms] less.prems Cons by blast
    have "dsum id m' + length (new @ r) < dsum id m + length ready"
      using relax_measure [OF st(1)] Cons by simp
    then show ?thesis using less.hyps [OF _ st(2)] st(1,3) Cons by simp
  qed
qed

lemma fold_count:
  "dget (fold (\<lambda>t m. dset t (the_default 0 (dget m t) + 1) m) ts m) v =
     (if v \<in> set ts \<or> dget m v \<noteq> None then Some (the_default 0 (dget m v) + count_list ts v) else None)"
proof (induction ts arbitrary: m)
  case (Cons t ts)
  show ?case unfolding fold_simps comp_apply Cons by (auto simp: dget_dset count_list_0_iff)
qed auto

lemma indegrees_spec:
  "dget (indegrees g) v = (if v \<in> set (g_nodes g) \<union> set (all_targets g) then Some (count_list (all_targets g) v) else None)"
proof -
  have "dget (map (\<lambda>n. (n, 0)) ns) v = (if v \<in> set ns then Some (0::nat) else None)" for ns
    by (induction ns) auto
  then show ?thesis unfolding indegrees_def fold_count by auto
qed

lemma indegrees_keys: "distinct (g_nodes g) \<Longrightarrow> dict_ok (indegrees g)"
proof -
  have "dict_ok m \<Longrightarrow> dict_ok (fold (\<lambda>t m. dset t (the_default 0 (dget m t) + 1) m) ts m)"
    for ts and m :: "(pystr, nat) dict"
    by (induction ts arbitrary: m) auto
  moreover assume "distinct (g_nodes g)"
  then have "dict_ok (map (\<lambda>n. (n, 0::nat)) (g_nodes g))" by (simp add: dict_ok_def comp_def)
  ultimately show ?thesis by (simp add: indegrees_def)
qed

lemma dict_ok_card: "dict_ok m \<Longrightarrow> length m = card (dom (dget m))"
  unfolding dom_dget dict_ok_def by (metis distinct_card length_map)

lemma settled_all_acyclic:
  assumes "dict_ok (g_adj g)" and "edge_rel g \<subseteq> D \<times> D" and "finite D" and "settling g D m [] S f"
  shows "card S = card D \<longleftrightarrow> acyclic (edge_rel g)"
proof -
  note inv = assms(4) [unfolded settling_def]
  have sub: "S \<subseteq> D" and zero: "\<And>v. v \<in> D \<Longrightarrow> pending g S v = 0 \<Longrightarrow> v \<in> S"
    using inv by auto
  have card: "card S = card D \<longleftrightarrow> S = D" using card_subset_eq [OF assms(3) sub] by blast
  show ?thesis
  proof
    assume "card S = card D"
    then have "S = D" using card by blast
    then have "f u < f v" if "(u, v) \<in> edge_rel g" for u v using inv assms(2) that by blast
    then have "acyclic ((edge_rel g)\<inverse>)" by (intro acyclicI_order [where f = f]) auto
    then show "acyclic (edge_rel g)" by simp
  next
    assume ac: "acyclic (edge_rel g)"
    have "finite (edge_rel g)" using assms(2,3) finite_subset by blast
    then have wf: "wf (edge_rel g)" using ac finite_acyclic_wf by blast
    show "card S = card D"
    proof (rule ccontr)
      assume "card S \<noteq> card D"
      then obtain x where "x \<in> D - S" using card sub by blast
      then obtain v where v: "v \<in> D - S" "\<And>u. (u, v) \<in> edge_rel g \<Longrightarrow> u \<notin> D - S"
        by (rule wfE_min [OF wf]) blast
      have "pending g S v \<noteq> 0" using zero [of v] v(1) by blast
      then obtain u where "(u, v) \<in> edge_rel g" "u \<notin> S"
        unfolding pending_zero [OF assms(1)] by blast
      then show False using v(2) assms(2) by blast
    qed
  qed
qed

lemma is_dag_acyclic:
  assumes "graph_ok U g"
  shows "is_dag g = Inr (acyclic (edge_rel g))"
proof -
  let ?m = "indegrees g" and ?D = "set (g_nodes g)"
  note ok = assms [unfolded graph_ok_def]
  have E: "edge_rel g \<subseteq> ?D \<times> ?D" using ok by (auto simp: edge_rel_def)
  have adj: "dict_ok (g_adj g)" using ok by blast
  have "t \<in> ?D" if t: "t \<in> set (all_targets g)" for t
  proof -
    obtain n es e where e: "(n, es) \<in> set (g_adj g)" "e \<in> set es" "t = e_to e"
      using t by (auto simp: all_targets_def)
    then show ?thesis using ok adj_edges [OF adj e(1)] by blast
  qed
  then have deg: "dget ?m v = (if v \<in> ?D then Some (pending g {} v) else None)" for v
    unfolding indegrees_spec pending_empty by auto
  have mok: "dict_ok ?m" using ok by (simp add: indegrees_keys)
  have ready: "set (map fst (filter (\<lambda>(n, d). d = 0) ?m)) = {v \<in> ?D. pending g {} v = 0}"
  proof (intro set_eqI iffI)
    fix v assume "v \<in> set (map fst (filter (\<lambda>(n, d). d = 0) ?m))"
    then have "(v, 0) \<in> set ?m" by auto
    then show "v \<in> {v \<in> ?D. pending g {} v = 0}"
      using deg [of v] unfolding dget_iff_in_set [OF mok, symmetric] by (auto split: if_splits)
  next
    fix v assume "v \<in> {v \<in> ?D. pending g {} v = 0}"
    then have "(v, 0) \<in> set ?m" using deg [of v] unfolding dget_iff_in_set [OF mok, symmetric] by simp
    then show "v \<in> set (map fst (filter (\<lambda>(n, d). d = 0) ?m))" by force
  qed
  have "distinct (map fst (filter (\<lambda>(n, d). d = 0) ?m))"
    using mok by (simp add: dict_ok_def distinct_map_filter)
  then have inv: "settling g ?D ?m (rev (map fst (filter (\<lambda>(n, d). d = 0) ?m))) {} (\<lambda>_. 0)"
    using deg ready by (auto simp: settling_def)
  obtain m' S f where S: "settle g ?m (rev (map fst (filter (\<lambda>(n, d). d = 0) ?m))) 0 = Inr (card S)"
    "settling g ?D m' [] S f"
    using settle_spec [OF adj E inv] by auto
  have "length ?m = card ?D"
    unfolding dict_ok_card [OF mok] by (rule arg_cong [where f = card]) (auto simp: dom_def deg)
  then show ?thesis using settled_all_acyclic [OF adj E _ S(2)] by (simp add: is_dag_def Let_def S(1))
qed

end
