(* ===== verification/Graph_Routing.thy ===== *)
theory Graph_Routing
  imports Graph Condition_Laws "HOL-Library.Sublist"
begin

text \<open>
  Why routing may read only the paths its conditions name: the conversion of a value fixes what
  every path into it denotes, the kept paths cover the named ones and are not prefixes of one
  another, and the skeleton built from them answers every lookup as the whole state would.
\<close>

section \<open>Conversion\<close>

lemma mapE_mono:
  assumes "mapE f xs = Inr ys" and "\<And>x y. x \<in> set xs \<Longrightarrow> f x = Inr y \<Longrightarrow> g x = Inr y"
  shows "mapE g xs = Inr ys"
  using assms by (induction xs arbitrary: ys) (auto simp: bindE_eq_Inr)

definition conv_pair :: "nat \<Rightarrow> pyval \<times> pyval \<Rightarrow> exc + (mvalue \<times> mvalue)" where
  "conv_pair d = (\<lambda>(k, v). bindE (py_to_value_at d k) (\<lambda>k'. bindE (py_to_value_at d v) (\<lambda>v'. Inr (k', v'))))"

lemma conv_pair_Inr:
  "conv_pair d (k, v) = Inr (k', v') \<longleftrightarrow> py_to_value_at d k = Inr k' \<and> py_to_value_at d v = Inr v'"
  by (auto simp: conv_pair_def bindE_eq_Inr)

lemma conv_deep: "MAX_DEPTH < d \<Longrightarrow> py_to_value_at d v \<noteq> Inr w"
  by (simp add: py_to_value_at.simps)

lemma conv_dict:
  "py_to_value_at d (PDict kv) = Inr w \<longleftrightarrow>
     d \<le> MAX_DEPTH \<and> (\<exists>ps. mapE (conv_pair (Suc d)) kv = Inr ps \<and> w = VMap ps)"
  by (subst py_to_value_at.simps) (auto simp: bindE_eq_Inr conv_pair_def not_less)

lemma conv_list:
  "py_to_value_at d (PList xs) = Inr w \<longleftrightarrow>
     d \<le> MAX_DEPTH \<and> (\<exists>ys. mapE (\<lambda>x. py_to_value_at (Suc d) x) xs = Inr ys \<and> w = VArr ys)"
  "py_to_value_at d (PTuple xs) = Inr w \<longleftrightarrow>
     d \<le> MAX_DEPTH \<and> (\<exists>ys. mapE (\<lambda>x. py_to_value_at (Suc d) x) xs = Inr ys \<and> w = VArr ys)"
  by (auto simp: py_to_value_at.simps [of d] bindE_eq_Inr not_less)

lemma conv_leaf:
  "py_to_value_at d PNone = Inr w \<longleftrightarrow> d \<le> MAX_DEPTH \<and> w = VNil"
  "py_to_value_at d (PBool b) = Inr w \<longleftrightarrow> d \<le> MAX_DEPTH \<and> w = VBool b"
  "py_to_value_at d (PInt i) = Inr w \<longleftrightarrow> d \<le> MAX_DEPTH \<and> (i64_ok i \<or> u64_ok i) \<and> w = VInt i"
  "py_to_value_at d (PFloat f) = Inr w \<longleftrightarrow> d \<le> MAX_DEPTH \<and> w = VF64 f"
  "py_to_value_at d (PStr s) = Inr w \<longleftrightarrow> d \<le> MAX_DEPTH \<and> is_text s \<and> w = VStr s"
  "py_to_value_at d (PBytes x) = Inr w \<longleftrightarrow> d \<le> MAX_DEPTH \<and> w = VBin x"
  "py_to_value_at d (PObj n) \<noteq> Inr w"
  by (auto simp: py_to_value_at.simps [of d] not_less)

lemmas conv_simps = conv_leaf conv_list conv_dict

text \<open>A value that converts at some depth converts to the same at every smaller one.\<close>

lemma py_to_value_mono: "py_to_value_at d v = Inr w \<Longrightarrow> d' \<le> d \<Longrightarrow> py_to_value_at d' v = Inr w"
proof (induction v arbitrary: d d' w)
  case (PList xs)
  have "py_to_value_at (Suc d') x = Inr y" if "x \<in> set xs" "py_to_value_at (Suc d) x = Inr y" for x y
    using PList.IH [OF that] PList.prems(2) by simp
  then show ?case using PList.prems by (auto simp: conv_list intro: mapE_mono)
next
  case (PTuple xs)
  have "py_to_value_at (Suc d') x = Inr y" if "x \<in> set xs" "py_to_value_at (Suc d) x = Inr y" for x y
    using PTuple.IH [OF that] PTuple.prems(2) by simp
  then show ?case using PTuple.prems by (auto simp: conv_list intro: mapE_mono)
next
  case (PDict kv)
  have step: "conv_pair (Suc d') p = Inr q" if "p \<in> set kv" "conv_pair (Suc d) p = Inr q" for p q
  proof -
    obtain k x k' x' where e: "p = (k, x)" "q = (k', x')" by fastforce
    have "py_to_value_at (Suc d') k = Inr k'"
      using PDict.IH(1) [OF that(1), of k "Suc d" k' "Suc d'"] that(2) PDict.prems(2)
      by (simp add: e conv_pair_Inr fsts.simps)
    moreover have "py_to_value_at (Suc d') x = Inr x'"
      using PDict.IH(2) [OF that(1), of x "Suc d" x' "Suc d'"] that(2) PDict.prems(2)
      by (simp add: e conv_pair_Inr snds.simps)
    ultimately show ?thesis by (simp add: e conv_pair_Inr)
  qed
  obtain ps where ps: "mapE (conv_pair (Suc d)) kv = Inr ps" "w = VMap ps" "d \<le> MAX_DEPTH"
    using PDict.prems(1) by (auto simp: conv_dict)
  have "mapE (conv_pair (Suc d')) kv = Inr ps" by (rule mapE_mono [OF ps(1) step])
  then show ?case using ps PDict.prems(2) by (auto simp: conv_dict)
qed (auto simp: conv_leaf)

text \<open>Lookups in the converted value are lookups in the Python value.\<close>

lemma find_key_conv:
  assumes "mapE (conv_pair d) kv = Inr ps"
  shows "case dget kv (PStr seg) of
           None \<Rightarrow> find_key seg ps = None
         | Some x \<Rightarrow> \<exists>w. find_key seg ps = Some w \<and> py_to_value_at d x = Inr w"
  using assms
proof (induction kv arbitrary: ps)
  case (Cons p kv)
  obtain k x k' x' qs where e: "p = (k, x)" "ps = (k', x') # qs" "conv_pair d (k, x) = Inr (k', x')"
    "mapE (conv_pair d) kv = Inr qs"
    using Cons.prems by (cases p) (auto simp: bindE_eq_Inr)
  have "k' = VStr seg \<longleftrightarrow> k = PStr seg"
    using e(3) by (cases k) (auto simp: conv_pair_Inr conv_simps)
  then show ?case using Cons.IH [OF e(4)] e by (auto simp: conv_pair_Inr split: option.splits)
qed simp

lemma lookup_conv:
  assumes "py_to_value_at d v = Inr w"
  shows "case resolve_path ob v path of
           Inl e \<Rightarrow> False
         | Inr None \<Rightarrow> lookup w path = None
         | Inr (Some x) \<Rightarrow> \<exists>y. lookup w path = Some y \<and> py_to_value x = Inr y"
  using assms
proof (induction path arbitrary: d v w)
  case Nil
  then show ?case by (auto simp: py_to_value_def dest: py_to_value_mono)
next
  case (Cons seg path)
  show ?case
  proof (cases v)
    case (PDict kv)
    then obtain ps where ps: "w = VMap ps" "mapE (conv_pair (Suc d)) kv = Inr ps"
      using Cons.prems by (auto simp: conv_dict)
    show ?thesis
    proof (cases "dget kv (PStr seg)")
      case None
      then show ?thesis using find_key_conv [OF ps(2), of seg] by (simp add: PDict child_def ps)
    next
      case (Some x)
      then obtain y where "find_key seg ps = Some y" "py_to_value_at (Suc d) x = Inr y"
        using find_key_conv [OF ps(2), of seg] by auto
      then show ?thesis using Cons.IH [of "Suc d" x y] Some
        by (auto simp: PDict child_def ps split: sum.splits option.splits)
    qed
  qed (use Cons.prems in \<open>auto simp: child_def conv_simps\<close>)
qed

section \<open>The skeleton\<close>

lemma find_key_append: "find_key seg (xs @ ys) = (case find_key seg xs of None \<Rightarrow> find_key seg ys | Some v \<Rightarrow> Some v)"
  by (induction seg xs rule: find_key.induct) auto

lemma find_set_key:
  "find_key k (set_key seg v ps) = (if k = seg \<and> find_key seg ps \<noteq> None then Some v else find_key k ps)"
  by (induction seg v ps rule: set_key.induct) auto

text \<open>Nothing is stored at a path, on the way to it or below it.\<close>

fun unset :: "(mvalue \<times> mvalue) list \<Rightarrow> pystr list \<Rightarrow> bool" where
  "unset pairs [] = False"
| "unset pairs (seg # path) =
     (case find_key seg pairs of None \<Rightarrow> True | Some (VMap inner) \<Rightarrow> unset inner path | Some _ \<Rightarrow> False)"

lemma unset_Nil [simp]: "unset [] p \<longleftrightarrow> p \<noteq> []"
  by (cases p) auto

lemma unset_lookup: "unset pairs p \<Longrightarrow> lookup (VMap pairs) (p @ t) = None"
  by (induction pairs p rule: unset.induct) (auto split: option.splits mvalue.splits)

lemma incomparable_Cons:
  "(\<forall>q. \<not> prefix (seg # path) q \<longrightarrow> \<not> prefix q (seg # path) \<longrightarrow> P q) \<longleftrightarrow>
   (\<forall>k r. (k = seg \<longrightarrow> \<not> prefix path r \<and> \<not> prefix r path) \<longrightarrow> P (k # r))"
proof -
  have "P q" if "\<forall>k r. (k = seg \<longrightarrow> \<not> prefix path r \<and> \<not> prefix r path) \<longrightarrow> P (k # r)"
    and "\<not> prefix (seg # path) q" "\<not> prefix q (seg # path)" for q
    using that by (cases q) auto
  then show ?thesis by auto
qed

lemma insert_unset:
  "unset pairs p \<Longrightarrow> \<exists>pairs'. insert_path pairs p leaf = Inr pairs'
     \<and> (\<forall>t. lookup (VMap pairs') (p @ t) = lookup leaf t)
     \<and> (\<forall>q. \<not> prefix p q \<longrightarrow> \<not> prefix q p \<longrightarrow>
          lookup (VMap pairs') q = lookup (VMap pairs) q \<and> (unset pairs q \<longrightarrow> unset pairs' q))"
proof (induction p arbitrary: pairs)
  case (Cons seg path)
  consider (leaf) "path = []" "find_key seg pairs = None"
    | (fresh) "path \<noteq> []" "find_key seg pairs = None"
    | (inner) ps where "path \<noteq> []" "find_key seg pairs = Some (VMap ps)" "unset ps path"
    using Cons.prems by (cases path) (auto split: option.splits mvalue.splits)
  then show ?case
  proof cases
    case leaf
    then show ?thesis unfolding incomparable_Cons by (auto simp: find_key_append split: option.splits)
  next
    case fresh
    obtain ps' where ps': "insert_path [] path leaf = Inr ps'" "\<forall>t. lookup (VMap ps') (path @ t) = lookup leaf t"
      "\<forall>q. \<not> prefix path q \<longrightarrow> \<not> prefix q path \<longrightarrow>
          lookup (VMap ps') q = lookup (VMap []) q \<and> (unset [] q \<longrightarrow> unset ps' q)"
      using Cons.IH [of "[]"] fresh(1) by auto
    have "lookup (VMap ps') r = None \<and> unset ps' r" if "\<not> prefix path r" "\<not> prefix r path" for r
      using ps'(3) [rule_format, OF that] that by (cases r) auto
    then show ?thesis using fresh ps'(1,2) unfolding incomparable_Cons
      by (auto simp: find_key_append split: option.splits)
  next
    case inner
    obtain ps' where ps': "insert_path ps path leaf = Inr ps'" "\<forall>t. lookup (VMap ps') (path @ t) = lookup leaf t"
      "\<forall>q. \<not> prefix path q \<longrightarrow> \<not> prefix q path \<longrightarrow>
          lookup (VMap ps') q = lookup (VMap ps) q \<and> (unset ps q \<longrightarrow> unset ps' q)"
      using Cons.IH [OF inner(3)] by auto
    show ?thesis using inner(1,2) ps' unfolding incomparable_Cons
      by (auto simp: find_set_key split: option.splits)
  qed
qed simp

section \<open>The kept paths\<close>

definition antichain :: "pystr list list \<Rightarrow> bool" where
  "antichain ps \<longleftrightarrow> distinct ps \<and> (\<forall>p \<in> set ps. \<forall>q \<in> set ps. prefix p q \<longrightarrow> p = q)"

lemma take_prefix: "take (length k) path = k \<longleftrightarrow> prefix k path"
  by (auto simp: prefix_def) (metis append_take_drop_id)

definition keep_path :: "pystr list \<Rightarrow> pystr list list \<Rightarrow> pystr list list" where
  "keep_path path kept = (if list_ex (\<lambda>k. take (length k) path = k) kept then kept else kept @ [path])"

lemma drop_fold:
  "sorted (map length paths) \<Longrightarrow> antichain kept \<Longrightarrow> \<forall>k \<in> set kept. \<forall>p \<in> set paths. length k \<le> length p \<Longrightarrow>
   antichain (fold keep_path paths kept) \<and> set (fold keep_path paths kept) \<subseteq> set kept \<union> set paths
   \<and> (\<forall>p \<in> set kept \<union> set paths. \<exists>k \<in> set (fold keep_path paths kept). prefix k p)"
proof (induction paths arbitrary: kept)
  case Nil
  then show ?case by auto
next
  case (Cons p paths)
  define kept' where "kept' = keep_path p kept"
  have ac: "antichain kept'"
  proof (cases "\<exists>k \<in> set kept. prefix k p")
    case True
    then show ?thesis using Cons.prems(2) by (auto simp: kept'_def keep_path_def take_prefix list_ex_iff)
  next
    case False
    have "\<not> prefix p k" if "k \<in> set kept" for k
    proof
      assume "prefix p k"
      moreover have "length k \<le> length p" using Cons.prems(3) that by simp
      ultimately have "p = k" using prefix_length_le [of p k] by (auto simp: prefix_def)
      then show False using False that by auto
    qed
    then show ?thesis using False Cons.prems(2)
      by (auto simp: kept'_def keep_path_def take_prefix list_ex_iff antichain_def)
  qed
  have sub: "set kept' \<subseteq> insert p (set kept)" by (auto simp: kept'_def keep_path_def)
  have len: "\<forall>k \<in> set kept'. \<forall>q \<in> set paths. length k \<le> length q"
    using Cons.prems(1,3) sub by (auto dest!: subsetD [OF sub])
  have cov: "\<exists>k \<in> set kept'. prefix k q" if "q \<in> insert p (set kept)" for q
    using that by (auto simp: kept'_def keep_path_def take_prefix list_ex_iff)
  have IH: "antichain (fold keep_path paths kept') \<and> set (fold keep_path paths kept') \<subseteq> set kept' \<union> set paths
    \<and> (\<forall>p \<in> set kept' \<union> set paths. \<exists>k \<in> set (fold keep_path paths kept'). prefix k p)"
    by (rule Cons.IH [OF _ ac len]) (use Cons.prems(1) in auto)
  have "\<exists>k \<in> set (fold keep_path paths kept'). prefix k q" if q: "q \<in> insert p (set kept)" for q
  proof -
    obtain k where k: "k \<in> set kept'" "prefix k q" using cov [OF q] by blast
    then obtain j where "j \<in> set (fold keep_path paths kept')" "prefix j k" using IH by blast
    then show ?thesis using k(2) prefix_order.trans by blast
  qed
  then show ?case using IH sub by (auto simp: kept'_def)
qed

lemma drop_covered_spec:
  "antichain (drop_covered_paths ps)" "set (drop_covered_paths ps) \<subseteq> set ps"
  "p \<in> set ps \<Longrightarrow> \<exists>k \<in> set (drop_covered_paths ps). prefix k p"
  using drop_fold [of "sort_key length ps" "[]"] unfolding drop_covered_paths_def keep_path_def [abs_def]
  by (auto simp: antichain_def)

section \<open>The partial state\<close>

text \<open>What a path of the routing state denotes: its value there, converted.\<close>

definition reads :: "objects \<Rightarrow> pyval \<Rightarrow> pystr list \<Rightarrow> exc + mvalue option" where
  "reads ob state p =
     bindE (resolve_path ob state p) (\<lambda>r. case r of
       None \<Rightarrow> Inr None | Some v \<Rightarrow> bindE (py_to_value v) (\<lambda>w. Inr (Some w)))"

lemma reads_conv: "py_to_value_at d v = Inr w \<Longrightarrow> reads ob v p = Inr (lookup w p)"
  using lookup_conv [of d v w p ob] by (auto simp: reads_def split: sum.splits option.splits)

lemma resolve_append:
  "resolve_path ob v (p @ q) =
     bindE (resolve_path ob v p) (\<lambda>r. case r of None \<Rightarrow> Inr None | Some x \<Rightarrow> resolve_path ob x q)"
proof (induction p arbitrary: v)
  case (Cons seg p)
  then show ?case by (cases "child ob v seg") (auto split: option.splits)
qed simp

lemma reads_append:
  assumes "reads ob v p = Inr r"
  shows "reads ob v (p @ t) = Inr (case r of None \<Rightarrow> None | Some w \<Rightarrow> lookup w t)"
proof (cases "resolve_path ob v p")
  case (Inr x)
  show ?thesis
  proof (cases x)
    case None
    then show ?thesis using assms Inr by (simp add: reads_def resolve_append)
  next
    case (Some u)
    then obtain w where w: "py_to_value u = Inr w" "r = Some w"
      using assms Inr by (auto simp: reads_def bindE_eq_Inr)
    have "reads ob v (p @ t) = reads ob u t" using Inr Some by (simp add: reads_def resolve_append)
    then show ?thesis using reads_conv [of 0 u w ob t] w by (simp add: py_to_value_def)
  qed
qed (use assms in \<open>simp add: reads_def\<close>)

lemma incomparable_append:
  "\<not> prefix p q \<Longrightarrow> \<not> prefix q p \<Longrightarrow> \<not> prefix (p @ t) q \<and> \<not> prefix q (p @ t)"
  using prefix_same_cases [of q "p @ t" p] by (auto simp: append_prefixD)

definition filled ::
  "objects \<Rightarrow> pyval \<Rightarrow> pystr list list \<Rightarrow> (mvalue \<times> mvalue) list \<Rightarrow> (mvalue \<times> mvalue) list \<Rightarrow> bool" where
  "filled ob state ps pairs pairs' \<longleftrightarrow>
     (\<forall>p \<in> set ps. \<exists>r. reads ob state p = Inr r
        \<and> (\<forall>t. lookup (VMap pairs') (p @ t) = (case r of None \<Rightarrow> None | Some w \<Rightarrow> lookup w t)))
   \<and> (\<forall>q. (\<forall>p \<in> set ps. \<not> prefix p q \<and> \<not> prefix q p) \<longrightarrow>
        lookup (VMap pairs') q = lookup (VMap pairs) q \<and> (unset pairs q \<longrightarrow> unset pairs' q))"

lemma filled_skip:
  assumes "filled ob state ps pairs pairs'" and "reads ob state p = Inr None" and "unset pairs p"
    and "\<forall>q \<in> set ps. \<not> prefix q p \<and> \<not> prefix p q"
  shows "filled ob state (p # ps) pairs pairs'"
proof -
  have "unset pairs' p" using assms(1,3,4) by (simp add: filled_def)
  then have "\<forall>t. lookup (VMap pairs') (p @ t) = None" by (simp add: unset_lookup)
  then show ?thesis using assms(1,2) by (auto simp: filled_def)
qed

lemma filled_step:
  assumes "filled ob state ps pairs1 pairs'" and "reads ob state p = Inr (Some w)"
    and "\<forall>t. lookup (VMap pairs1) (p @ t) = lookup w t"
    and "\<forall>q. \<not> prefix p q \<longrightarrow> \<not> prefix q p \<longrightarrow>
          lookup (VMap pairs1) q = lookup (VMap pairs) q \<and> (unset pairs q \<longrightarrow> unset pairs1 q)"
    and "\<forall>q \<in> set ps. \<not> prefix q p \<and> \<not> prefix p q"
  shows "filled ob state (p # ps) pairs pairs'"
proof -
  have "lookup (VMap pairs') (p @ t) = lookup w t" for t
  proof -
    have "\<forall>q \<in> set ps. \<not> prefix q (p @ t) \<and> \<not> prefix (p @ t) q"
      using assms(5) incomparable_append by blast
    then show ?thesis using assms(1,3) by (simp add: filled_def)
  qed
  moreover have "lookup (VMap pairs') q = lookup (VMap pairs) q \<and> (unset pairs q \<longrightarrow> unset pairs' q)"
    if "\<forall>x \<in> set (p # ps). \<not> prefix x q \<and> \<not> prefix q x" for q
  proof -
    have "lookup (VMap pairs') q = lookup (VMap pairs1) q \<and> (unset pairs1 q \<longrightarrow> unset pairs' q)"
      using assms(1) that by (simp add: filled_def)
    moreover have "lookup (VMap pairs1) q = lookup (VMap pairs) q \<and> (unset pairs q \<longrightarrow> unset pairs1 q)"
      using assms(4) that by simp
    ultimately show ?thesis by simp
  qed
  ultimately show ?thesis using assms(1,2) unfolding filled_def by (auto simp del: lookup.simps)
qed

lemma fill_paths_Cons:
  "fill_paths ob state (p # ps) pairs =
     bindE (reads ob state p) (\<lambda>r. case r of
       None \<Rightarrow> fill_paths ob state ps pairs
     | Some w \<Rightarrow> bindE (insert_path pairs p w) (fill_paths ob state ps))"
  by (auto simp: reads_def bindE_def split: sum.splits option.splits)

lemma fill_paths_filled:
  "antichain ps \<Longrightarrow> \<forall>p \<in> set ps. unset pairs p \<Longrightarrow>
   case fill_paths ob state ps pairs of
     Inl e \<Rightarrow> \<exists>p \<in> set ps. reads ob state p = Inl e
   | Inr pairs' \<Rightarrow> filled ob state ps pairs pairs'"
proof (induction ps arbitrary: pairs)
  case Nil
  then show ?case by (simp add: filled_def)
next
  case (Cons p ps)
  have ac: "antichain ps" and inc: "\<forall>q \<in> set ps. \<not> prefix q p \<and> \<not> prefix p q"
    using Cons.prems(1) by (auto simp: antichain_def)
  have up: "unset pairs p" "\<forall>q \<in> set ps. unset pairs q" using Cons.prems(2) by auto
  consider (err) e where "reads ob state p = Inl e" "fill_paths ob state (p # ps) pairs = Inl e"
    | (missing) "reads ob state p = Inr None" "fill_paths ob state (p # ps) pairs = fill_paths ob state ps pairs"
    | (found) w where "reads ob state p = Inr (Some w)"
        "fill_paths ob state (p # ps) pairs = bindE (insert_path pairs p w) (fill_paths ob state ps)"
    using fill_paths_Cons [of ob state p ps pairs]
    by (cases "reads ob state p") (auto split: option.splits simp del: fill_paths.simps)
  then show ?case
  proof cases
    case err
    then show ?thesis by simp
  next
    case missing
    then show ?thesis using Cons.IH [OF ac up(2)] filled_skip [OF _ missing(1) up(1) inc]
      by (auto split: sum.splits simp del: fill_paths.simps)
  next
    case found
    obtain pairs1 where p1: "insert_path pairs p w = Inr pairs1"
      "\<forall>t. lookup (VMap pairs1) (p @ t) = lookup w t"
      "\<forall>q. \<not> prefix p q \<longrightarrow> \<not> prefix q p \<longrightarrow>
          lookup (VMap pairs1) q = lookup (VMap pairs) q \<and> (unset pairs q \<longrightarrow> unset pairs1 q)"
      using insert_unset [OF up(1)] by blast
    have up1: "\<forall>q \<in> set ps. unset pairs1 q" using p1(3) inc up(2) by blast
    have eq: "fill_paths ob state (p # ps) pairs = fill_paths ob state ps pairs1" using found(2) p1(1) by simp
    show ?thesis
      using Cons.IH [OF ac up1] filled_step [OF _ found(1) p1(2,3) inc] unfolding eq
      by (auto split: sum.splits simp del: fill_paths.simps)
  qed
qed

lemma fill_kept:
  assumes "\<forall>p \<in> set ps. p \<noteq> []"
  shows "case fill_paths ob state (drop_covered_paths ps) [] of
     Inl e \<Rightarrow> \<exists>p \<in> set ps. reads ob state p = Inl e
   | Inr pairs \<Rightarrow> \<forall>p \<in> set ps. reads ob state p = Inr (lookup (VMap pairs) p)"
proof -
  have "\<forall>p \<in> set (drop_covered_paths ps). unset [] p" using assms drop_covered_spec(2) by auto
  note fill = fill_paths_filled [OF drop_covered_spec(1) this, of ob state]
  show ?thesis
  proof (cases "fill_paths ob state (drop_covered_paths ps) []")
    case (Inl e)
    then show ?thesis using fill drop_covered_spec(2) [of ps] by auto
  next
    case (Inr pairs)
    have "reads ob state p = Inr (lookup (VMap pairs) p)" if p: "p \<in> set ps" for p
    proof -
      obtain k t where k: "k \<in> set (drop_covered_paths ps)" "p = k @ t"
        using drop_covered_spec(3) [OF p] by (auto simp: prefix_def)
      obtain r where r: "reads ob state k = Inr r"
        "\<forall>t. lookup (VMap pairs) (k @ t) = (case r of None \<Rightarrow> None | Some w \<Rightarrow> lookup w t)"
        using fill k(1) unfolding Inr by (auto simp: filled_def)
      show ?thesis unfolding k(2) using reads_append [OF r(1), of t] r(2) by simp
    qed
    then show ?thesis by (simp add: Inr)
  qed
qed

end
