(* ===== verification/Graph_Props.thy ===== *)
theory Graph_Props
  imports Graph_Cycles Graph_Routing
begin

text \<open>
  The properties of the handoff graph: what routing returns, that a graph which forbids cycles
  has none, that \<open>is_dag\<close> decides acyclicity, and that handoffs in such a graph come to an end.
\<close>

section \<open>Routing\<close>

lemma cond_paths_set: "set (cond_paths es) = (\<Union>e \<in> set es. case e_cond e of None \<Rightarrow> {} | Some c \<Rightarrow> vars c)"
proof -
  have "set (fold (\<lambda>e out. case e_cond e of Some c \<Rightarrow> collect_paths c out | None \<Rightarrow> out) es out)
    = set out \<union> (\<Union>e \<in> set es. case e_cond e of None \<Rightarrow> {} | Some c \<Rightarrow> vars c)" for out
    by (induction es arbitrary: out) (auto simp: collect_paths_set split: option.splits)
  then show ?thesis by (simp add: cond_paths_def)
qed

lemma first_match_cong:
  "(\<And>p. p \<in> set (cond_paths es) \<Longrightarrow> lookup s p = lookup s' p) \<Longrightarrow> first_match s es = first_match s' es"
proof (induction es)
  case (Cons e es)
  have "lookup s p = lookup s' p" if "p \<in> vars c" "e_cond e = Some c" for p c
    using Cons.prems [of p] that by (simp add: cond_paths_set)
  then have "edge_matches s e = edge_matches s' e"
    using eval_cong [of _ s s'] by (auto simp: edge_matches_def eval_truthy_def split: option.splits)
  moreover have "first_match s es = first_match s' es"
    by (rule Cons.IH, rule Cons.prems) (auto simp: cond_paths_set)
  ultimately show ?case by simp
qed simp

lemma cond_paths_ne:
  assumes "graph_ok U g" and "p \<in> set (cond_paths (out_edges g n))"
  shows "p \<noteq> []"
proof -
  obtain e c where e: "e \<in> set (out_edges g n)" "e_cond e = Some c" "p \<in> vars c"
    using assms(2) by (auto simp: cond_paths_set split: option.splits)
  have "edge_ok U e" using assms(1) e(1) unfolding graph_ok_def by blast
  then obtain src where "parse U src = Inr c" using e(2) by (auto split: option.splits sum.splits)
  then have "expr_ok c" using parse_fits by (auto simp: fits_def)
  then show ?thesis using expr_ok_vars e(3) by blast
qed

lemma route_reads:
  assumes "graph_ok U g"
  shows "case route ob g n (Some state) of
      Inl e \<Rightarrow> \<exists>p \<in> set (cond_paths (out_edges g n)). reads ob state p = Inl e
    | Inr r \<Rightarrow> \<exists>w. (\<forall>p \<in> set (cond_paths (out_edges g n)). reads ob state p = Inr (lookup w p))
                \<and> r = first_match w (out_edges g n)"
proof -
  have paths: "the_default [] (dget (g_node_paths g) n) = drop_covered_paths (cond_paths (out_edges g n))"
    using assms unfolding graph_ok_def by blast
  have ne: "\<forall>p \<in> set (cond_paths (out_edges g n)). p \<noteq> []" using cond_paths_ne [OF assms] by blast
  show ?thesis
    using fill_kept [OF ne, of ob state]
    by (cases "fill_paths ob state (drop_covered_paths (cond_paths (out_edges g n))) []")
      (auto simp: route_def partial_state_def paths intro!: exI)
qed

lemma route_agrees:
  assumes "graph_ok U g" and "\<And>p. p \<in> set (cond_paths (out_edges g n)) \<Longrightarrow> reads ob state p = Inr (lookup w p)"
  shows "route ob g n (Some state) = Inr (first_match w (out_edges g n))"
proof (cases "route ob g n (Some state)")
  case (Inl e)
  then show ?thesis using route_reads [OF assms(1), where ob = ob and n = n and state = state] assms(2) by auto
next
  case (Inr r)
  then obtain w' where w': "\<forall>p \<in> set (cond_paths (out_edges g n)). reads ob state p = Inr (lookup w' p)"
    "r = first_match w' (out_edges g n)"
    using route_reads [OF assms(1), where ob = ob and n = n and state = state] by auto
  then have "first_match w' (out_edges g n) = first_match w (out_edges g n)"
    using assms(2) by (intro first_match_cong) auto
  then show ?thesis using Inr w'(2) by simp
qed

lemma resolve_none: "p \<noteq> [] \<Longrightarrow> reads ob PNone p = Inr (lookup (VMap []) p)"
  by (cases p) (simp_all add: reads_def child_def)

lemma route_whole:
  assumes "graph_ok U g" and "py_to_value state = Inr v"
  shows "route ob g n (Some state) = Inr (first_match v (out_edges g n))"
  using assms(2) by (intro route_agrees [OF assms(1)]) (simp add: py_to_value_def reads_conv)

lemma router_whole:
  assumes ok: "graph_ok U g" and v: "py_to_value state = Inr v"
  shows "handoff_router END ob g n dflt state =
      Inr (the_default (the_default END dflt) (first_match v (out_edges g n)))"
proof -
  have none: "route ob g n None = Inr (first_match (VMap []) (out_edges g n))" by (simp add: route_def)
  have "route ob g n (Some PNone) = Inr (first_match (VMap []) (out_edges g n))"
    using resolve_none cond_paths_ne [OF ok] by (intro route_agrees [OF ok]) auto
  then have "route ob g n (if state = PNone then None else Some state) = route ob g n (Some state)"
    using none by simp
  then show ?thesis using route_whole [OF ok v] by (simp add: handoff_router_def the_default_def)
qed

definition no_objects :: objects where
  "no_objects = \<lparr>ob_mapping = (\<lambda>_. False), ob_getitem = (\<lambda>_ _. Inl KeyError), ob_getattr = (\<lambda>_ _. Inl AttributeError)\<rparr>"

definition ascii_classes :: unicode where
  "ascii_classes = \<lparr>ch_space = (\<lambda>c. c = 32), ch_alpha = (\<lambda>c. 97 \<le> c \<and> c \<le> 122), ch_numeric = is_digit\<rparr>"

text \<open>A node \<open>t\<close> that hands over to \<open>h\<close> when \<open>n > 3\<close>, else to \<open>b\<close>.\<close>

definition demo_graph :: graph where
  "demo_graph =
     \<lparr>g_adj = [([116], [\<lparr>e_to = [104], e_when = Some (lit ''n > 3''), e_cond = Some (ECmp CGt (EVar [[110]]) (EInt 3))\<rparr>,
                       \<lparr>e_to = [98], e_when = None, e_cond = None\<rparr>])],
      g_nodes = [[116], [104], [98]], g_on_cycle = lit ''error'', g_node_paths = [([116], [[[110]]])]\<rparr>"

lemma demo_parse: "parse ascii_classes (lit ''n > 3'') = Inr (ECmp CGt (EVar [[110]]) (EInt 3))"
  by (simp add: parse_def ascii_classes_def lex_tok_def is_digit_def lex_number_def word_char_def
      word_tok_def parse_i64_def split_sign_def digits_nat_def i64_ok_def parse_or.simps parse_and.simps
      parse_not.simps parse_cmp.simps parse_primary.simps COND_MAX_DEPTH_def peek_op_def)

lemma demo_reachable: "graph_reachable ascii_classes demo_graph"
proof -
  let ?c = "ECmp CGt (EVar [[110]]) (EInt 3)"
  let ?g0 = "\<lparr>g_adj = [], g_nodes = [], g_on_cycle = lit ''error'', g_node_paths = []\<rparr>"
  let ?e1 = "\<lparr>e_to = [104], e_when = Some (lit ''n > 3''), e_cond = Some ?c\<rparr>"
  let ?g1 = "\<lparr>g_adj = [([116], [?e1])], g_nodes = [[116], [104]], g_on_cycle = lit ''error'',
              g_node_paths = [([116], [[[110]]])]\<rparr>"
  have 0: "graph_reachable ascii_classes ?g0"
    by (rule reach_new [where c = "lit ''error''"]) (simp add: graph_new_def)
  have "add_edge ascii_classes [116] [104] (Some (lit ''n > 3'')) ?g0 = Inr ?g1"
    unfolding add_edge_def parse_when_def option.case demo_parse
    by (simp add: would_create_cycle_def out_edges_def add_node_def refresh_paths_def
        cond_paths_def drop_covered_paths_def sort_key_def Let_def)
  then have 1: "graph_reachable ascii_classes ?g1" by (intro reach_step [OF 0] step_edge)
  have "add_edge ascii_classes [116] [98] None ?g1 = Inr demo_graph"
    unfolding add_edge_def parse_when_def option.case demo_graph_def
    by (simp add: would_create_cycle_def out_edges_def add_node_def refresh_paths_def
        cond_paths_def drop_covered_paths_def sort_key_def Let_def)
  then show ?thesis by (intro reach_step [OF 1] step_edge)
qed

text \<open>
  C34. Routing reads only the paths the conditions of the node name. On a graph built by its
  operations, \<open>route\<close> fails only with the error of reading or converting one of these paths of the
  state; otherwise its answer is the first edge, in insertion order, whose condition holds of a
  value that agrees with the state on all these paths. When the whole state converts, reading
  the named paths only is not observable: the answer is the first edge whose condition holds of
  the converted state, and \<open>handoff_router\<close> returns it or its default.
\<close>
theorem route_reads_exact:
  assumes "graph_reachable U g"
  shows "(case route ob g n (Some state) of
      Inl e \<Rightarrow> \<exists>p \<in> set (cond_paths (out_edges g n)). reads ob state p = Inl e
    | Inr r \<Rightarrow> \<exists>w. (\<forall>p \<in> set (cond_paths (out_edges g n)). reads ob state p = Inr (lookup w p))
                \<and> r = first_match w (out_edges g n))
    \<and> (\<forall>v. py_to_value state = Inr v \<longrightarrow>
           route ob g n (Some state) = Inr (first_match v (out_edges g n))
         \<and> handoff_router END ob g n dflt state =
             Inr (the_default (the_default END dflt) (first_match v (out_edges g n))))"
  using route_reads [OF graph_reachable_ok [OF assms]] route_whole [OF graph_reachable_ok [OF assms]]
    router_whole [OF graph_reachable_ok [OF assms]]
  by blast

theorem route_reads_exact_witness:
  "route no_objects demo_graph [116] (Some (PDict [(PStr [110], PInt 7)])) = Inr (Some [104])"
proof -
  have v: "py_to_value (PDict [(PStr [110], PInt 7)]) = Inr (VMap [(VStr [110], VInt 7)])"
    by (simp add: py_to_value_def py_to_value_at.simps MAX_DEPTH_def i64_ok_def scalar_def)
  have "eval_truthy (ECmp CGt (EVar [[110]]) (EInt 3)) (VMap [(VStr [110], VInt 7)])"
    by (simp add: eval_truthy_def ordering_true_def f64_of_int_exact)
  then have "first_match (VMap [(VStr [110], VInt 7)]) (out_edges demo_graph [116]) = Some [104]"
    by (simp add: demo_graph_def out_edges_def edge_matches_def)
  then show ?thesis
    using route_reads_exact [OF demo_reachable, where ob = no_objects and n = "[116]"
        and state = "PDict [(PStr [110], PInt 7)]"] v
    by simp
qed

section \<open>Cycles\<close>

lemma add_edge_blocked:
  assumes "parse_when U w = Inr c" and "g_on_cycle g = lit ''error''" and "(b, a) \<in> (edge_rel g)\<^sup>*"
  shows "add_edge U a b w g = Inl (ValueError ''would create a cycle'')"
  using assms by (simp add: add_edge_def would_create_cycle_iff del: lit_simps)

lemma add_edge_allowed:
  assumes "parse_when U w = Inr c" and "g_on_cycle g = lit ''error'' \<Longrightarrow> (b, a) \<notin> (edge_rel g)\<^sup>*"
  shows "\<exists>g'. add_edge U a b w g = Inr g' \<and> graph_edges g' a = graph_edges g a @ [(b, w)]"
proof -
  obtain g' where g': "add_edge U a b w g = Inr g'"
    using assms by (auto simp: add_edge_def would_create_cycle_iff Let_def simp del: lit_simps)
  obtain c where "g_adj g' = dset a (out_edges g a @ [\<lparr>e_to = b, e_when = w, e_cond = c\<rparr>]) (g_adj g)"
    using add_edge_Inr [OF g'] by metis
  then have "graph_edges g' a = graph_edges g a @ [(b, w)]"
    by (simp add: graph_edges_def out_edges_def dget_dset)
  then show ?thesis using g' by blast
qed

text \<open>
  C35. A graph with \<open>on_cycle='error'\<close> never has a cycle, however it was built. An edge with a valid
  condition is refused exactly when the graph already has a path back, and else it is appended to
  the edges of its source and nothing else about the edges changes.
\<close>
theorem graph_stays_acyclic:
  assumes "graph_reachable U g" and "g_on_cycle g = lit ''error''" and "parse_when U w = Inr c"
  shows "acyclic (edge_rel g)
    \<and> (if (b, a) \<in> (edge_rel g)\<^sup>* then add_edge U a b w g = Inl (ValueError ''would create a cycle'')
         else \<exists>g'. add_edge U a b w g = Inr g' \<and> acyclic (edge_rel g')
                \<and> edge_rel g' = insert (a, b) (edge_rel g) \<and> graph_edges g' a = graph_edges g a @ [(b, w)])"
proof (intro conjI)
  note ok = graph_reachable_ok [OF assms(1)]
  show ac: "acyclic (edge_rel g)" using ok assms(2) unfolding graph_ok_def by blast
  show "if (b, a) \<in> (edge_rel g)\<^sup>* then add_edge U a b w g = Inl (ValueError ''would create a cycle'')
      else \<exists>g'. add_edge U a b w g = Inr g' \<and> acyclic (edge_rel g')
             \<and> edge_rel g' = insert (a, b) (edge_rel g) \<and> graph_edges g' a = graph_edges g a @ [(b, w)]"
  proof (cases "(b, a) \<in> (edge_rel g)\<^sup>*")
    case True
    then show ?thesis using add_edge_blocked [OF assms(3,2)] by simp
  next
    case False
    then obtain g' where g': "add_edge U a b w g = Inr g'" "graph_edges g' a = graph_edges g a @ [(b, w)]"
      using add_edge_allowed [OF assms(3)] by blast
    have "edge_rel g' = insert (a, b) (edge_rel g)" by (rule add_edge_ok(2) [OF ok g'(1)])
    then show ?thesis using False g' ac by (simp add: acyclic_insert)
  qed
qed

lemma demo_edges: "edge_rel demo_graph = {([116], [104]), ([116], [98])}"
  by (auto simp: edge_rel_iff demo_graph_def out_edges_def split: if_splits)

theorem graph_stays_acyclic_witness:
  "acyclic (edge_rel demo_graph) \<and>
   add_edge ascii_classes [104] [116] None demo_graph = Inl (ValueError ''would create a cycle'')"
proof -
  have w: "parse_when ascii_classes None = Inr None" by (simp add: parse_when_def)
  have c: "g_on_cycle demo_graph = lit ''error''" by (simp add: demo_graph_def)
  have "([116], [104]) \<in> (edge_rel demo_graph)\<^sup>*" unfolding demo_edges by blast
  then show ?thesis
    using graph_stays_acyclic [OF demo_reachable c w, of "[116]" "[104]"] by simp
qed

text \<open>
  C36. On every graph built by its operations \<open>is_dag\<close> returns whether the graph is acyclic; no
  decrement of an indegree underflows, in whatever order the hash maps are traversed.
\<close>
theorem is_dag_exact:
  assumes "graph_reachable U g"
  shows "is_dag g = Inr (acyclic (edge_rel g))"
  by (rule is_dag_acyclic [OF graph_reachable_ok [OF assms]])

theorem is_dag_exact_witness: "is_dag demo_graph = Inr True"
proof -
  have "acyclic (edge_rel demo_graph)"
    unfolding demo_edges by (rule acyclicI_order [where f = "\<lambda>n. if n = [116] then 1 else (0::nat)"]) auto
  then show ?thesis using is_dag_exact [OF demo_reachable] by simp
qed

section \<open>Handoffs\<close>

text \<open>
  A run of handoffs: from node to node with the states the agents leave, until no edge matches or
  there is no further state. The result is the list of visited nodes.
\<close>

fun follow :: "objects \<Rightarrow> graph \<Rightarrow> pystr \<Rightarrow> pyval list \<Rightarrow> exc + pystr list" where
  "follow ob g n [] = Inr [n]"
| "follow ob g n (state # states) =
     bindE (route ob g n (Some state)) (\<lambda>r. case r of
       None \<Rightarrow> Inr [n] | Some m \<Rightarrow> bindE (follow ob g m states) (\<lambda>ns. Inr (n # ns)))"

lemma first_match_edge: "first_match s es = Some m \<Longrightarrow> m \<in> e_to ` set es"
  by (induction es) (auto split: if_splits)

lemma route_edge: "route ob g n st = Inr (Some m) \<Longrightarrow> (n, m) \<in> edge_rel g"
  by (auto simp: route_def bindE_eq_Inr edge_rel_iff first_match_edge)

lemma follow_ConsE:
  assumes "follow ob g n (state # states) = Inr ns"
  obtains (stop) "ns = [n]" "route ob g n (Some state) = Inr None"
  | (go) m ms where "route ob g n (Some state) = Inr (Some m)" "follow ob g m states = Inr ms" "ns = n # ms"
proof -
  obtain r where r: "route ob g n (Some state) = Inr r"
    "(case r of None \<Rightarrow> Inr [n] | Some m \<Rightarrow> bindE (follow ob g m states) (\<lambda>ns. Inr (n # ns))) = Inr ns"
    using assms by (auto simp: bindE_eq_Inr)
  show thesis
  proof (cases r)
    case None
    then show thesis using stop r by simp
  next
    case (Some m)
    then obtain ms where "follow ob g m states = Inr ms" "ns = n # ms" using r(2) by (auto simp: bindE_eq_Inr)
    then show thesis using go r(1) Some by simp
  qed
qed

lemma follow_path:
  "follow ob g n states = Inr ns \<Longrightarrow> \<exists>ms. ns = n # ms \<and> (\<forall>m \<in> set ms. (n, m) \<in> (edge_rel g)\<^sup>+)"
proof (induction states arbitrary: n ns)
  case (Cons state states)
  from Cons.prems show ?case
  proof (cases rule: follow_ConsE)
    case (go m ms)
    have "(n, m) \<in> (edge_rel g)\<^sup>+" using route_edge [OF go(1)] by blast
    moreover obtain ms' where "ms = m # ms'" "\<forall>x \<in> set ms'. (m, x) \<in> (edge_rel g)\<^sup>+"
      using Cons.IH [OF go(2)] by blast
    ultimately show ?thesis using go(3) by (auto intro: trancl_trans)
  qed simp
qed simp

lemma follow_distinct:
  assumes "acyclic (edge_rel g)"
  shows "follow ob g n states = Inr ns \<Longrightarrow> distinct ns"
proof (induction states arbitrary: n ns)
  case (Cons state states)
  from Cons.prems show ?case
  proof (cases rule: follow_ConsE)
    case (go m ms)
    have "n \<notin> set ms" using follow_path [OF Cons.prems] go(3) assms by (auto simp: acyclic_def)
    then show ?thesis using Cons.IH [OF go(2)] go(3) by simp
  qed simp
qed simp

lemma follow_stops:
  "follow ob g n states = Inr ns \<Longrightarrow> length ns = Suc (length states) \<or>
     (\<exists>i < length states. length ns = Suc i \<and> route ob g (last ns) (Some (states ! i)) = Inr None)"
proof (induction states arbitrary: n ns)
  case (Cons state states)
  from Cons.prems show ?case
  proof (cases rule: follow_ConsE)
    case stop
    then show ?thesis by (intro disjI2 exI [of _ 0]) simp
  next
    case (go m ms)
    have ne: "ms \<noteq> []" using follow_path [OF go(2)] by blast
    show ?thesis
    proof (cases "length ms = Suc (length states)")
      case False
      then obtain i where "i < length states" "length ms = Suc i" "route ob g (last ms) (Some (states ! i)) = Inr None"
        using Cons.IH [OF go(2)] by blast
      then show ?thesis using go(3) ne by (intro disjI2 exI [of _ "Suc i"]) simp
    qed (use go in simp)
  qed
qed simp



end
