(* ===== verification/Codec_Laws.thy ===== *)
theory Codec_Laws
  imports Codec
begin

text \<open>
  The laws of the codec: what is read back after each header, that every accepted value is
  written and read back (tuples as lists), and that everything the decoder returns is accepted.
\<close>

section \<open>Bytes\<close>

lemma unat_byte [simp]: "n < 256 \<Longrightarrow> unat (byte n) = n"
  by (simp add: unat_of_nat take_bit_nat_eq_self)

lemma length_be [simp]: "length (be w n) = w"
  by (induction w n rule: be.induct) auto

lemma un_be_snoc: "un_be (bs @ [b]) = un_be bs * 256 + unat b"
  by (simp add: un_be_def)

lemma un_be_be: "n < 256 ^ w \<Longrightarrow> un_be (be w n) = n"
proof (induction w n rule: be.induct)
  case (1 n)
  then show ?case by (simp add: un_be_def)
next
  case (2 w n)
  have "n div 256 < 256 ^ w" using 2(2) by (simp add: less_mult_imp_div_less mult.commute)
  then show ?case using 2(1) by (simp add: un_be_snoc)
qed

lemma un_be_bound: "un_be bs < 256 ^ length bs"
proof (induction bs rule: rev_induct)
  case (snoc b bs)
  have "unat b < 256" using unsigned_less [of b, where ?'a = nat] by simp
  then show ?case using snoc by (simp add: un_be_snoc)
qed (simp add: un_be_def)

lemma rd_take_append [simp]: "rd_take (length x) (x @ r) = Inr (x, r)"
  by (simp add: rd_take_def)

lemma len_of_be: "n < 256 ^ w \<Longrightarrow> len_of w (be w n @ r) = Inr (n, r)"
  using rd_take_append [of "be w n" r] by (simp add: len_of_def un_be_be)

lemma len_of_Inr: "len_of w bs = Inr (n, r) \<Longrightarrow> n < 256 ^ w \<and> length r + w = length bs"
  using un_be_bound [of "take w bs"] by (auto simp: len_of_def rd_take_def split: if_splits)

lemma sized_be: "n < 256 ^ w \<Longrightarrow> sized w rd (be w n @ r) = rd n r"
  by (simp add: sized_def len_of_be)

section \<open>Headers\<close>

lemma read_obj_scalar:
  assumes "d \<le> MAX_DEPTH" and "\<not> (0x80 \<le> unat b \<and> unat b \<le> 0x9f)" and "\<not> (0xdc \<le> unat b \<and> unat b \<le> 0xdf)"
  shows "read_obj d (b # r) = read_scalar (unat b) r"
  using assms by (subst read_obj.simps) (auto simp: Let_def)

lemma read_obj_fix:
  assumes "d \<le> MAX_DEPTH" and "unat b = k"
  shows "144 \<le> k \<Longrightarrow> k \<le> 159 \<Longrightarrow> read_obj d (b # r) = read_array (\<lambda>x. read_obj (Suc d) x) (k mod 16) r"
    and "128 \<le> k \<Longrightarrow> k \<le> 143 \<Longrightarrow> read_obj d (b # r) = read_map (\<lambda>x. read_obj (Suc d) x) (k mod 16) r"
  using assms by (subst read_obj.simps, simp add: Let_def)+

lemma read_obj_sized:
  assumes "d \<le> MAX_DEPTH"
  shows "read_obj d (0xdc # r) = sized 2 (read_array (\<lambda>x. read_obj (Suc d) x)) r"
    and "read_obj d (0xdd # r) = sized 4 (read_array (\<lambda>x. read_obj (Suc d) x)) r"
    and "read_obj d (0xde # r) = sized 2 (read_map (\<lambda>x. read_obj (Suc d) x)) r"
    and "read_obj d (0xdf # r) = sized 4 (read_map (\<lambda>x. read_obj (Suc d) x)) r"
  using assms by (subst read_obj.simps, simp add: Let_def)+

lemma array_header:
  assumes "n < 2 ^ 32"
  shows "\<exists>h. write_array_header n = Inr h \<and>
    (\<forall>d r. d \<le> MAX_DEPTH \<longrightarrow> read_obj d (h @ r) = read_array (\<lambda>x. read_obj (Suc d) x) n r)"
proof -
  consider "n \<le> 15" | "15 < n" "n \<le> 65535" | "65535 < n" by linarith
  then show ?thesis
  proof cases
    case 1
    then have "(144 + n) mod 16 = n" "unat (byte (144 + n)) = 144 + n" by (presburger, intro unat_byte, simp)
    then show ?thesis using 1 read_obj_fix(1) [of _ "byte (144 + n)" "144 + n"]
      by (simp add: write_array_header_def del: of_nat_add)
  next
    case 2
    then show ?thesis using sized_be [of n 2] by (simp add: write_array_header_def read_obj_sized)
  next
    case 3
    then show ?thesis using sized_be [of n 4] assms
      by (simp add: write_array_header_def read_obj_sized u32_len_def)
  qed
qed

lemma map_header:
  assumes "n < 2 ^ 32"
  shows "\<exists>h. write_map_header n = Inr h \<and>
    (\<forall>d r. d \<le> MAX_DEPTH \<longrightarrow> read_obj d (h @ r) = read_map (\<lambda>x. read_obj (Suc d) x) n r)"
proof -
  consider "n \<le> 15" | "15 < n" "n \<le> 65535" | "65535 < n" by linarith
  then show ?thesis
  proof cases
    case 1
    then have "(128 + n) mod 16 = n" "unat (byte (128 + n)) = 128 + n" by (presburger, intro unat_byte, simp)
    then show ?thesis using 1 read_obj_fix(2) [of _ "byte (128 + n)" "128 + n"]
      by (simp add: write_map_header_def del: of_nat_add)
  next
    case 2
    then show ?thesis using sized_be [of n 2] by (simp add: write_map_header_def read_obj_sized)
  next
    case 3
    then show ?thesis using sized_be [of n 4] assms
      by (simp add: write_map_header_def read_obj_sized u32_len_def)
  qed
qed

lemma read_scalar_str: "160 \<le> k \<Longrightarrow> k \<le> 191 \<Longrightarrow> read_scalar k r = read_str (k mod 32) r"
  by (simp add: read_scalar_def)

lemma read_obj_marks:
  assumes "d \<le> MAX_DEPTH"
  shows "read_obj d (0xd9 # r) = sized 1 read_str r" "read_obj d (0xda # r) = sized 2 read_str r"
    and "read_obj d (0xdb # r) = sized 4 read_str r" "read_obj d (0xc4 # r) = sized 1 read_bin r"
    and "read_obj d (0xc5 # r) = sized 2 read_bin r" "read_obj d (0xc6 # r) = sized 4 read_bin r"
    and "read_obj d (0xcc # r) = read_uint 1 r" "read_obj d (0xcd # r) = read_uint 2 r"
    and "read_obj d (0xce # r) = read_uint 4 r" "read_obj d (0xcf # r) = read_uint 8 r"
    and "read_obj d (0xd0 # r) = read_int 1 r" "read_obj d (0xd1 # r) = read_int 2 r"
    and "read_obj d (0xd2 # r) = read_int 4 r" "read_obj d (0xd3 # r) = read_int 8 r"
    and "read_obj d (0xc0 # r) = Inr (PNone, r)" "read_obj d (0xc2 # r) = Inr (PBool False, r)"
    and "read_obj d (0xc3 # r) = Inr (PBool True, r)"
    and "read_obj d (0xcb # r) = bindE (len_of 8 r) (\<lambda>(n, r'). Inr (PFloat (word_of_nat n), r'))"
  by (subst read_obj_scalar [OF assms]; simp add: read_scalar_def)+

lemma str_header:
  assumes "n < 2 ^ 32"
  shows "\<exists>h. write_str_header n = Inr h \<and> (\<forall>d r. d \<le> MAX_DEPTH \<longrightarrow> read_obj d (h @ r) = read_str n r)"
proof -
  consider "n \<le> 31" | "31 < n" "n \<le> 255" | "255 < n" "n \<le> 65535" | "65535 < n" by linarith
  then show ?thesis
  proof cases
    case 1
    have "(160 + n) mod 32 = (n + 5 * 32) mod 32" by (simp add: add.commute)
    then have u: "(160 + n) mod 32 = n" "unat (byte (160 + n)) = 160 + n"
      using 1 unat_byte [of "160 + n"] unfolding mod_mult_self1 by simp_all
    have "read_obj d (byte (160 + n) # r) = read_str n r" if "d \<le> MAX_DEPTH" for d r
    proof -
      have "read_obj d (byte (160 + n) # r) = read_scalar (160 + n) r"
        using read_obj_scalar [OF that, of "byte (160 + n)" r] 1 unfolding u(2) by linarith
      also have "\<dots> = read_str ((160 + n) mod 32) r" using 1 by (intro read_scalar_str) auto
      finally show ?thesis unfolding u(1) .
    qed
    then show ?thesis using 1 by (simp add: write_str_header_def del: of_nat_add)
  next
    case 2
    then have "write_str_header n = Inr (0xd9 # be 1 n)" by (simp add: write_str_header_def)
    then show ?thesis using 2 sized_be [of n 1] by (simp add: read_obj_marks del: be.simps One_nat_def)
  next
    case 3
    then have "write_str_header n = Inr (0xda # be 2 n)" by (simp add: write_str_header_def)
    then show ?thesis using 3 sized_be [of n 2] by (simp add: read_obj_marks)
  next
    case 4
    then have "write_str_header n = Inr (0xdb # be 4 n)" using assms by (simp add: write_str_header_def u32_len_def)
    then show ?thesis using assms sized_be [of n 4] by (simp add: read_obj_marks)
  qed
qed

lemma bin_header:
  assumes "n < 2 ^ 32"
  shows "\<exists>h. write_bin_header n = Inr h \<and> (\<forall>d r. d \<le> MAX_DEPTH \<longrightarrow> read_obj d (h @ r) = read_bin n r)"
proof -
  consider "n \<le> 255" | "255 < n" "n \<le> 65535" | "65535 < n" by linarith
  then show ?thesis
  proof cases
    case 1
    then have "write_bin_header n = Inr (0xc4 # be 1 n)" by (simp add: write_bin_header_def)
    then show ?thesis using 1 sized_be [of n 1] by (simp add: read_obj_marks del: be.simps One_nat_def)
  next
    case 2
    then have "write_bin_header n = Inr (0xc5 # be 2 n)" by (simp add: write_bin_header_def)
    then show ?thesis using 2 sized_be [of n 2] by (simp add: read_obj_marks)
  next
    case 3
    then have "write_bin_header n = Inr (0xc6 # be 4 n)" using assms by (simp add: write_bin_header_def u32_len_def)
    then show ?thesis using assms sized_be [of n 4] by (simp add: read_obj_marks)
  qed
qed

section \<open>Integers\<close>

lemma read_uint_be: "0 \<le> v \<Longrightarrow> v < 256 ^ w \<Longrightarrow> read_uint w (be w (nat v) @ r) = Inr (PInt v, r)"
  by (simp add: read_uint_def len_of_be nat_less_iff)

lemma read_int_be:
  assumes "0 < w" "- (2 ^ (8 * w - 1)) \<le> v" "v < 0"
  shows "read_int w (be w (nat (v mod 2 ^ (8 * w))) @ r) = Inr (PInt v, r)"
proof -
  have pow: "(2::int) ^ (8 * w) = 2 * 2 ^ (8 * w - 1)" using assms(1) by (simp flip: power_Suc)
  have "(v + 2 ^ (8 * w)) mod 2 ^ (8 * w) = v + 2 ^ (8 * w)"
    using assms pow by (intro mod_pos_pos_trivial) auto
  then have "v mod 2 ^ (8 * w) = v + 2 ^ (8 * w)" unfolding mod_add_self2 .
  moreover have "2 ^ (8 * w - 1) \<le> v + 2 ^ (8 * w)" "v + 2 ^ (8 * w) < 2 ^ (8 * w)" using assms(2,3) pow by auto
  moreover have "(256::nat) ^ w = 2 ^ (8 * w)" by (simp add: power_mult)
  ultimately have n: "nat (v mod 2 ^ (8 * w)) = nat (v + 2 ^ (8 * w))" "nat (v + 2 ^ (8 * w)) < 256 ^ w"
    "\<not> nat (v + 2 ^ (8 * w)) < 2 ^ (8 * w - 1)" "0 \<le> v + 2 ^ (8 * w)"
    by (auto simp: nat_less_iff intro: order_trans [of 0 "2 ^ (8 * w - 1)"])
  show ?thesis using n by (simp add: read_int_def len_of_be)
qed

lemma write_i64_read:
  assumes "d \<le> MAX_DEPTH" "i64_ok v"
  shows "read_obj d (write_i64 v @ r) = Inr (PInt v, r)"
proof -
  note i = assms(2) [unfolded i64_ok_def]
  consider (pos) "0 \<le> v" "v \<le> 127" | (nfix) "- 32 \<le> v" "v \<le> - 1" | (u8) "128 \<le> v" "v \<le> 255"
    | (u16) "256 \<le> v" "v \<le> 65535" | (u32) "65536 \<le> v" "v \<le> 4294967295" | (u64) "4294967296 \<le> v"
    | (i8) "- 128 \<le> v" "v \<le> - 33" | (i16) "- 32768 \<le> v" "v \<le> - 129"
    | (i32) "- 2147483648 \<le> v" "v \<le> - 32769" | (i64) "v < - 2147483648"
    by linarith
  then show ?thesis
  proof cases
    case pos
    have "read_obj d (byte (nat v) # r) = read_scalar (nat v) r"
      using read_obj_scalar [OF assms(1), of "byte (nat v)" r] pos unat_byte [of "nat v"] by auto
    then show ?thesis using pos by (simp add: write_i64_def read_scalar_def)
  next
    case nfix
    have m: "v mod 256 = v + 256" using nfix by presburger
    have u: "unat (byte (nat (v + 256))) = nat (v + 256)" using nfix by (intro unat_byte) auto
    have "read_obj d (byte (nat (v + 256)) # r) = read_scalar (nat (v + 256)) r"
      using read_obj_scalar [OF assms(1), of "byte (nat (v + 256))" r] nfix unfolding u by linarith
    moreover have "read_scalar (nat (v + 256)) r = Inr (PInt v, r)" using nfix by (auto simp: read_scalar_def)
    moreover have "write_i64 v = [byte (nat (v + 256))]" using nfix m by (simp add: write_i64_def)
    ultimately show ?thesis by simp
  next
    case u8
    then have "write_i64 v = 0xcc # be 1 (nat v)" by (simp add: write_i64_def del: be.simps)
    then show ?thesis using read_uint_be [of v 1 r] u8 by (simp add: read_obj_marks [OF assms(1)] del: be.simps One_nat_def)
  next
    case u16
    then have "write_i64 v = 0xcd # be 2 (nat v)" by (simp add: write_i64_def)
    then show ?thesis using read_uint_be [of v 2 r] u16 by (simp add: read_obj_marks [OF assms(1)])
  next
    case u32
    then have "write_i64 v = 0xce # be 4 (nat v)" by (simp add: write_i64_def)
    then show ?thesis using read_uint_be [of v 4 r] u32 by (simp add: read_obj_marks [OF assms(1)])
  next
    case u64
    then have "write_i64 v = 0xcf # be 8 (nat v)" by (simp add: write_i64_def)
    then show ?thesis using read_uint_be [of v 8 r] u64 i by (simp add: read_obj_marks [OF assms(1)])
  next
    case i8
    then have "write_i64 v = 0xd0 # be 1 (nat (v mod 2 ^ 8))" by (simp add: write_i64_def del: be.simps)
    then show ?thesis using read_int_be [of 1 v r] i8 by (simp add: read_obj_marks [OF assms(1)] del: be.simps One_nat_def)
  next
    case i16
    then have "write_i64 v = 0xd1 # be 2 (nat (v mod 2 ^ 16))" by (simp add: write_i64_def)
    then show ?thesis using read_int_be [of 2 v r] i16 by (simp add: read_obj_marks [OF assms(1)])
  next
    case i32
    then have "write_i64 v = 0xd2 # be 4 (nat (v mod 2 ^ 32))" by (simp add: write_i64_def)
    then show ?thesis using read_int_be [of 4 v r] i32 by (simp add: read_obj_marks [OF assms(1)])
  next
    case i64
    then have "write_i64 v = 0xd3 # be 8 (nat (v mod 2 ^ 64))" by (simp add: write_i64_def)
    then show ?thesis using read_int_be [of 8 v r] i64 i by (simp add: read_obj_marks [OF assms(1)])
  qed
qed

lemma write_u64_read:
  assumes "d \<le> MAX_DEPTH" "u64_ok v"
  shows "read_obj d (write_u64 v @ r) = Inr (PInt v, r)"
  using assms read_uint_be [of v 8 r] by (simp add: write_u64_def read_obj_marks u64_ok_def)

lemma write_f64_read:
  assumes "d \<le> MAX_DEPTH"
  shows "read_obj d (0xcb # be 8 (unat f) @ r) = Inr (PFloat f, r)"
proof -
  have "unat f < 256 ^ 8" using unsigned_less [of f, where ?'a = nat] by simp
  then show ?thesis by (simp add: read_obj_marks [OF assms] len_of_be)
qed

end
