(* ===== verification/Codec_Props.thy ===== *)
theory Codec_Props
  imports Codec_Laws
begin

text \<open>
  The values the codec accepts, the round trip of encoding and decoding them, and the type of
  what the decoder returns. The codec parameter of the stores is instantiated with the model of
  the codec: the values the stores return unchanged are exactly the accepted ones without tuples.
\<close>

section \<open>Accepted values\<close>

primrec norm :: "pyval \<Rightarrow> pyval" where
  "norm PNone = PNone"
| "norm (PBool b) = PBool b"
| "norm (PInt i) = PInt i"
| "norm (PFloat f) = PFloat f"
| "norm (PStr s) = PStr s"
| "norm (PBytes b) = PBytes b"
| "norm (PList xs) = PList (map norm xs)"
| "norm (PTuple xs) = PList (map norm xs)"
| "norm (PDict d) = PDict (map (map_prod norm norm) d)"
| "norm (PObj n) = PObj n"

text \<open>Keys that are neither containers nor objects, no two of them equal.\<close>

fun plain_key :: "pyval \<Rightarrow> bool" where
  "plain_key (PList _) = False"
| "plain_key (PTuple _) = False"
| "plain_key (PDict _) = False"
| "plain_key (PObj _) = False"
| "plain_key _ = True"

fun keys_ok :: "pyval list \<Rightarrow> bool" where
  "keys_ok [] = True"
| "keys_ok (k # ks) = (plain_key k \<and> list_all (\<lambda>k'. \<not> key_eq k k') ks \<and> keys_ok ks)"

function accepted :: "nat \<Rightarrow> pyval \<Rightarrow> bool" where
  "accepted depth v =
     (if MAX_DEPTH < depth then False
      else case v of
        PInt i \<Rightarrow> i64_ok i \<or> u64_ok i
      | PStr s \<Rightarrow> is_text s \<and> length (utf8 s) < 2 ^ 32
      | PBytes b \<Rightarrow> length b < 2 ^ 32
      | PList xs \<Rightarrow> length xs < 2 ^ 32 \<and> list_all (\<lambda>x. accepted (Suc depth) x) xs
      | PTuple xs \<Rightarrow> length xs < 2 ^ 32 \<and> list_all (\<lambda>x. accepted (Suc depth) x) xs
      | PDict d \<Rightarrow> length d < 2 ^ 32 \<and> keys_ok (map fst d)
          \<and> list_all (\<lambda>(k, x). accepted (Suc depth) k \<and> accepted (Suc depth) x) d
      | PObj _ \<Rightarrow> False
      | _ \<Rightarrow> True)"
  by pat_completeness auto
termination
  by (relation "measure (\<lambda>(depth, _). 129 - depth)") (auto simp: MAX_DEPTH_def)

declare accepted.simps [simp del]

lemma accepted_simps:
  "accepted d PNone \<longleftrightarrow> d \<le> MAX_DEPTH" "accepted d (PBool b) \<longleftrightarrow> d \<le> MAX_DEPTH"
  "accepted d (PFloat f) \<longleftrightarrow> d \<le> MAX_DEPTH"
  "accepted d (PInt i) \<longleftrightarrow> d \<le> MAX_DEPTH \<and> (i64_ok i \<or> u64_ok i)"
  "accepted d (PStr s) \<longleftrightarrow> d \<le> MAX_DEPTH \<and> is_text s \<and> length (utf8 s) < 2 ^ 32"
  "accepted d (PBytes x) \<longleftrightarrow> d \<le> MAX_DEPTH \<and> length x < 2 ^ 32"
  "accepted d (PList xs) \<longleftrightarrow> d \<le> MAX_DEPTH \<and> length xs < 2 ^ 32 \<and> (\<forall>v \<in> set xs. accepted (Suc d) v)"
  "accepted d (PTuple xs) \<longleftrightarrow> d \<le> MAX_DEPTH \<and> length xs < 2 ^ 32 \<and> (\<forall>v \<in> set xs. accepted (Suc d) v)"
  "accepted d (PDict kv) \<longleftrightarrow> d \<le> MAX_DEPTH \<and> length kv < 2 ^ 32 \<and> keys_ok (map fst kv)
     \<and> (\<forall>(k, v) \<in> set kv. accepted (Suc d) k \<and> accepted (Suc d) v)"
  "\<not> accepted d (PObj n)"
  by (auto simp: accepted.simps [of d] list_all_iff)

section \<open>Round trip\<close>

text \<open>What \<open>f\<close> writes for \<open>x\<close>, \<open>rd\<close> reads as \<open>y\<close>, whatever follows.\<close>

definition reads_back :: "exc + bytes \<Rightarrow> (bytes \<Rightarrow> exc + (pyval \<times> bytes)) \<Rightarrow> pyval \<Rightarrow> bool" where
  "reads_back w rd y \<longleftrightarrow> (\<exists>bs. w = Inr bs \<and> (\<forall>r. rd (bs @ r) = Inr (y, r)))"

lemma items_back:
  "(\<And>x. x \<in> set xs \<Longrightarrow> reads_back (f x) rd (g x)) \<Longrightarrow>
   \<exists>bs. mapE f xs = Inr bs \<and> (\<forall>r. read_items rd (length xs) (concat bs @ r) = Inr (map g xs, r))"
proof (induction xs)
  case (Cons x xs)
  obtain b where b: "f x = Inr b" "\<forall>r. rd (b @ r) = Inr (g x, r)"
    using Cons.prems [of x] by (auto simp: reads_back_def)
  obtain bs where "mapE f xs = Inr bs" "\<forall>r. read_items rd (length xs) (concat bs @ r) = Inr (map g xs, r)"
    using Cons.IH Cons.prems by auto
  then show ?case using b by (intro exI [of _ "b # bs"]) simp
qed simp

lemma put_key_new: "list_all (\<lambda>k'. \<not> key_eq k' k) (map fst d) \<Longrightarrow> put_key k v d = d @ [(k, v)]"
  by (induction k v d rule: put_key.induct) auto

lemma plain_key_hashable: "plain_key k \<Longrightarrow> hashable k \<and> norm k = k"
  by (cases k) auto

definition write_pair :: "(pyval \<Rightarrow> exc + bytes) \<Rightarrow> pyval \<times> pyval \<Rightarrow> exc + bytes" where
  "write_pair f = (\<lambda>(k, v). bindE (f k) (\<lambda>x. bindE (f v) (\<lambda>y. Inr (x @ y))))"

lemma pairs_back:
  "(\<And>k x. (k, x) \<in> set kv \<Longrightarrow> reads_back (f k) rd (norm k) \<and> reads_back (f x) rd (norm x)) \<Longrightarrow>
   keys_ok (map fst kv) \<Longrightarrow> (\<And>a b. a \<in> set (map fst d) \<Longrightarrow> b \<in> set (map fst kv) \<Longrightarrow> \<not> key_eq a b) \<Longrightarrow>
   \<exists>bs. mapE (write_pair f) kv = Inr bs \<and>
     (\<forall>r. read_pairs rd (length kv) d (concat bs @ r) = Inr (d @ map (map_prod norm norm) kv, r))"
proof (induction kv arbitrary: d)
  case (Cons p kv)
  obtain k x where p: "p = (k, x)" by fastforce
  obtain a where a: "f k = Inr a" "\<forall>r. rd (a @ r) = Inr (norm k, r)"
    using Cons.prems(1) [of k x] p by (auto simp: reads_back_def)
  obtain b where b: "f x = Inr b" "\<forall>r. rd (b @ r) = Inr (norm x, r)"
    using Cons.prems(1) [of k x] p by (auto simp: reads_back_def)
  have k: "hashable k" "norm k = k" "plain_key k" using Cons.prems(2) p plain_key_hashable by auto
  have put: "put_key k (norm x) d = d @ [(k, norm x)]"
    using Cons.prems(3) p by (intro put_key_new) (auto simp: list_all_iff)
  have "\<exists>bs. mapE (write_pair f) kv = Inr bs \<and>
     (\<forall>r. read_pairs rd (length kv) (d @ [(k, norm x)]) (concat bs @ r)
        = Inr ((d @ [(k, norm x)]) @ map (map_prod norm norm) kv, r))"
  proof (rule Cons.IH)
    show "reads_back (f k) rd (norm k) \<and> reads_back (f x) rd (norm x)" if "(k, x) \<in> set kv" for k x
      using Cons.prems(1) [of k x] that by simp
    show "keys_ok (map fst kv)" using Cons.prems(2) p by simp
    show "\<not> key_eq a b" if "a \<in> set (map fst (d @ [(k, norm x)]))" "b \<in> set (map fst kv)" for a b
      using that Cons.prems(2,3) p by (auto simp: list_all_iff)
  qed
  then obtain bs where bs: "mapE (write_pair f) kv = Inr bs"
    "\<forall>r. read_pairs rd (length kv) (d @ [(k, norm x)]) (concat bs @ r)
        = Inr (d @ (k, norm x) # map (map_prod norm norm) kv, r)"
    by auto
  then show ?case using a b k put p
    by (intro exI [of _ "(a @ b) # bs"]) (simp add: write_pair_def set_item_def)
qed simp

lemma with_header_back:
  assumes "\<exists>h. hdr = Inr h \<and> (\<forall>r. rd (h @ r) = rd' r)"
    and "\<exists>bs. body = Inr bs \<and> (\<forall>r. rd' (concat bs @ r) = Inr (y, r))"
  shows "reads_back (with_header hdr body) rd y"
  using assms by (auto simp: reads_back_def with_header_def)

lemma write_obj_simps:
  assumes "d \<le> MAX_DEPTH"
  shows "write_obj d (PDict kv) = with_header (write_map_header (length kv)) (mapE (write_pair (write_obj (Suc d))) kv)"
    and "write_obj d (PList xs) = with_header (write_array_header (length xs)) (mapE (write_obj (Suc d)) xs)"
    and "write_obj d (PTuple xs) = with_header (write_array_header (length xs)) (mapE (write_obj (Suc d)) xs)"
  using assms by (simp_all add: write_obj.simps [of d] write_pair_def not_less)

lemma list_back:
  assumes d: "d \<le> MAX_DEPTH" and n: "length xs < 2 ^ 32"
    and xs: "\<And>x. x \<in> set xs \<Longrightarrow> reads_back (write_obj (Suc d) x) (read_obj (Suc d)) (norm x)"
  shows "reads_back (with_header (write_array_header (length xs)) (mapE (write_obj (Suc d)) xs))
     (read_obj d) (PList (map norm xs))"
proof (rule with_header_back)
  show "\<exists>h. write_array_header (length xs) = Inr h \<and>
      (\<forall>r. read_obj d (h @ r) = read_array (read_obj (Suc d)) (length xs) r)"
    using array_header [OF n] d by blast
  show "\<exists>bs. mapE (write_obj (Suc d)) xs = Inr bs \<and>
      (\<forall>r. read_array (read_obj (Suc d)) (length xs) (concat bs @ r) = Inr (PList (map norm xs), r))"
    using items_back [OF xs] by (fastforce simp: read_array_def)
qed

lemma write_read: "accepted d v \<Longrightarrow> reads_back (write_obj d v) (read_obj d) (norm v)"
proof (induction v arbitrary: d)
  case (PStr s)
  then have a: "d \<le> MAX_DEPTH" "is_text s" "length (utf8 s) < 2 ^ 32" by (auto simp: accepted_simps)
  have "reads_back (with_header (write_str_header (length (utf8 s))) (Inr [utf8 s])) (read_obj d) (PStr s)"
  proof (rule with_header_back)
    show "\<exists>h. write_str_header (length (utf8 s)) = Inr h \<and> (\<forall>r. read_obj d (h @ r) = read_str (length (utf8 s)) r)"
      using str_header [OF a(3)] a(1) by blast
  qed (simp add: read_str_def from_utf8_utf8 [OF a(2)])
  then show ?case using a by (simp add: write_obj.simps)
next
  case (PBytes b)
  then have a: "d \<le> MAX_DEPTH" "length b < 2 ^ 32" by (auto simp: accepted_simps)
  have "reads_back (with_header (write_bin_header (length b)) (Inr [b])) (read_obj d) (PBytes b)"
  proof (rule with_header_back)
    show "\<exists>h. write_bin_header (length b) = Inr h \<and> (\<forall>r. read_obj d (h @ r) = read_bin (length b) r)"
      using bin_header [OF a(2)] a(1) by blast
  qed (simp add: read_bin_def)
  then show ?case using a by (simp add: write_obj.simps)
next
  case (PInt i)
  then have d: "d \<le> MAX_DEPTH" and i: "i64_ok i \<or> u64_ok i" by (auto simp: accepted_simps)
  show ?case using d i write_i64_read [OF d] write_u64_read [OF d]
    by (auto simp: reads_back_def write_obj.simps)
next
  case (PFloat f)
  then show ?case using write_f64_read [of d f] by (auto simp: reads_back_def write_obj.simps accepted_simps)
next
  case (PList xs)
  then show ?case using list_back [of d xs] by (simp add: accepted_simps write_obj_simps)
next
  case (PTuple xs)
  then show ?case using list_back [of d xs] by (simp add: accepted_simps write_obj_simps)
next
  case (PDict kv)
  then have a: "d \<le> MAX_DEPTH" "length kv < 2 ^ 32" "keys_ok (map fst kv)"
    and kv: "\<And>k x. (k, x) \<in> set kv \<Longrightarrow> accepted (Suc d) k \<and> accepted (Suc d) x"
    by (auto simp: accepted_simps)
  have "reads_back (with_header (write_map_header (length kv)) (mapE (write_pair (write_obj (Suc d))) kv))
     (read_obj d) (PDict (map (map_prod norm norm) kv))"
  proof (rule with_header_back)
    show "\<exists>h. write_map_header (length kv) = Inr h \<and>
        (\<forall>r. read_obj d (h @ r) = read_map (read_obj (Suc d)) (length kv) r)"
      using map_header [OF a(2)] a(1) by blast
    have "reads_back (write_obj (Suc d) k) (read_obj (Suc d)) (norm k) \<and>
        reads_back (write_obj (Suc d) x) (read_obj (Suc d)) (norm x)" if "(k, x) \<in> set kv" for k x
      using PDict.IH(1) [OF that, of k "Suc d"] PDict.IH(2) [OF that, of x "Suc d"] kv [OF that]
      by (simp add: fsts.simps snds.simps)
    from pairs_back [OF this a(3), of "[]"]
    show "\<exists>bs. mapE (write_pair (write_obj (Suc d))) kv = Inr bs \<and>
        (\<forall>r. read_map (read_obj (Suc d)) (length kv) (concat bs @ r) = Inr (PDict (map (map_prod norm norm) kv), r))"
      by (fastforce simp: read_map_def)
  qed
  then show ?case using a by (simp add: write_obj_simps)
qed (auto simp: accepted_simps reads_back_def write_obj.simps read_obj_marks)

section \<open>The type of decoded values\<close>

definition decoded_ok :: "nat \<Rightarrow> pyval \<Rightarrow> bool" where
  "decoded_ok d v \<longleftrightarrow> accepted d v \<and> norm v = v"

lemma keys_ok_snoc:
  "keys_ok (ks @ [k]) \<longleftrightarrow> keys_ok ks \<and> plain_key k \<and> list_all (\<lambda>k'. \<not> key_eq k' k) ks"
  by (induction ks) auto

lemma put_key_cases:
  "(list_all (\<lambda>k'. \<not> key_eq k' k) (map fst d) \<and> put_key k v d = d @ [(k, v)])
   \<or> map fst (put_key k v d) = map fst d"
proof (induction k v d rule: put_key.induct)
  case (2 k v k' v' d)
  then show ?case by (cases "key_eq k' k") auto
qed simp

lemma set_put_key: "(a, b) \<in> set (put_key k v d) \<Longrightarrow> (a, b) \<in> set d \<or> b = v \<and> (a = k \<or> a \<in> fst ` set d)"
  by (induction k v d rule: put_key.induct) (force split: if_splits)+

lemma decoded_key_plain: "decoded_ok d k \<Longrightarrow> hashable k \<Longrightarrow> plain_key k"
  by (cases k) (auto simp: decoded_ok_def accepted_simps)

definition dict_part :: "nat \<Rightarrow> (pyval \<times> pyval) list \<Rightarrow> bool" where
  "dict_part d kv \<longleftrightarrow> keys_ok (map fst kv) \<and> (\<forall>(k, v) \<in> set kv. decoded_ok d k \<and> decoded_ok d v)"

lemma dict_part_put:
  assumes "dict_part d kv" "decoded_ok d k" "decoded_ok d v" "plain_key k"
  shows "dict_part d (put_key k v kv) \<and> length (put_key k v kv) \<le> Suc (length kv)"
proof -
  have keys: "keys_ok (map fst (put_key k v kv))" "length (put_key k v kv) \<le> Suc (length kv)"
    using put_key_cases [of k kv v] assms(1,4)
    by (auto simp: dict_part_def keys_ok_snoc dest: arg_cong [where f = length])
  have "decoded_ok d a \<and> decoded_ok d b" if "(a, b) \<in> set (put_key k v kv)" for a b
    using set_put_key [OF that] assms(1-3) unfolding dict_part_def by force
  then show ?thesis using keys by (auto simp: dict_part_def)
qed

lemma read_items_ok:
  assumes "\<And>bs v r. rd bs = Inr (v, r) \<Longrightarrow> decoded_ok d v"
  shows "read_items rd n bs = Inr (xs, r) \<Longrightarrow> length xs = n \<and> (\<forall>x \<in> set xs. decoded_ok d x)"
  using assms by (induction n arbitrary: bs xs r) (fastforce simp: bindE_eq_Inr)+

lemma read_pairs_ok:
  assumes rd: "\<And>bs v r. rd bs = Inr (v, r) \<Longrightarrow> decoded_ok d v"
  shows "read_pairs rd n kv bs = Inr (kv', r) \<Longrightarrow> dict_part d kv \<Longrightarrow>
    dict_part d kv' \<and> length kv' \<le> length kv + n"
proof (induction n arbitrary: kv bs)
  case (Suc n)
  obtain k r1 x r2 kv1 where e: "rd bs = Inr (k, r1)" "rd r1 = Inr (x, r2)" "set_item k x kv = Inr kv1"
    "read_pairs rd n kv1 r2 = Inr (kv', r)"
    using Suc.prems(1) by (auto simp: bindE_eq_Inr)
  have h: "hashable k" "kv1 = put_key k x kv" using e(3) by (auto simp: set_item_def split: if_splits)
  have "dict_part d kv1 \<and> length kv1 \<le> Suc (length kv)"
    unfolding h(2) by (rule dict_part_put [OF Suc.prems(2) rd [OF e(1)] rd [OF e(2)]])
      (rule decoded_key_plain [OF rd [OF e(1)] h(1)])
  then show ?case using Suc.IH [OF e(4)] by auto
qed simp

lemma list_decoded:
  assumes "d \<le> MAX_DEPTH" "length xs < 2 ^ 32" "\<forall>x \<in> set xs. decoded_ok (Suc d) x"
  shows "decoded_ok d (PList xs)"
  using assms by (auto simp: decoded_ok_def accepted_simps intro: map_idI)

lemma dict_decoded:
  assumes "d \<le> MAX_DEPTH" "length kv < 2 ^ 32" "dict_part (Suc d) kv"
  shows "decoded_ok d (PDict kv)"
  using assms by (auto simp: dict_part_def decoded_ok_def accepted_simps intro!: map_idI)

lemma read_array_ok:
  assumes "\<And>bs v r. rd bs = Inr (v, r) \<Longrightarrow> decoded_ok (Suc d) v" and "d \<le> MAX_DEPTH" and "n < 2 ^ 32"
    and "read_array rd n bs = Inr (v, r)"
  shows "decoded_ok d v"
  using assms(4) read_items_ok [OF assms(1)] list_decoded [OF assms(2)] assms(3)
  by (auto simp: read_array_def bindE_eq_Inr)

lemma read_map_ok:
  assumes "\<And>bs v r. rd bs = Inr (v, r) \<Longrightarrow> decoded_ok (Suc d) v" and "d \<le> MAX_DEPTH" and "n < 2 ^ 32"
    and "read_map rd n bs = Inr (v, r)"
  shows "decoded_ok d v"
proof -
  obtain kv where kv: "read_pairs rd n [] bs = Inr (kv, r)" "v = PDict kv"
    using assms(4) by (auto simp: read_map_def bindE_eq_Inr)
  have "dict_part (Suc d) kv \<and> length kv \<le> length ([]::(pyval \<times> pyval) list) + n"
    by (rule read_pairs_ok [OF assms(1) kv(1)]) (auto simp: dict_part_def)
  then show ?thesis using kv(2) dict_decoded [OF assms(2)] assms(3) by auto
qed

lemma sized_ok:
  assumes "\<And>n bs. n < 2 ^ 32 \<Longrightarrow> rd n bs = Inr (v, r) \<Longrightarrow> P v" and "w \<le> 4" and "sized w rd bs = Inr (v, r)"
  shows "P v"
proof -
  obtain n r1 where n: "len_of w bs = Inr (n, r1)" "rd n r1 = Inr (v, r)"
    using assms(3) by (auto simp: sized_def bindE_eq_Inr)
  have "n < 256 ^ w" using len_of_Inr [OF n(1)] by blast
  also have "\<dots> \<le> 256 ^ 4" using assms(2) by (intro power_increasing) auto
  finally have "n < 2 ^ 32" by simp
  then show ?thesis using assms(1) n(2) by blast
qed

lemma read_str_ok: "d \<le> MAX_DEPTH \<Longrightarrow> n < 2 ^ 32 \<Longrightarrow> read_str n bs = Inr (v, r) \<Longrightarrow> decoded_ok d v"
  using utf8_from_utf8 [of "take n bs"]
  by (auto simp: read_str_def rd_take_def decoded_ok_def accepted_simps split: if_splits option.splits)

lemma read_bin_ok: "d \<le> MAX_DEPTH \<Longrightarrow> n < 2 ^ 32 \<Longrightarrow> read_bin n bs = Inr (v, r) \<Longrightarrow> decoded_ok d v"
  by (auto simp: read_bin_def rd_take_def decoded_ok_def accepted_simps split: if_splits)

lemma read_uint_ok: "d \<le> MAX_DEPTH \<Longrightarrow> w \<le> 8 \<Longrightarrow> read_uint w bs = Inr (v, r) \<Longrightarrow> decoded_ok d v"
proof -
  assume a: "d \<le> MAX_DEPTH" "w \<le> 8" "read_uint w bs = Inr (v, r)"
  then obtain n where n: "len_of w bs = Inr (n, r)" "v = PInt (int n)"
    by (auto simp: read_uint_def bindE_eq_Inr)
  have "n < 256 ^ w" using len_of_Inr [OF n(1)] by blast
  also have "\<dots> \<le> 256 ^ 8" using a(2) by (intro power_increasing) auto
  finally show ?thesis using a(1) n(2) by (auto simp: decoded_ok_def accepted_simps u64_ok_def)
qed

lemma read_int_ok:
  assumes "d \<le> MAX_DEPTH" "w \<in> {1, 2, 4, 8}" "read_int w bs = Inr (v, r)"
  shows "decoded_ok d v"
proof -
  obtain n where n: "len_of w bs = Inr (n, r)"
    "v = PInt (if n < 2 ^ (8 * w - 1) then int n else int n - 2 ^ (8 * w))"
    using assms(3) by (auto simp: read_int_def bindE_eq_Inr)
  have "n < 256 ^ w" using len_of_Inr [OF n(1)] by blast
  then have "i64_ok (if n < 2 ^ (8 * w - 1) then int n else int n - 2 ^ (8 * w))"
    using assms(2) by (auto simp: i64_ok_def)
  then show ?thesis using assms(1) n(2) by (auto simp: decoded_ok_def accepted_simps)
qed

lemma int_decoded: "d \<le> MAX_DEPTH \<Longrightarrow> i64_ok i \<Longrightarrow> decoded_ok d (PInt i)"
  by (simp add: decoded_ok_def accepted_simps)

lemma atom_decoded:
  "d \<le> MAX_DEPTH \<Longrightarrow> decoded_ok d PNone \<and> decoded_ok d (PBool b) \<and> decoded_ok d (PFloat f)"
  by (simp add: decoded_ok_def accepted_simps)

lemma read_scalar_ok:
  assumes d: "d \<le> MAX_DEPTH" and k: "k < 256" and rd: "read_scalar k bs = Inr (v, r)"
  shows "decoded_ok d v"
proof -
  have str: "decoded_ok d v" if "sized w read_str bs = Inr (v, r)" "w \<le> 4" for w
    by (rule sized_ok [OF read_str_ok [OF d] that(2,1)])
  have bin: "decoded_ok d v" if "sized w read_bin bs = Inr (v, r)" "w \<le> 4" for w
    by (rule sized_ok [OF read_bin_ok [OF d] that(2,1)])
  have small: "decoded_ok d (PInt (int k))" if "k \<le> 127" by (rule int_decoded [OF d]) (use that in \<open>simp add: i64_ok_def\<close>)
  have neg: "decoded_ok d (PInt (int k - 256))" by (rule int_decoded [OF d]) (use k in \<open>simp add: i64_ok_def\<close>)
  have fixstr: "decoded_ok d v" if "read_str (k mod 32) bs = Inr (v, r)"
    by (rule read_str_ok [OF d _ that]) (simp add: less_trans [of _ 32])
  note rules = small neg fixstr str [of 1] str [of 2] str [of 4] bin [of 1] bin [of 2] bin [of 4]
    read_uint_ok [OF d, of 1] read_uint_ok [OF d, of 2] read_uint_ok [OF d, of 4] read_uint_ok [OF d, of 8]
    read_int_ok [OF d, of 1] read_int_ok [OF d, of 2] read_int_ok [OF d, of 4] read_int_ok [OF d, of 8]
  show ?thesis
    using rd unfolding read_scalar_def
    by (auto simp: bindE_eq_Inr atom_decoded [OF d] intro: rules split: if_split_asm)
qed

lemma read_obj_ok: "read_obj d bs = Inr (v, r) \<Longrightarrow> decoded_ok d v"
proof (induction "129 - d" arbitrary: d bs v r)
  case 0
  then have "MAX_DEPTH < d" by (simp add: MAX_DEPTH_def)
  then show ?case using 0(2) by (simp add: read_obj.simps [of d])
next
  case (Suc n)
  have d: "d \<le> MAX_DEPTH" using Suc(2) by (simp add: MAX_DEPTH_def)
  have IH: "decoded_ok (Suc d) v" if "read_obj (Suc d) bs = Inr (v, r)" for bs v r
    using Suc(1) [of "Suc d" bs v r] Suc(2) that by simp
  obtain b s where bs: "bs = b # s" using Suc(3) d by (cases bs) (auto simp: read_obj.simps)
  have k: "unat b < 256" using unsigned_less [of b, where ?'a = nat] by simp
  have m: "unat b mod 16 < 2 ^ 32" by (simp add: less_trans [of _ 16])
  have fixed: "decoded_ok d v" if "read_array (\<lambda>x. read_obj (Suc d) x) (unat b mod 16) s = Inr (v, r)
      \<or> read_map (\<lambda>x. read_obj (Suc d) x) (unat b mod 16) s = Inr (v, r)"
    using that read_array_ok [where rd = "\<lambda>x. read_obj (Suc d) x", OF _ d m] IH
      read_map_ok [where rd = "\<lambda>x. read_obj (Suc d) x", OF _ d m] by blast
  have arr: "decoded_ok d v" if "sized w (read_array (\<lambda>x. read_obj (Suc d) x)) s = Inr (v, r)" "w \<le> 4" for w
    by (rule sized_ok [OF read_array_ok [where rd = "\<lambda>x. read_obj (Suc d) x", OF IH d] that(2,1)])
  have dict: "decoded_ok d v" if "sized w (read_map (\<lambda>x. read_obj (Suc d) x)) s = Inr (v, r)" "w \<le> 4" for w
    by (rule sized_ok [OF read_map_ok [where rd = "\<lambda>x. read_obj (Suc d) x", OF IH d] that(2,1)])
  have nd: "\<not> MAX_DEPTH < d" using d by simp
  from Suc(3) show ?case
    unfolding bs read_obj.simps [of d] if_not_P [OF nd] list.case Let_def
    using fixed arr [of 2] arr [of 4]
      dict [of 2] dict [of 4] read_scalar_ok [OF d k, of s v r]
    by (simp split: if_split_asm)
qed

section \<open>The codec\<close>

lemma encode_decode:
  assumes "accepted 0 v"
  shows "\<exists>bs. mp_encode v = Inr bs \<and> (\<forall>rest. mp_decode (bs @ rest) = Inr (norm v))"
  using write_read [OF assms] by (auto simp: reads_back_def mp_encode_def mp_decode_def)

lemma decode_ok: "mp_decode bs = Inr v \<Longrightarrow> accepted 0 v \<and> norm v = v"
  using read_obj_ok [of 0 bs v] by (auto simp: mp_decode_def bindE_eq_Inr decoded_ok_def)

lemma storable_msgpack: "storable msgpack v \<longleftrightarrow> accepted 0 v \<and> norm v = v"
proof
  assume "storable msgpack v"
  then obtain bs where "mp_decode bs = Inr v" by (auto simp: storable_iff msgpack_def)
  then show "accepted 0 v \<and> norm v = v" by (rule decode_ok)
next
  assume v: "accepted 0 v \<and> norm v = v"
  then obtain bs where "mp_encode v = Inr bs" "\<forall>rest. mp_decode (bs @ rest) = Inr v"
    using encode_decode [of v] by auto
  then have "mp_encode v = Inr bs \<and> mp_decode bs = Inr v" by (metis append_Nil2)
  then show "storable msgpack v" by (auto simp: storable_iff msgpack_def)
qed

lemma tuple_key_unreadable:
  assumes "accepted 1 (PTuple xs)" and "accepted 1 v"
  shows "\<exists>bs. mp_encode (PDict [(PTuple xs, v)]) = Inr bs \<and> mp_decode bs = Inl TypeError"
proof -
  have 1: "Suc 0 = (1::nat)" by simp
  obtain a where a: "write_obj 1 (PTuple xs) = Inr a" "\<forall>r. read_obj 1 (a @ r) = Inr (PList (map norm xs), r)"
    using write_read [OF assms(1)] by (auto simp: reads_back_def)
  obtain b where b: "write_obj 1 v = Inr b" "\<forall>r. read_obj 1 (b @ r) = Inr (norm v, r)"
    using write_read [OF assms(2)] by (auto simp: reads_back_def)
  obtain h where h: "write_map_header 1 = Inr h"
    "\<forall>r. read_obj 0 (h @ r) = read_map (\<lambda>x. read_obj 1 x) 1 r"
    using map_header [of 1] by force
  have "mp_encode (PDict [(PTuple xs, v)]) = Inr (h @ a @ b)"
    using a(1) b(1) h(1) by (simp add: mp_encode_def write_obj_simps with_header_def write_pair_def 1 del: One_nat_def)
  moreover have "read_pairs (\<lambda>x. read_obj 1 x) 1 [] (a @ b) = Inl TypeError"
    using a(2) b(2) [THEN spec, of "[]"] by (simp add: set_item_def flip: 1)
  then have "mp_decode (h @ a @ b) = Inl TypeError" using h(2) by (simp add: mp_decode_def read_map_def)
  ultimately show ?thesis by blast
qed

text \<open>
  C38. Every accepted value (the supported types, integers of 64 bits, text with a UTF-8 form,
  lengths of 32 bits, at most 128 levels of nesting, dictionary keys that are not containers) is
  encoded, and decoding the bytes, whatever follows them, gives the value back with its tuples as
  lists. A dictionary with a tuple as key is encoded too, but decoding it raises \<open>TypeError\<close>.
\<close>
theorem codec_roundtrip:
  assumes "accepted 0 v"
  shows "(\<exists>bs. mp_encode v = Inr bs \<and> (\<forall>rest. mp_decode (bs @ rest) = Inr (norm v)))
    \<and> (accepted 1 (PTuple xs) \<and> accepted 1 v \<longrightarrow>
        (\<exists>bs. mp_encode (PDict [(PTuple xs, v)]) = Inr bs \<and> mp_decode bs = Inl TypeError))"
  using encode_decode [OF assms] tuple_key_unreadable by blast

theorem codec_roundtrip_witness:
  "(\<exists>bs. mp_encode (PTuple [PInt (- 5), PStr [233]]) = Inr bs \<and> mp_decode bs = Inr (PList [PInt (- 5), PStr [233]]))
   \<and> (\<exists>bs. mp_encode (PDict [(PTuple [], PTuple [PInt (- 5), PStr [233]])]) = Inr bs \<and> mp_decode bs = Inl TypeError)"
proof -
  let ?v = "PTuple [PInt (- 5), PStr [233]]"
  have v: "accepted 0 ?v" "accepted 1 ?v" "accepted 1 (PTuple [])"
    by (simp_all add: accepted_simps MAX_DEPTH_def i64_ok_def scalar_def utf8_def utf8_char_def)
  obtain bs where "mp_encode ?v = Inr bs" "\<forall>rest. mp_decode (bs @ rest) = Inr (norm ?v)"
    using codec_roundtrip [OF v(1), of "[]"] by blast
  moreover from this have "mp_decode bs = Inr (norm ?v)" by (metis append_Nil2)
  ultimately show ?thesis using codec_roundtrip [OF v(1), of "[]"] v(2,3) by simp
qed

text \<open>
  C39. The type of stored values: whatever bytes are decoded, the result is an accepted value
  without tuples, dictionary keys in it are hashable and pairwise different, and encoding and
  decoding it again gives the same value. These are exactly the values a store returns as they
  were put.
\<close>
theorem codec_values_closed:
  "(storable msgpack v \<longleftrightarrow> accepted 0 v \<and> norm v = v)
   \<and> (case mp_decode bs of Inl e \<Rightarrow> True | Inr w \<Rightarrow> accepted 0 w \<and> norm w = w \<and> storable msgpack w)"
  using decode_ok [of bs] storable_msgpack by (auto split: sum.split)

end
