(* ===== verification/Migration.thy ===== *)
theory Migration
  imports Saver_Props Portability_Props Codec_Props
begin

text \<open>
  A checkpointer moved to another store: two savers whose stores hold the same entries read and
  list the same checkpoints, although the stores enumerate their keys in different orders and
  find the latest checkpoint in different ways (by the stored pointer or by an index).
\<close>

section \<open>Stores with the same entries\<close>

text \<open>The same entries, the latest pointers left aside: reading the latest checkpoint may repair
  its pointer.\<close>

definition agree :: "content \<Rightarrow> content \<Rightarrow> bool" where
  "agree m m' \<longleftrightarrow> (\<forall>ns k. ns \<noteq> LATEST_NS \<longrightarrow> m (ns, k) = m' (ns, k))"

lemma agreeD: "agree m m' \<Longrightarrow> ns \<noteq> LATEST_NS \<Longrightarrow> m (ns, k) = m' (ns, k)"
  by (simp add: agree_def)

lemma agree_keys: "agree m m' \<Longrightarrow> ns \<noteq> LATEST_NS \<Longrightarrow> ns_keys m ns = ns_keys m' ns"
  by (simp add: ns_keys_def agree_def)

lemma agree_refl: "agree m m"
  by (simp add: agree_def)

lemma agree_pointers:
  "m1 = m \<or> m1 = m((LATEST_NS, k) \<mapsto> v) \<and> P \<Longrightarrow> m2 = m \<or> m2 = m((LATEST_NS, k) \<mapsto> v') \<and> Q \<Longrightarrow> agree m1 m2"
  by (auto simp: agree_def)

text \<open>The keys of the pending writes are the ones \<open>put_writes\<close> makes.\<close>

definition write_keys_ok :: "content \<Rightarrow> bool" where
  "write_keys_ok m \<longleftrightarrow>
     (\<forall>t c i k. m (writes_ns t c i, k) \<noteq> None \<longrightarrow> (\<exists>task j. k = write_key task j))"

lemma write_keys_image:
  assumes "write_keys_ok m"
  obtains D where "ns_keys m (writes_ns t c i) = wkey ` D"
proof -
  have "\<exists>p. k = wkey p" if "k \<in> ns_keys m (writes_ns t c i)" for k
    using assms that by (fastforce simp: write_keys_ok_def ns_keys_def)
  then have "ns_keys m (writes_ns t c i) \<subseteq> range wkey" by blast
  with that show ?thesis by (metis subset_image_iff)
qed

lemma write_keys_ok_pointer: "write_keys_ok (m((LATEST_NS, k) \<mapsto> v)) \<longleftrightarrow> write_keys_ok m"
  by (simp add: write_keys_ok_def)

text \<open>What a reader needs of a thread to find its latest checkpoint in any store.\<close>

definition latest_readable :: "(pyval \<Rightarrow> bool) \<Rightarrow> content \<Rightarrow> pystr \<Rightarrow> pystr \<Rightarrow> bool" where
  "latest_readable okv m t c \<longleftrightarrow> is_text t \<and> is_text c \<and> ptr_sound m t c \<and> ckpts_ok m t c \<and>
     (ns_keys m (ckpt_ns t c) \<noteq> {} \<longrightarrow> okv (PStr (Max (ns_keys m (ckpt_ns t c)))))"

lemma same_set_short:
  assumes "distinct ks" "distinct ks'" "set ks = set ks'" "length ks \<le> 1"
  shows "ks = ks'"
proof -
  have "length ks' = length ks" using assms(1-3) by (metis distinct_card)
  with assms show ?thesis by (cases ks; cases ks') auto
qed

lemma pending_order:
  assumes "distinct ks" "distinct ks'" "set ks = set ks'" "set ks = wkey ` D"
  shows "(if length ks > 1 then sort_writes ks else Inr ks) = (if length ks' > 1 then sort_writes ks' else Inr ks')"
proof -
  have len: "length ks' = length ks" using assms(1-3) by (metis distinct_card)
  have "finite D" using assms(4) finite_imageD [OF _ inj_wkey] by (metis List.finite_set)
  then have "sort_writes ks = sort_writes ks'"
    using sort_writes_keys [OF assms(1,4)] sort_writes_keys [OF assms(2), of D] assms(3,4) by simp
  with len same_set_short [OF assms(1-3)] show ?thesis by auto
qed

lemma same_set_sort: "distinct ks \<Longrightarrow> distinct ks' \<Longrightarrow> set ks = set ks' \<Longrightarrow> sort ks = sort (ks' :: 'a :: linorder list)"
  using sorted_list_of_set_sort_remdups [of ks] sorted_list_of_set_sort_remdups [of ks']
  by (simp add: distinct_remdups_id)

text \<open>A listing that names the thread and the checkpoint namespace visits one namespace.\<close>

definition target_of :: "pystr \<Rightarrow> config \<Rightarrow> pystr \<Rightarrow> (pystr \<times> pystr \<times> pystr) option" where
  "target_of t cfg ns = (case split_on SEP ns of
       [_, t', c] \<Rightarrow>
         if t' \<noteq> t then None
         else if (case cfg_checkpoint_ns cfg of None \<Rightarrow> False | Some want \<Rightarrow> c \<noteq> want) then None
         else Some (t', c, ns)
     | _ \<Rightarrow> None)"

lemma list_targets_of:
  "list_targets ops (Some cfg) = bindA (liftE (need (cfg_thread_id cfg))) (\<lambda>t.
     bindA (namespaces ops (lit ''ck'' @ SEP # t @ [SEP])) (\<lambda>nss. retA (List.map_filter (target_of t cfg) nss)))"
  unfolding list_targets_def target_of_def [abs_def] by simp

lemma target_of_Some:
  assumes "target_of t cfg ns = Some x" "cfg_checkpoint_ns cfg = Some c" "startswith ns (lit ''ck'' @ SEP # t @ [SEP])"
  shows "ns = ckpt_ns t c"
proof -
  obtain y where y: "split_on SEP ns = [y, t, c]"
    using assms(1,2) by (auto simp: target_of_def split: list.splits if_splits)
  obtain r where "ns = lit ''ck'' @ SEP # t @ SEP # r" using assms(3) by (auto simp: startswith_iff)
  moreover have "ns = y @ SEP # t @ SEP # c" using join_split [of SEP ns] unfolding y by simp
  moreover have "SEP \<notin> set y" using split_on_no_sep [of y SEP ns] y by simp
  moreover have "SEP \<notin> set (lit ''ck'')" by (simp add: SEP_def)
  ultimately have "y = lit ''ck''" by (metis sep_append_inj)
  with \<open>ns = y @ SEP # t @ SEP # c\<close> show ?thesis by (simp add: ckpt_ns_def)
qed

lemma map_filter_one:
  assumes "distinct xs" "\<And>x. x \<in> set xs \<Longrightarrow> f x \<noteq> None \<Longrightarrow> x = a"
  shows "List.map_filter f xs = (if a \<in> set xs then case f a of None \<Rightarrow> [] | Some y \<Rightarrow> [y] else [])"
  using assms
proof (induction xs)
  case (Cons x xs)
  then have "List.map_filter f xs = (if a \<in> set xs then case f a of None \<Rightarrow> [] | Some y \<Rightarrow> [y] else [])" by simp
  with Cons.prems show ?case by (cases "f x") (auto simp: map_filter_simps split: option.splits)
qed (simp add: map_filter_simps)

section \<open>Two savers\<close>

locale saver_pair = a: saver_lib ops inv content is_text okv E + b: saver_lib ops' inv' content' is_text okv E
  for ops :: "'a store_ops" and inv content and ops' :: "'b store_ops" and inv' content' and okv E
begin

lemma build_agree:
  assumes "inv (sv_store sv)" "inv' (sv_store sv')" "incremental sv = incremental sv'"
    and ag: "agree (content (sv_store sv)) (content' (sv_store sv'))" and wk: "write_keys_ok (content (sv_store sv))"
  shows "build_tuple ops E t c i saved md sv = build_tuple ops' E t c i saved md sv'"
proof -
  have many: "get_many ops ns ks sv = get_many ops' ns ks sv'" if "ns \<noteq> LATEST_NS" for ns ks
    using agreeD [OF ag that] by (simp add: a.read_many assms(1) b.read_many assms(2))
  obtain D where D: "ns_keys (content (sv_store sv)) (writes_ns t c i) = wkey ` D"
    using write_keys_image [OF wk] .
  let ?ks = "store_keys ops (writes_ns t c i) sv" and ?ks' = "store_keys ops' (writes_ns t c i) sv'"
  have "distinct ?ks" "distinct ?ks'" "set ?ks = set ?ks'" "set ?ks = wkey ` D"
    using a.read_keys [OF assms(1)] b.read_keys [OF assms(2)] agree_keys [OF ag] D by simp_all
  then have "(if length ?ks > 1 then sort_writes ?ks else Inr ?ks) = (if length ?ks' > 1 then sort_writes ?ks' else Inr ?ks')"
    by (rule pending_order)
  then show ?thesis
    unfolding build_tuple_def Let_def read_blobs_def by (simp only: many assms(3) kinds_distinct simp_thms not_False_eq_True)
qed

lemma get_tuple_agree:
  assumes "inv (sv_store sv)" "inv' (sv_store sv')" "incremental sv = incremental sv'"
    and eq: "content (sv_store sv) = content' (sv_store sv')" and wk: "write_keys_ok (content (sv_store sv))"
    and latest: "\<And>t. \<not> truthy (get_checkpoint_id E cfg) \<Longrightarrow> cfg_thread_id cfg = Some t \<Longrightarrow>
      latest_readable okv (content (sv_store sv)) t (cfg_ns cfg)"
  shows "fst (get_tuple ops E cfg sv) = fst (get_tuple ops' E cfg sv')"
proof (cases "cfg_thread_id cfg")
  case None
  then show ?thesis by (simp add: get_tuple_def resolve_def need_def act_simps)
next
  case (Some t)
  show ?thesis
  proof (cases "truthy (get_checkpoint_id E cfg)")
    case True
    obtain r where r: "resolve ops E cfg sv = (r, sv)" "resolve ops' E cfg sv' = (r, sv')"
      using Some True assms(1,2) eq
      by (cases "as_str (get_checkpoint_id E cfg)") (simp_all add: resolve_def need_def act_simps Let_def)
    show ?thesis
      using build_agree [OF assms(1-3) _ wk] eq agree_refl
      by (cases r) (auto simp: get_tuple_def r act_simps split: option.splits prod.splits sum.splits)
  next
    case False
    let ?m = "content (sv_store sv)" and ?c = "cfg_ns cfg"
    note l = latest [OF False Some, unfolded latest_readable_def]
    obtain s where s: "inv s" "content s = ?m \<or> content s = ?m((LATEST_NS, latest_key t ?c) \<mapsto> PStr (Max (ns_keys ?m (ckpt_ns t ?c)))) \<and> ns_keys ?m (ckpt_ns t ?c) \<noteq> {}"
      "resolve ops E cfg sv = (Inr (if ns_keys ?m (ckpt_ns t ?c) = {} then None
         else Some (t, ?c, Max (ns_keys ?m (ckpt_ns t ?c)), the_default PNone (?m (ckpt_ns t ?c, Max (ns_keys ?m (ckpt_ns t ?c)))))), sv\<lparr>sv_store := s\<rparr>)"
      using a.resolve_newest [OF assms(1), of t ?c cfg] l Some False by blast
    obtain s' where s': "inv' s'" "content' s' = ?m \<or> content' s' = ?m((LATEST_NS, latest_key t ?c) \<mapsto> PStr (Max (ns_keys ?m (ckpt_ns t ?c)))) \<and> ns_keys ?m (ckpt_ns t ?c) \<noteq> {}"
      "resolve ops' E cfg sv' = (Inr (if ns_keys ?m (ckpt_ns t ?c) = {} then None
         else Some (t, ?c, Max (ns_keys ?m (ckpt_ns t ?c)), the_default PNone (?m (ckpt_ns t ?c, Max (ns_keys ?m (ckpt_ns t ?c)))))), sv'\<lparr>sv_store := s'\<rparr>)"
      using b.resolve_newest [OF assms(2), of t ?c cfg] l Some False unfolding eq by blast
    have wk': "write_keys_ok (content s)"
      using s(2) by (elim disjE conjE) (simp_all only: wk write_keys_ok_pointer)
    have "build_tuple ops E t ?c i saved md (sv\<lparr>sv_store := s\<rparr>) = build_tuple ops' E t ?c i saved md (sv'\<lparr>sv_store := s'\<rparr>)" for i saved md
      by (rule build_agree) (use s(1) s'(1) assms(3) agree_pointers [OF s(2) s'(2)] wk' in simp_all)
    then show ?thesis by (simp add: get_tuple_def s(3) s'(3) act_simps split: sum.splits)
  qed
qed

lemma list_ids_agree:
  assumes "inv (sv_store sv)" "inv' (sv_store sv')" "incremental sv = incremental sv'"
    and eq: "content (sv_store sv) = content' (sv_store sv')" and wk: "write_keys_ok (content (sv_store sv))"
  shows "list_ids ops E flt before lim t c ns ids n sv = list_ids ops' E flt before lim t c ns ids n sv'"
proof (induction ids arbitrary: n)
  case (Cons cid ids)
  have get: "store_get ops ns cid sv = store_get ops' ns cid sv'"
    using assms(1,2) eq by simp
  have b: "build_tuple ops E t c i saved md sv = build_tuple ops' E t c i saved md sv'" for i saved md
    by (rule build_agree) (use assms agree_refl in simp_all)
  show ?case unfolding list_ids.simps Cons.IH get b ..
qed simp

lemma list_loop_agree:
  assumes "inv (sv_store sv)" "inv' (sv_store sv')" "incremental sv = incremental sv'"
    and eq: "content (sv_store sv) = content' (sv_store sv')" and wk: "write_keys_ok (content (sv_store sv))"
  shows "list_loop ops E flt want before lim targets n sv = list_loop ops' E flt want before lim targets n sv'"
proof (induction targets arbitrary: n)
  case (Cons x targets)
  obtain t c ns where x: "x = (t, c, ns)" by (cases x)
  have "sort (store_keys ops ns sv) = sort (store_keys ops' ns sv')"
    using a.read_keys [OF assms(1), of ns] b.read_keys [OF assms(2), of ns] eq by (intro same_set_sort) simp_all
  then show ?case unfolding x list_loop.simps list_ids_agree [OF assms] Cons.IH by simp
qed simp

lemma list_agree:
  assumes "inv (sv_store sv)" "inv' (sv_store sv')" "incremental sv = incremental sv'"
    and eq: "content (sv_store sv) = content' (sv_store sv')" and wk: "write_keys_ok (content (sv_store sv))"
    and cfg: "cfg_checkpoint_ns cfg \<noteq> None" "\<And>t. cfg_thread_id cfg = Some t \<Longrightarrow> is_text t"
  shows "fst (list_checkpoints ops E (Some cfg) flt before lim sv) = fst (list_checkpoints ops' E (Some cfg) flt before lim sv')"
proof (cases "cfg_thread_id cfg")
  case None
  then show ?thesis by (simp add: list_checkpoints_def list_targets_def need_def act_simps Let_def)
next
  case (Some t)
  obtain c where c: "cfg_checkpoint_ns cfg = Some c" using cfg(1) by blast
  let ?p = "lit ''ck'' @ SEP # t @ [SEP]"
  have p: "is_text ?p" using cfg(2) [OF Some] a.kinds_okt(1) by (simp del: lit_simps)
  obtain nss f where n: "namespaces ops ?p sv = (Inr nss, sv\<lparr>store_takes_prefix := f\<rparr>)" "distinct nss"
      "set nss = {ns \<in> ns_names (content (sv_store sv)). startswith ns ?p}"
    using a.do_namespaces [OF assms(1) p] .
  obtain nss' f' where n': "namespaces ops' ?p sv' = (Inr nss', sv'\<lparr>store_takes_prefix := f'\<rparr>)" "distinct nss'"
      "set nss' = {ns \<in> ns_names (content (sv_store sv)). startswith ns ?p}"
    using b.do_namespaces [OF assms(2) p] unfolding eq .
  have one: "List.map_filter (target_of t cfg) xs = (if ckpt_ns t c \<in> set xs then case target_of t cfg (ckpt_ns t c) of None \<Rightarrow> [] | Some y \<Rightarrow> [y] else [])"
    if "distinct xs" "set xs = {ns \<in> ns_names (content (sv_store sv)). startswith ns ?p}" for xs
    using that target_of_Some [OF _ c] by (intro map_filter_one) auto
  have tg: "List.map_filter (target_of t cfg) nss = List.map_filter (target_of t cfg) nss'"
    unfolding one [OF n(2,3)] one [OF n'(2,3)] n(3) n'(3) ..
  have loop: "list_loop ops E flt want bef lim ts k (sv\<lparr>store_takes_prefix := f\<rparr>) =
      list_loop ops' E flt want bef lim ts k (sv'\<lparr>store_takes_prefix := f'\<rparr>)" for want bef ts k
    by (rule list_loop_agree) (use assms in simp_all)
  show ?thesis
    unfolding list_checkpoints_def list_targets_of Let_def by (simp add: act_simps Some need_def n(1) n'(1) tg loop del: lit_simps)
qed

end

interpretation mem_disk_savers: saver_pair "mem_ops C h" "mem_inv C h" "mem_content C h"
    "disk_ops C" "disk_inv C" "disk_content C" "storable C" E
  for C :: codec and h :: "pystr \<Rightarrow> nat" and E :: lg_env
  by unfold_locales

end
