(* ===== verification/Connections.thy ===== *)
theory Connections
  imports Prelude
begin

text \<open>
  The life cycle of the connections of the backends: per thread in
  \<^verbatim>\<open>src/python/swarmstate/backends/disk.py\<close>, a pool or one connection and a pool per event loop in
  \<^verbatim>\<open>backends/postgres.py\<close>, a client per event loop in \<^verbatim>\<open>backends/redis.py\<close>. The driver is seen by
  the objects it has made (numbered in the order they are opened) and those that were closed.
  Threads and event loops are numbers.

  The asynchronous methods of the PostgreSQL store are a state machine: a task runs from one
  \<open>await\<close> to the next without interruption, and between them the tasks of all event loops
  interleave in any order. The context manager \<open>_aconnection\<close> and \<open>aclose\<close> are split at their
  awaits.
\<close>

section \<open>SQLite: a connection per thread\<close>

record disk_conns =
  dc_local :: "(nat, nat) dict"
  dc_conns :: "nat list"
  dc_made :: nat
  dc_closed :: "nat list"

definition disk_connect :: "nat \<Rightarrow> disk_conns \<Rightarrow> nat \<times> disk_conns" where
  "disk_connect thread st =
     (case dget (dc_local st) thread of
        Some conn \<Rightarrow> (conn, st)
      | None \<Rightarrow>
          let conn = dc_made st
          in (conn, st\<lparr>dc_made := conn + 1, dc_local := dset thread conn (dc_local st), dc_conns := dc_conns st @ [conn]\<rparr>))"

definition disk_close :: "disk_conns \<Rightarrow> disk_conns" where
  "disk_close st = st\<lparr>dc_conns := [], dc_closed := dc_closed st @ dc_conns st, dc_local := []\<rparr>"

section \<open>PostgreSQL: the synchronous connection\<close>

datatype conn = GivenPool | GivenConn | OpenedPool nat | OpenedConn nat

record pg_conns =
  pc_conn :: "conn option"
  pc_pool :: "conn option"
  pc_dsn :: "pystr option"
  pc_apool :: "conn option"
  pc_apools :: "(nat, conn) dict"
  pc_made :: nat
  pc_closed :: "conn list"

text \<open>\<open>_make_pool\<close>; \<open>pkg\<close> tells whether \<open>psycopg_pool\<close> can be imported.\<close>

definition make_pool :: "bool \<Rightarrow> pg_conns \<Rightarrow> conn option \<times> pg_conns" where
  "make_pool pkg st =
     (if pkg then (Some (OpenedPool (pc_made st)), st\<lparr>pc_made := pc_made st + 1\<rparr>)
      else (None, st\<lparr>pc_conn := Some (OpenedConn (pc_made st)), pc_made := pc_made st + 1\<rparr>))"

definition pg_connect_init :: "bool \<Rightarrow> pystr \<Rightarrow> bool \<Rightarrow> bool \<Rightarrow> bool \<Rightarrow> pg_conns" where
  "pg_connect_init pkg dsn conn pool apool =
     (let st = \<lparr>pc_conn = (if conn then Some GivenConn else None), pc_pool = (if pool then Some GivenPool else None),
                pc_dsn = None, pc_apool = (if apool then Some GivenPool else None), pc_apools = [], pc_made = 0, pc_closed = []\<rparr>
      in if pc_conn st = None \<and> pc_pool st = None
         then case make_pool pkg (st\<lparr>pc_dsn := Some dsn\<rparr>) of (p, st') \<Rightarrow> st'\<lparr>pc_pool := p\<rparr>
         else st)"

text \<open>\<open>_connection\<close> yields a connection of the pool, or the attribute, which is \<open>None\<close> once closed.\<close>

definition pg_connection :: "pg_conns \<Rightarrow> conn option" where
  "pg_connection st = (case pc_pool st of Some p \<Rightarrow> Some p | None \<Rightarrow> pc_conn st)"

definition pg_close :: "pg_conns \<Rightarrow> pg_conns" where
  "pg_close st =
     (case pc_pool st of
        Some p \<Rightarrow> st\<lparr>pc_closed := p # pc_closed st, pc_pool := None\<rparr>
      | None \<Rightarrow>
          case pc_conn st of
            Some c \<Rightarrow> st\<lparr>pc_closed := c # pc_closed st, pc_conn := None\<rparr>
          | None \<Rightarrow> st)"

definition pg_supports_async :: "pg_conns \<Rightarrow> bool" where
  "pg_supports_async st \<longleftrightarrow> pc_apool st \<noteq> None \<or> pc_dsn st \<noteq> None"

section \<open>PostgreSQL: the connections of the event loops\<close>

text \<open>What a task does: a block under \<open>_aconnection\<close>, or \<open>aclose\<close>, on an event loop.\<close>

datatype job = Use nat | Shut nat

text \<open>Where it is: at an \<open>await\<close> (opening, closing the connection that lost the race, inside the
  block, closing), or at its end.\<close>

datatype activity = Ready | Opening | Losing conn conn | Using conn | Closing conn | Finished | Failed exc

text \<open>\<open>_aconnection\<close> up to its first await, the check of \<open>_open_async\<close> included.\<close>

definition aconnection_enter :: "nat \<Rightarrow> pg_conns \<Rightarrow> activity" where
  "aconnection_enter loop st =
     (case pc_apool st of
        Some p \<Rightarrow> Using p
      | None \<Rightarrow>
          case dget (pc_apools st) loop of
            Some entry \<Rightarrow> Using entry
          | None \<Rightarrow> if pc_dsn st = None then Failed RuntimeError else Opening)"

text \<open>The end of \<open>_open_async\<close>, and \<open>_aconnection\<close> from there: \<open>setdefault\<close> decides the race.\<close>

definition open_async :: "bool \<Rightarrow> pg_conns \<Rightarrow> conn \<times> pg_conns" where
  "open_async pkg st =
     (if pkg then OpenedPool (pc_made st) else OpenedConn (pc_made st), st\<lparr>pc_made := pc_made st + 1\<rparr>)"

definition aconnection_opened :: "bool \<Rightarrow> nat \<Rightarrow> pg_conns \<Rightarrow> activity \<times> pg_conns" where
  "aconnection_opened pkg loop st =
     (case open_async pkg st of (made, st1) \<Rightarrow>
        case dget (pc_apools st1) loop of
          None \<Rightarrow> (Using made, st1\<lparr>pc_apools := dset loop made (pc_apools st1)\<rparr>)
        | Some entry \<Rightarrow> (if entry \<noteq> made then Losing made entry else Using entry, st1))"

definition close_async :: "conn \<Rightarrow> pg_conns \<Rightarrow> pg_conns" where
  "close_async entry st = st\<lparr>pc_closed := entry # pc_closed st\<rparr>"

text \<open>\<open>aclose\<close> up to its await, and after it; the attribute is reset after the pool is closed.\<close>

definition aclose_enter :: "nat \<Rightarrow> pg_conns \<Rightarrow> activity \<times> pg_conns" where
  "aclose_enter loop st =
     (case pc_apool st of
        Some p \<Rightarrow> (Closing p, st)
      | None \<Rightarrow>
          case dget (pc_apools st) loop of
            Some entry \<Rightarrow> (Closing entry, st\<lparr>pc_apools := ddel loop (pc_apools st)\<rparr>)
          | None \<Rightarrow> (Finished, st))"

definition aclose_done :: "conn \<Rightarrow> pg_conns \<Rightarrow> pg_conns" where
  "aclose_done c st =
     (if c = GivenPool then (close_async c st)\<lparr>pc_apool := None\<rparr> else close_async c st)"

text \<open>A task between two awaits; \<open>failure\<close> is the exception opening ends with, if it does.\<close>

definition run_task :: "bool \<Rightarrow> job \<Rightarrow> exc option \<Rightarrow> activity \<Rightarrow> pg_conns \<Rightarrow> activity \<times> pg_conns" where
  "run_task pkg j failure act st =
     (case act of
        Ready \<Rightarrow> (case j of Use l \<Rightarrow> (aconnection_enter l st, st) | Shut l \<Rightarrow> aclose_enter l st)
      | Opening \<Rightarrow> (case failure of Some e \<Rightarrow> (Failed e, st)
                    | None \<Rightarrow> (case j of Use l \<Rightarrow> aconnection_opened pkg l st | Shut l \<Rightarrow> (act, st)))
      | Losing made entry \<Rightarrow> (Using entry, close_async made st)
      | Using c \<Rightarrow> (Finished, st)
      | Closing c \<Rightarrow> (Finished, aclose_done c st)
      | _ \<Rightarrow> (act, st))"

inductive aio_step :: "bool \<Rightarrow> (nat \<Rightarrow> job) \<Rightarrow> pg_conns \<times> (nat \<Rightarrow> activity) \<Rightarrow> pg_conns \<times> (nat \<Rightarrow> activity) \<Rightarrow> bool"
  for pkg jobs where
  step: "run_task pkg (jobs t) failure (acts t) st = (a, st') \<Longrightarrow>
    aio_step pkg jobs (st, acts) (st', acts(t := a))"

inductive aio_reachable :: "bool \<Rightarrow> (nat \<Rightarrow> job) \<Rightarrow> pg_conns \<Rightarrow> pg_conns \<times> (nat \<Rightarrow> activity) \<Rightarrow> bool"
  for pkg jobs st0 where
  init: "aio_reachable pkg jobs st0 (st0, \<lambda>_. Ready)"
| more: "aio_reachable pkg jobs st0 s \<Longrightarrow> aio_step pkg jobs s s' \<Longrightarrow> aio_reachable pkg jobs st0 s'"

inductive_cases aio_stepE: "aio_step pkg jobs s s'"

section \<open>Redis: a client per event loop\<close>

datatype client = GivenClient | OpenedClient nat

record redis_clients =
  rc_url :: "pystr option"
  rc_aclient :: "client option"
  rc_aclients :: "(nat, client) dict"
  rc_made :: nat
  rc_closed :: "client list"

definition redis_supports_async :: "redis_clients \<Rightarrow> bool" where
  "redis_supports_async st \<longleftrightarrow> rc_aclient st \<noteq> None \<or> rc_url st \<noteq> None"

definition redis_ar :: "nat \<Rightarrow> redis_clients \<Rightarrow> (exc + client) \<times> redis_clients" where
  "redis_ar loop st =
     (case rc_aclient st of
        Some c \<Rightarrow> (Inr c, st)
      | None \<Rightarrow>
          if rc_url st = None then (Inl RuntimeError, st)
          else case dget (rc_aclients st) loop of
                 Some client \<Rightarrow> (Inr client, st)
               | None \<Rightarrow>
                   let client = OpenedClient (rc_made st)
                   in (Inr client, st\<lparr>rc_made := rc_made st + 1, rc_aclients := dset loop client (rc_aclients st)\<rparr>))"

definition redis_aclose :: "nat \<Rightarrow> redis_clients \<Rightarrow> redis_clients" where
  "redis_aclose loop st =
     (case rc_aclient st of
        Some c \<Rightarrow> st\<lparr>rc_closed := c # rc_closed st\<rparr>
      | None \<Rightarrow>
          case dget (rc_aclients st) loop of
            Some c \<Rightarrow> st\<lparr>rc_aclients := ddel loop (rc_aclients st), rc_closed := c # rc_closed st\<rparr>
          | None \<Rightarrow> st)"

end
