(* ===== verification/Connections_Props.thy ===== *)
theory Connections_Props
  imports Connections
begin

text \<open>
  Properties of the life cycle of connections: however the tasks of the PostgreSQL store interleave,
  every connection they open has exactly one owner until it is closed, so that none is lost and none is
  closed twice; the tasks of an event loop share one connection.
\<close>

section \<open>Owners\<close>

text \<open>A map in which no value occurs twice.\<close>

definition uniq :: "('k \<rightharpoonup> 'v) \<Rightarrow> bool" where
  "uniq m \<longleftrightarrow> (\<forall>x y c. m x = Some c \<longrightarrow> m y = Some c \<longrightarrow> x = y)"

lemma uniqD: "uniq m \<Longrightarrow> m x = Some c \<Longrightarrow> m y = Some c \<Longrightarrow> x = y"
  unfolding uniq_def by blast

lemma uniq_add: "uniq m \<Longrightarrow> m x = None \<Longrightarrow> c \<notin> ran m \<Longrightarrow> uniq (m(x \<mapsto> c)) \<and> ran (m(x \<mapsto> c)) = insert c (ran m)"
  by (simp add: ran_map_upd) (auto simp: uniq_def ran_def)

lemma uniq_drop:
  assumes "uniq m" "m x = Some c"
  shows "uniq (m(x := None)) \<and> ran (m(x := None)) = ran m - {c}"
proof -
  have "ran (m(x := None)) = {d. \<exists>y. y \<noteq> x \<and> m y = Some d}" by (auto simp: ran_def)
  also have "\<dots> = ran m - {c}"
  proof (rule set_eqI)
    fix d
    show "d \<in> {d. \<exists>y. y \<noteq> x \<and> m y = Some d} \<longleftrightarrow> d \<in> ran m - {c}"
      unfolding ran_def mem_Collect_eq Diff_iff singleton_iff by (metis assms(2) option.inject uniqD [OF assms])
  qed
  finally have "ran (m(x := None)) = ran m - {c}" .
  moreover have "uniq (m(x := None))" using assms(1) by (auto simp: uniq_def)
  ultimately show ?thesis by blast
qed

lemma uniq_move:
  assumes "uniq m" "m x = Some c" "m y = None"
  shows "uniq (m(x := None, y \<mapsto> c)) \<and> ran (m(x := None, y \<mapsto> c)) = ran m"
proof -
  have d: "uniq (m(x := None))" "ran (m(x := None)) = ran m - {c}" using uniq_drop [OF assms(1,2)] by auto
  moreover have "(m(x := None)) y = None" using assms(3) by simp
  ultimately have "uniq (m(x := None, y \<mapsto> c)) \<and> ran (m(x := None, y \<mapsto> c)) = insert c (ran m - {c})"
    using uniq_add [of "m(x := None)" y c] by simp
  moreover have "c \<in> ran m" using assms(2) by (auto simp: ran_def)
  ultimately show ?thesis by auto
qed

text \<open>
  The connections opened for the event loops (after the first \<open>n0\<close>), and who is responsible for
  each: the event loop it is registered for, or the task that is about to close it.
\<close>

definition handle :: "bool \<Rightarrow> nat \<Rightarrow> conn" where
  "handle pkg n = (if pkg then OpenedPool n else OpenedConn n)"

definition opened :: "bool \<Rightarrow> nat \<Rightarrow> pg_conns \<Rightarrow> conn set" where
  "opened pkg n0 st = handle pkg ` {n0..<pc_made st}"

fun held :: "activity \<Rightarrow> conn option" where
  "held (Losing made entry) = Some made"
| "held (Closing c) = (if c = GivenPool then None else Some c)"
| "held _ = None"

definition owners :: "pg_conns \<Rightarrow> (nat \<Rightarrow> activity) \<Rightarrow> nat + nat \<rightharpoonup> conn" where
  "owners st acts = case_sum (dget (pc_apools st)) (\<lambda>t. held (acts t))"

lemma owners_simps [simp]:
  "owners st acts (Inl l) = dget (pc_apools st) l" "owners st acts (Inr t) = held (acts t)"
  by (simp_all add: owners_def)

lemma owners_task: "owners st (acts(t := a)) = (owners st acts)(Inr t := held a)"
  by (rule ext) (auto simp: owners_def split: sum.splits)

lemma owners_set: "owners (st\<lparr>pc_apools := dset l c d\<rparr>) acts = (owners (st\<lparr>pc_apools := d\<rparr>) acts)(Inl l \<mapsto> c)"
  by (rule ext) (auto simp: owners_def dget_dset split: sum.splits)

lemma owners_del: "owners (st\<lparr>pc_apools := ddel l d\<rparr>) acts = (owners (st\<lparr>pc_apools := d\<rparr>) acts)(Inl l := None)"
  by (rule ext) (auto simp: owners_def dget_ddel split: sum.splits)

lemma owners_other [simp]:
  "owners (st\<lparr>pc_made := n\<rparr>) acts = owners st acts" "owners (st\<lparr>pc_closed := cs\<rparr>) acts = owners st acts"
  "owners (st\<lparr>pc_apool := p\<rparr>) acts = owners st acts"
  by (simp_all add: owners_def)

definition conns_inv :: "bool \<Rightarrow> nat \<Rightarrow> pg_conns \<Rightarrow> (nat \<Rightarrow> activity) \<Rightarrow> bool" where
  "conns_inv pkg n0 st acts \<longleftrightarrow>
     uniq (owners st acts) \<and> ran (owners st acts) = opened pkg n0 st - set (pc_closed st) \<and>
     distinct (filter (\<lambda>c. c \<noteq> GivenPool) (pc_closed st)) \<and>
     set (pc_closed st) \<subseteq> insert GivenPool (opened pkg n0 st) \<and> pc_apool st \<in> {None, Some GivenPool} \<and> n0 \<le> pc_made st"

lemma handle_inj [simp]: "handle pkg n = handle pkg m \<longleftrightarrow> n = m" "handle pkg n \<noteq> GivenPool"
  by (auto simp: handle_def)

lemma opened_more: "n0 \<le> pc_made st \<Longrightarrow>
  opened pkg n0 (st\<lparr>pc_made := Suc (pc_made st)\<rparr>) = insert (handle pkg (pc_made st)) (opened pkg n0 st)"
  by (auto simp: opened_def atLeastLessThanSuc)

lemma opened_new: "handle pkg (pc_made st) \<notin> opened pkg n0 st" "GivenPool \<notin> opened pkg n0 st"
  by (auto simp: opened_def handle_def)

lemma opened_other [simp]:
  "opened pkg n0 (st\<lparr>pc_apools := d\<rparr>) = opened pkg n0 st" "opened pkg n0 (st\<lparr>pc_closed := cs\<rparr>) = opened pkg n0 st"
  "opened pkg n0 (st\<lparr>pc_apool := p\<rparr>) = opened pkg n0 st"
  by (simp_all add: opened_def)

section \<open>Every step keeps the owners\<close>

text \<open>A task that comes to hold nothing and held nothing.\<close>

lemma keep_idle:
  "conns_inv pkg n0 st acts \<Longrightarrow> held (acts t) = None \<Longrightarrow> held a = None \<Longrightarrow> conns_inv pkg n0 st (acts(t := a))"
  by (simp add: conns_inv_def owners_task fun_upd_idem)

lemma keep_opened:
  assumes i: "conns_inv pkg n0 st acts" and t: "held (acts t) = None"
    and r: "aconnection_opened pkg l st = (a, st')"
  shows "conns_inv pkg n0 st' (acts(t := a))"
proof -
  let ?c = "handle pkg (pc_made st)" and ?st1 = "st\<lparr>pc_made := Suc (pc_made st)\<rparr>"
  note I = i [unfolded conns_inv_def]
  have new: "?c \<notin> ran (owners st acts)" "?c \<notin> set (pc_closed st)"
    using I opened_new(1) [of pkg st n0] opened_new(2) [of pkg n0 st] by auto
  have le: "opened pkg n0 ?st1 = insert ?c (opened pkg n0 st)" using I by (intro opened_more) simp
  have o: "open_async pkg st = (?c, ?st1)" by (simp add: open_async_def handle_def)
  show ?thesis
  proof (cases "dget (pc_apools st) l")
    case None
    then have r': "a = Using ?c" "st' = ?st1\<lparr>pc_apools := dset l ?c (pc_apools st)\<rparr>"
      using r by (auto simp: aconnection_opened_def o)
    have ow: "owners st' (acts(t := a)) = (owners st acts)(Inl l \<mapsto> ?c)"
      unfolding r' owners_task owners_set using t
      by (intro ext) (auto simp: owners_def split: sum.splits)
    show ?thesis
      using uniq_add [of "owners st acts" "Inl l" ?c] None new I unfolding conns_inv_def ow
      by (simp add: r' le) auto
  next
    case (Some e)
    have "e \<in> ran (owners st acts)" using Some by (intro ranI [of _ "Inl l"]) simp
    then have "e \<noteq> ?c" using new(1) by blast
    then have r': "a = Losing ?c e" "st' = ?st1" using r Some by (auto simp: aconnection_opened_def o)
    have "owners st' (acts(t := a)) = (owners st acts)(Inr t \<mapsto> ?c)"
      unfolding r' owners_task by simp
    then show ?thesis
      using uniq_add [of "owners st acts" "Inr t" ?c] t new I unfolding conns_inv_def
      by (simp add: r' le) auto
  qed
qed

lemma keep_closed:
  assumes i: "conns_inv pkg n0 st acts" and t: "held (acts t) = Some c" and a: "held a = None"
  shows "conns_inv pkg n0 (close_async c st) (acts(t := a))"
proof -
  note I = i [unfolded conns_inv_def]
  have "c \<in> ran (owners st acts)" using t by (intro ranI [of _ "Inr t"]) simp
  then have c: "c \<in> opened pkg n0 st" "c \<notin> set (pc_closed st)" using I by auto
  then show ?thesis
    using uniq_drop [of "owners st acts" "Inr t" c] t a I opened_new(2) unfolding conns_inv_def
    by (simp add: close_async_def owners_task) auto
qed

lemma keep_aclose_enter:
  assumes i: "conns_inv pkg n0 st acts" and t: "held (acts t) = None" and r: "aclose_enter l st = (a, st')"
  shows "conns_inv pkg n0 st' (acts(t := a))"
proof (cases "pc_apool st")
  case (Some p)
  then have "a = Closing GivenPool \<and> st' = st" using r i by (auto simp: aclose_enter_def conns_inv_def)
  then show ?thesis using keep_idle [OF i t] by simp
next
  case None
  note I = i [unfolded conns_inv_def]
  show ?thesis
  proof (cases "dget (pc_apools st) l")
    case None': None
    then show ?thesis using r None keep_idle [OF i t] by (auto simp: aclose_enter_def)
  next
    case (Some e)
    have "e \<in> ran (owners st acts)" using Some by (intro ranI [of _ "Inl l"]) simp
    then have e: "e \<noteq> GivenPool" using I opened_new(2) by auto
    have r': "a = Closing e" "st' = st\<lparr>pc_apools := ddel l (pc_apools st)\<rparr>"
      using r None Some by (auto simp: aclose_enter_def)
    have "owners st' (acts(t := a)) = (owners st acts)(Inl l := None, Inr t \<mapsto> e)"
      unfolding r' owners_task owners_del using e by simp
    then show ?thesis
      using uniq_move [of "owners st acts" "Inl l" e "Inr t"] Some t I unfolding conns_inv_def by (simp add: r')
  qed
qed

lemma keep_given: "conns_inv pkg n0 st acts \<Longrightarrow> held (acts t) = None \<Longrightarrow> held a = None \<Longrightarrow>
  conns_inv pkg n0 ((close_async GivenPool st)\<lparr>pc_apool := None\<rparr>) (acts(t := a))"
  using opened_new(2) by (auto simp: conns_inv_def owners_task fun_upd_idem close_async_def)

lemma aconnection_enter_held: "held (aconnection_enter l st) = None"
  by (auto simp: aconnection_enter_def split: option.splits)

lemma conns_inv_step:
  assumes "conns_inv pkg n0 st acts" "run_task pkg (jobs t) failure (acts t) st = (a, st')"
  shows "conns_inv pkg n0 st' (acts(t := a))"
proof (cases "acts t")
  case Ready
  then have h: "held (acts t) = None" by simp
  show ?thesis
    using assms Ready keep_idle [OF assms(1) h] keep_aclose_enter [OF assms(1) h] aconnection_enter_held
    by (auto simp: run_task_def split: job.splits)
next
  case Opening
  then have h: "held (acts t) = None" by simp
  show ?thesis
    using assms Opening keep_idle [OF assms(1) h] keep_opened [OF assms(1) h]
    by (auto simp: run_task_def split: job.splits option.splits)
next
  case (Losing made entry)
  then show ?thesis using assms keep_closed [OF assms(1), of t made] by (auto simp: run_task_def)
next
  case (Using c)
  then show ?thesis using assms keep_idle [OF assms(1), of t] by (auto simp: run_task_def)
next
  case (Closing c)
  then show ?thesis
    using assms keep_closed [OF assms(1), of t c Finished] keep_given [OF assms(1), of t Finished]
    by (cases "c = GivenPool") (auto simp: run_task_def aclose_done_def)
next
  case Finished
  then show ?thesis using assms keep_idle [OF assms(1), of t] by (auto simp: run_task_def)
next
  case (Failed e)
  then show ?thesis using assms keep_idle [OF assms(1), of t] by (auto simp: run_task_def)
qed

lemma conns_inv_init:
  assumes "st0 = pg_connect_init pkg dsn conn pool apool"
  shows "conns_inv pkg (pc_made st0) st0 (\<lambda>_. Ready)"
  unfolding assms by (auto simp: conns_inv_def pg_connect_init_def make_pool_def owners_def opened_def uniq_def ran_def
      Let_def split: sum.splits)

lemma conns_inv_reachable:
  assumes "aio_reachable pkg jobs st0 s" "st0 = pg_connect_init pkg dsn conn pool apool"
  shows "conns_inv pkg (pc_made st0) (fst s) (snd s)"
  using assms(1)
proof (induction rule: aio_reachable.induct)
  case init
  then show ?case using conns_inv_init [OF assms(2)] by simp
next
  case (more s s')
  from more.hyps(2) more.IH show ?case by (elim aio_stepE) (auto intro: conns_inv_step simp del: fun_upd_apply)
qed

section \<open>The tasks of an event loop\<close>

text \<open>Without \<open>aclose\<close>, every task of a loop works with the connection registered for it.\<close>

fun works_with :: "activity \<Rightarrow> conn option" where
  "works_with (Using c) = Some c"
| "works_with (Losing made c) = Some c"
| "works_with _ = None"

definition shared :: "(nat \<Rightarrow> job) \<Rightarrow> pg_conns \<Rightarrow> (nat \<Rightarrow> activity) \<Rightarrow> bool" where
  "shared jobs st acts \<longleftrightarrow> GivenPool \<notin> set (pc_closed st) \<and>
     (\<forall>t l c. jobs t = Use l \<longrightarrow> works_with (acts t) = Some c \<longrightarrow>
        (case pc_apool st of Some p \<Rightarrow> c = p | None \<Rightarrow> dget (pc_apools st) l = Some c)) \<and>
     (\<forall>t c. acts t \<noteq> Closing c)"

lemma shared_upd:
  assumes "shared jobs st acts" "jobs t = Use l" "\<And>c. a \<noteq> Closing c"
    and "GivenPool \<notin> set (pc_closed st')" "pc_apool st' = pc_apool st"
    and "\<And>k c. dget (pc_apools st) k = Some c \<Longrightarrow> dget (pc_apools st') k = Some c"
    and "\<And>c. works_with a = Some c \<Longrightarrow> (case pc_apool st of Some p \<Rightarrow> c = p | None \<Rightarrow> dget (pc_apools st') l = Some c)"
  shows "shared jobs st' (acts(t := a))"
  using assms unfolding shared_def by (auto split: option.splits)

lemma shared_task:
  "shared jobs st acts \<Longrightarrow> jobs t = Use l \<Longrightarrow> works_with (acts t) = Some c \<Longrightarrow>
   (case pc_apool st of Some p \<Rightarrow> c = p | None \<Rightarrow> dget (pc_apools st) l = Some c)"
  unfolding shared_def by blast

lemma shared_step:
  assumes s: "shared jobs st acts" and j: "jobs t = Use l" and i: "conns_inv pkg n0 st acts"
    and r: "run_task pkg (jobs t) failure (acts t) st = (a, st')"
    and m: "acts t = Opening \<Longrightarrow> pc_apool st = None"
  shows "shared jobs st' (acts(t := a))"
proof -
  have cl: "GivenPool \<notin> set (pc_closed st)" using s by (simp add: shared_def)
  show ?thesis
  proof (cases "acts t")
    case Ready
    then have "a = aconnection_enter l st" "st' = st" using r j by (auto simp: run_task_def)
    then show ?thesis
      using cl by (intro shared_upd [OF s j]) (auto simp: aconnection_enter_def split: option.splits if_splits)
  next
    case Opening
    show ?thesis
    proof (cases failure)
      case None
      then have "aconnection_opened pkg l st = (a, st')" using Opening r j by (simp add: run_task_def)
      then show ?thesis
        using cl m [OF Opening] by (intro shared_upd [OF s j])
          (auto simp: aconnection_opened_def open_async_def dget_dset split: option.splits if_splits)
    next
      case (Some e)
      then have "a = Failed e" "st' = st" using Opening r j by (auto simp: run_task_def)
      then show ?thesis using cl by (intro shared_upd [OF s j]) auto
    qed
  next
    case (Losing made entry)
    then have r': "a = Using entry" "st' = close_async made st" using r by (auto simp: run_task_def)
    have "made \<in> ran (owners st acts)" using Losing by (intro ranI [of _ "Inr t"]) simp
    then have "made \<noteq> GivenPool" using i opened_new(2) by (auto simp: conns_inv_def)
    then show ?thesis
      using cl shared_task [OF s j, of entry] Losing
      by (intro shared_upd [OF s j]) (auto simp: r' close_async_def split: option.splits)
  next
    case (Closing c)
    then show ?thesis using s by (simp add: shared_def)
  next
    case (Failed e)
    then have "a = Failed e" "st' = st" using r by (auto simp: run_task_def)
    then show ?thesis using cl by (intro shared_upd [OF s j]) auto
  qed (use r cl in \<open>auto simp: run_task_def intro!: shared_upd [OF s j]\<close>)
qed

lemma opening_own:
  assumes "aio_reachable pkg jobs st0 s" "\<forall>t. \<exists>l. jobs t = Use l" "st0 = pg_connect_init pkg dsn conn pool apool"
  shows "shared jobs (fst s) (snd s) \<and> (\<forall>t. snd s t = Opening \<longrightarrow> pc_apool (fst s) = None)"
  using assms(1)
proof (induction rule: aio_reachable.induct)
  case init
  then show ?case
    unfolding assms(3) by (simp add: shared_def pg_connect_init_def make_pool_def Let_def)
next
  case (more s s')
  from more.hyps(2) obtain t failure acts st a st' where e:
    "run_task pkg (jobs t) failure (acts t) st = (a, st')" "s = (st, acts)" "s' = (st', acts(t := a))"
    by (elim aio_stepE)
  obtain l where l: "jobs t = Use l" using assms(2) by blast
  have i: "conns_inv pkg (pc_made st0) st acts" using conns_inv_reachable [OF more.hyps(1) assms(3)] e(2) by simp
  have IH: "shared jobs st acts" "\<And>t. acts t = Opening \<Longrightarrow> pc_apool st = None" using more.IH e(2) by auto
  have "\<And>c. acts t \<noteq> Closing c" using IH(1) by (simp add: shared_def)
  then have "pc_apool st' = pc_apool st \<and> (a = Opening \<longrightarrow> pc_apool st = None)"
    using e(1) l IH(2) [of t] by (cases "acts t")
      (auto simp: run_task_def aconnection_enter_def aconnection_opened_def open_async_def close_async_def
        split: option.splits if_splits)
  then show ?case using shared_step [OF IH(1) l i e(1) IH(2)] IH(2) e(3)
    by (metis fst_conv snd_conv fun_upd_apply)
qed

lemma shared_open:
  assumes "shared jobs st acts" "conns_inv pkg n0 st acts" "jobs t = Use l" "acts t = Using c"
  shows "c \<notin> set (pc_closed st)"
proof (cases "pc_apool st")
  case None
  then have "dget (pc_apools st) l = Some c" using shared_task [OF assms(1,3)] assms(4) by simp
  then have "c \<in> ran (owners st acts)" by (intro ranI [of _ "Inl l"]) simp
  then show ?thesis using assms(2) by (simp add: conns_inv_def)
next
  case (Some p)
  then have "c = GivenPool" using shared_task [OF assms(1,3)] assms(2,4) by (simp add: conns_inv_def)
  then show ?thesis using assms(1) by (simp add: shared_def)
qed


text \<open>
  Witness of C10: two tasks of one event loop open a connection each; the second loses, closes its
  own and works with the first.
\<close>

definition ex_race :: "pg_conns" where
  "ex_race = pg_connect_init True [] False False False"

lemma aio_more:
  "aio_reachable pkg jobs st0 (st, acts) \<Longrightarrow> run_task pkg (jobs t) failure (acts t) st = (a, st') \<Longrightarrow>
   aio_reachable pkg jobs st0 (st', acts(t := a))"
  by (erule aio_reachable.more) (rule aio_step.step)

lemma ex_race_run:
  "aio_reachable True (\<lambda>_. Use 0) ex_race
     (ex_race\<lparr>pc_made := 3, pc_apools := [(0, OpenedPool 1)], pc_closed := [OpenedPool 2]\<rparr>,
      (\<lambda>_. Ready)(0 := Using (OpenedPool 1), 1 := Using (OpenedPool 1)))"
proof -
  note d = run_task_def ex_race_def pg_connect_init_def make_pool_def aconnection_enter_def aconnection_opened_def
    open_async_def close_async_def
  let ?A = "aio_reachable True (\<lambda>_. Use 0) ex_race"
  have "?A (ex_race, (\<lambda>_. Ready)(0 := Opening))"
    by (rule aio_more [OF aio_reachable.init]) (simp add: d)
  then have "?A (ex_race, (\<lambda>_. Ready)(0 := Opening, 1 := Opening))"
    by (rule aio_more [where t = 1]) (simp add: d)
  then have "?A (ex_race\<lparr>pc_made := 2, pc_apools := [(0, OpenedPool 1)]\<rparr>, (\<lambda>_. Ready)(0 := Opening, 1 := Opening, 0 := Using (OpenedPool 1)))"
    by (rule aio_more [where t = 0 and failure = None]) (simp add: d)
  then have "?A (ex_race\<lparr>pc_made := 3, pc_apools := [(0, OpenedPool 1)]\<rparr>,
      (\<lambda>_. Ready)(0 := Opening, 1 := Opening, 0 := Using (OpenedPool 1), 1 := Losing (OpenedPool 2) (OpenedPool 1)))"
    by (rule aio_more [where t = 1 and failure = None]) (simp add: d)
  then have "?A (ex_race\<lparr>pc_made := 3, pc_apools := [(0, OpenedPool 1)], pc_closed := [OpenedPool 2]\<rparr>,
      (\<lambda>_. Ready)(0 := Opening, 1 := Opening, 0 := Using (OpenedPool 1), 1 := Losing (OpenedPool 2) (OpenedPool 1), 1 := Using (OpenedPool 1)))"
    by (rule aio_more [where t = 1]) (simp add: d)
  then show ?thesis by (simp add: fun_upd_twist)
qed


section \<open>Closing\<close>

text \<open>A closed synchronous store has no connection left, and closing it again does nothing more.\<close>

lemma pg_close_last:
  assumes "st = pg_connect_init pkg dsn conn pool apool" "\<not> (conn \<and> pool)"
  shows "pg_connection st \<noteq> None" "pg_connection (pg_close st) = None" "pg_close (pg_close st) = pg_close st"
    "set (pc_closed (pg_close st)) = {the (pg_connection st)}"
  using assms by (auto simp: pg_connect_init_def make_pool_def pg_connection_def pg_close_def Let_def)

text \<open>A store given both a connection and a pool closes the pool first and falls back to the
  connection.\<close>

lemma pg_close_both:
  "pg_connection (pg_close (pg_connect_init pkg dsn True True apool)) = Some GivenConn"
  by (simp add: pg_connect_init_def pg_connection_def pg_close_def Let_def)

text \<open>The Redis clients: asking twice gives the same client; after \<open>aclose\<close> a store that opens its
  own makes a new one, and a store that was given one hands out the closed client.\<close>

lemma redis_ar_again: "redis_ar l st = (Inr c, st') \<Longrightarrow> redis_ar l st' = (Inr c, st')"
  by (auto simp: redis_ar_def dget_dset Let_def split: option.splits if_splits)

lemma redis_ar_supported: "(\<exists>c. fst (redis_ar l st) = Inr c) \<longleftrightarrow> redis_supports_async st"
  by (auto simp: redis_ar_def redis_supports_async_def Let_def split: option.splits)

lemma redis_closed_given: "rc_aclient st = Some c \<Longrightarrow> fst (redis_ar l (redis_aclose l st)) = Inr c \<and> c \<in> set (rc_closed (redis_aclose l st))"
  by (simp add: redis_ar_def redis_aclose_def)

lemma redis_closed_own:
  "rc_aclient st = None \<Longrightarrow> rc_url st \<noteq> None \<Longrightarrow> fst (redis_ar l (redis_aclose l st)) = Inr (OpenedClient (rc_made st))"
  by (auto simp: redis_ar_def redis_aclose_def dget_ddel Let_def split: option.splits)

text \<open>The SQLite connections: \<open>close\<close> closes every connection, and the next use opens a new one.\<close>

definition disk_conns_inv :: "disk_conns \<Rightarrow> bool" where
  "disk_conns_inv st \<longleftrightarrow> distinct (dc_closed st @ dc_conns st) \<and> set (dc_closed st @ dc_conns st) = {..<dc_made st} \<and>
     ran (dget (dc_local st)) = set (dc_conns st) \<and> uniq (dget (dc_local st))"

lemma disk_connect_inv:
  assumes "disk_conns_inv st" "disk_connect th st = (c, st')"
  shows "disk_conns_inv st'" "c \<in> set (dc_conns st')" "dget (dc_local st') th = Some c"
proof -
  have "disk_conns_inv st' \<and> c \<in> set (dc_conns st') \<and> dget (dc_local st') th = Some c"
  proof (cases "dget (dc_local st) th")
    case None
    have n: "dc_made st \<notin> ran (dget (dc_local st))" using assms(1) by (auto simp: disk_conns_inv_def)
    from None assms(2) have r: "c = dc_made st"
      "st' = st\<lparr>dc_made := Suc c, dc_local := dset th c (dc_local st), dc_conns := dc_conns st @ [c]\<rparr>"
      by (auto simp: disk_connect_def Let_def)
    show ?thesis
      using assms(1) uniq_add [OF _ None n] unfolding disk_conns_inv_def r by (auto simp: dget_dset)
  next
    case (Some d)
    then show ?thesis using assms ranI [of "dget (dc_local st)" th d] by (auto simp: disk_connect_def disk_conns_inv_def)
  qed
  then show "disk_conns_inv st'" "c \<in> set (dc_conns st')" "dget (dc_local st') th = Some c" by simp_all
qed

lemma disk_close_inv:
  assumes "disk_conns_inv st"
  shows "disk_conns_inv (disk_close st)" "set (dc_closed (disk_close st)) = {..<dc_made st}"
  using assms by (auto simp: disk_conns_inv_def disk_close_def uniq_def)

end
