(* ===== verification/Saver_Walks.thy ===== *)
theory Saver_Walks
  imports Saver_Props
begin

text \<open>
  The loops along parent ids, \<open>_delta_ancestors\<close> and \<open>get_delta_channel_history\<close>: they end when the
  parent relation of the stored checkpoints has no cycle, after at most one round for each stored
  checkpoint and one more, and they do not end on a checkpoint that is its own ancestor.
\<close>

section \<open>Outcomes other than running on\<close>

definition ends :: "exc + 'a \<Rightarrow> bool" where
  "ends r \<longleftrightarrow> r \<noteq> Inl Diverged"

named_theorems ends_rules \<open>computations that end\<close>

lemma ends_simps [simp]: "ends (Inr x)" "ends (Inl e) \<longleftrightarrow> e \<noteq> Diverged"
  by (simp_all add: ends_def)

lemma ends_bindE: "ends r \<Longrightarrow> (\<And>x. r = Inr x \<Longrightarrow> ends (f x)) \<Longrightarrow> ends (bindE r f)"
  by (cases r) simp_all

lemma ends_mapE: "(\<And>x. x \<in> set xs \<Longrightarrow> ends (f x)) \<Longrightarrow> ends (mapE f xs)"
  by (induction xs) (simp_all add: ends_bindE)

lemma ends_need [ends_rules]: "ends (need r)"
  by (simp add: need_def split: option.split)

lemma ends_values [ends_rules]:
  "ends (getitem v k)" "ends (get_key v k)" "ends (as_str v)" "ends (tuple_of v)" "ends (py_in x v)"
  "ends (getitem_val v x)" "ends (get_default v k d)" "ends (dict_items v)"
  by (cases v; simp add: ends_need split: option.split)+

text \<open>The serializer raises Python exceptions.\<close>

definition loads_returns :: "lg_env \<Rightarrow> bool" where
  "loads_returns E \<longleftrightarrow> (\<forall>v. ends (loads_typed E v))"

lemma ends_loads: "loads_returns E \<Longrightarrow> ends (loads_typed E v)"
  by (simp add: loads_returns_def)

lemma ends_loads_item: "loads_returns E \<Longrightarrow> ends (loads_item E v k)"
  unfolding loads_item_def by (intro ends_bindE ends_rules ends_loads)

lemma ends_blob_value: "loads_returns E \<Longrightarrow> ends (blob_value E v)"
  unfolding blob_value_def by (auto split: pyval.split list.split intro!: ends_bindE ends_loads)

lemma ends_blob_values: "loads_returns E \<Longrightarrow> ends (blob_values E vs bs)"
  unfolding blob_values_def by (auto intro!: ends_bindE ends_mapE ends_blob_value split: prod.splits)

lemma ends_channel_versions [ends_rules]: "ends (channel_versions v)"
  unfolding channel_versions_def by (intro ends_bindE ends_rules)

lemma ends_parse_int [ends_rules]: "ends (parse_int s)"
  unfolding parse_int_def Let_def by (simp split: prod.split option.split)

lemma ends_sort_writes [ends_rules]: "ends (sort_writes ks)"
  unfolding sort_writes_def write_order_def Let_def
  by (auto intro!: ends_bindE ends_mapE ends_rules split: prod.split)

lemma ends_decode_writes: "loads_returns E \<Longrightarrow> ends (decode_writes E chs raw)"
proof (induction E chs raw rule: decode_writes.induct)
  case (2 E channels saved_write raw)
  then show ?case
    by (auto intro!: ends_bindE ends_rules ends_loads split: list.split option.split)
qed simp

section \<open>Parents and ancestors\<close>

definition parents :: "content \<Rightarrow> pystr \<Rightarrow> (pystr \<times> pystr) set" where
  "parents m ns = {(p, i). \<exists>rec. m (ns, i) = Some rec \<and> get_key rec (lit ''parent'') = Inr (PStr p)}"

definition ancestors :: "content \<Rightarrow> pystr \<Rightarrow> pystr \<Rightarrow> pystr set" where
  "ancestors m ns i = {x \<in> ns_keys m ns. (x, i) \<in> (parents m ns)\<^sup>*}"

text \<open>The rounds a walk from a cursor may take.\<close>

fun rounds :: "content \<Rightarrow> pystr \<Rightarrow> pyval \<Rightarrow> nat" where
  "rounds m ns (PStr i) = Suc (card (ancestors m ns i))"
| "rounds m ns _ = 1"

lemma ancestors_finite: "finite (dom m) \<Longrightarrow> finite (ancestors m ns i)"
  unfolding ancestors_def by (rule finite_subset [OF _ finite_ns_keys]) auto

lemma ancestors_less:
  assumes "finite (dom m)" "acyclic (parents m ns)" "m (ns, i) = Some rec" "get_key rec (lit ''parent'') = Inr (PStr p)"
  shows "card (ancestors m ns p) < card (ancestors m ns i)"
proof (rule psubset_card_mono [OF ancestors_finite [OF assms(1)]])
  have pi: "(p, i) \<in> parents m ns" using assms(3,4) unfolding parents_def by blast
  have "i \<in> ancestors m ns i" using assms(3) by (auto simp: ancestors_def ns_keys_def)
  moreover have "(i, p) \<notin> (parents m ns)\<^sup>*"
    using assms(2) pi unfolding acyclic_def by (meson rtrancl_into_trancl1)
  then have "i \<notin> ancestors m ns p" by (simp add: ancestors_def)
  moreover have "ancestors m ns p \<subseteq> ancestors m ns i"
    using pi by (auto simp: ancestors_def intro: rtrancl_into_rtrancl)
  ultimately show "ancestors m ns p \<subset> ancestors m ns i" by blast
qed

lemma rounds_less:
  assumes "finite (dom m)" "acyclic (parents m ns)" "m (ns, i) = Some rec" "get_key rec (lit ''parent'') = Inr v"
    "rounds m ns (PStr i) \<le> Suc n"
  shows "rounds m ns v \<le> n"
proof -
  have "i \<in> ancestors m ns i" using assms(3) by (auto simp: ancestors_def ns_keys_def)
  then have "0 < card (ancestors m ns i)" using ancestors_finite [OF assms(1)] by (auto simp: card_gt_0_iff)
  with assms(5) have "1 \<le> n" by simp
  then show ?thesis using ancestors_less [OF assms(1-3)] assms(4,5) by (cases v) fastforce+
qed

lemma rounds_bound: "finite (dom m) \<Longrightarrow> rounds m ns v \<le> Suc (card (ns_keys m ns))"
  by (cases v) (auto simp: ancestors_def intro: card_mono finite_ns_keys)

section \<open>The limit of a listing\<close>

text \<open>The limit is tested after a checkpoint has been yielded, so that a limit of zero acts as one.\<close>

lemma list_ids_limit: "0 \<le> n \<Longrightarrow>
  list_ids ops E flt before (Some 0) t c ns ids n sv = list_ids ops E flt before (Some 1) t c ns ids n sv"
  by (induction ids) (simp_all cong: if_cong)

lemma list_ids_count: "0 \<le> n \<Longrightarrow> list_ids ops E flt before lim t c ns ids n sv = Inr (ts, m, stop) \<Longrightarrow> 0 \<le> m"
proof (induction ids arbitrary: n ts)
  case (Cons i ids)
  have IH: "0 \<le> m" if "list_ids ops E flt before lim t c ns ids n' sv = Inr (ts', m, stop)" "0 \<le> n'" for n' ts'
    using Cons.IH [OF that(2,1)] .
  from Cons.prems show ?case
    by (auto simp: bindE_eq_Inr simp del: One_nat_def dest: IH split: if_splits prod.splits)
qed simp

lemma list_loop_limit: "0 \<le> n \<Longrightarrow>
  list_loop ops E flt want before (Some 0) targets n sv = list_loop ops E flt want before (Some 1) targets n sv"
proof (induction targets arbitrary: n)
  case (Cons x targets)
  obtain t c ns where x: "x = (t, c, ns)" by (cases x)
  have "bindE (list_ids ops E flt before (Some 1) t c ns ids n sv) (\<lambda>(ts, m, stop).
       if stop then Inr ts else bindE (list_loop ops E flt want before (Some 0) targets m sv) (\<lambda>us. Inr (ts @ us))) =
      bindE (list_ids ops E flt before (Some 1) t c ns ids n sv) (\<lambda>(ts, m, stop).
       if stop then Inr ts else bindE (list_loop ops E flt want before (Some 1) targets m sv) (\<lambda>us. Inr (ts @ us)))" for ids
    using Cons.IH list_ids_count [OF Cons.prems, of ops E flt before "Some 1" t c ns ids sv]
    by (cases "list_ids ops E flt before (Some 1) t c ns ids n sv") auto
  then show ?case by (simp only: x list_loop.simps list_ids_limit [OF Cons.prems])
qed simp

lemma list_limit_zero:
  "list_checkpoints ops E config flt before (Some 0) = list_checkpoints ops E config flt before (Some 1)"
  unfolding list_checkpoints_def by (simp add: list_loop_limit readA_def)

section \<open>The walks\<close>

definition cache_ok :: "content \<Rightarrow> pystr \<Rightarrow> (pystr, pyval) dict \<Rightarrow> bool" where
  "cache_ok m ns records \<longleftrightarrow> (\<forall>k r. dget records k = Some r \<longrightarrow> r = the_default PNone (m (ns, k)))"

lemma cache_ok_dset: "cache_ok m ns records \<Longrightarrow> cache_ok m ns (dset k (the_default PNone (m (ns, k))) records)"
  by (auto simp: cache_ok_def dget_dset)

lemma cache_ok_zip: "cache_ok m ns (dict_of (zip ids (map (\<lambda>i. the_default PNone (m (ns, i))) ids)))"
  unfolding cache_ok_def dget_dict_of
  by (auto simp: rev_map zip_map2 zip_same_conv_map dest!: map_of_SomeD)

text \<open>The cache after looking up an id.\<close>

definition cached :: "content \<Rightarrow> pystr \<Rightarrow> pystr \<Rightarrow> (pystr, pyval) dict \<Rightarrow> (pystr, pyval) dict" where
  "cached m ns k records =
     (case dget records k of None \<Rightarrow> dset k (the_default PNone (m (ns, k))) records | Some _ \<Rightarrow> records)"

lemma cached_ok:
  assumes "cache_ok m ns records"
  shows "cache_ok m ns (cached m ns k records)" "the_default PNone (dget (cached m ns k records) k) = the_default PNone (m (ns, k))"
  using assms cache_ok_dset [OF assms] by (auto simp: cached_def cache_ok_def dget_dset split: option.splits)

text \<open>The checkpoint of an id is stored as its own parent, holds its values inline but none for the
  channels, and has no pending writes.\<close>

definition own_parent :: "lg_env \<Rightarrow> content \<Rightarrow> pystr \<Rightarrow> pystr \<Rightarrow> pystr \<Rightarrow> pystr list \<Rightarrow> bool" where
  "own_parent E m t c cid chs \<longleftrightarrow> (\<exists>rec cp vals. m (ckpt_ns t c, cid) = Some rec \<and>
     get_key rec (lit ''parent'') = Inr (PStr cid) \<and> loads_item E rec (lit ''cp'') = Inr (PDict cp) \<and>
     dget cp (PStr (lit ''channel_values'')) = Some (PDict vals) \<and> (\<forall>ch \<in> set chs. dget vals (PStr ch) = None) \<and>
     ns_keys m (writes_ns t c cid) = {})"

context saver_lib
begin

lemma ends_channel_values:
  assumes "inv (sv_store sv)" "loads_returns E"
  shows "ends (channel_values ops E t c saved chs sv)"
  unfolding channel_values_def Let_def read_blobs_def
  using assms by (auto intro!: ends_bindE ends_rules ends_loads_item ends_mapE ends_blob_values simp: read_many)

lemma ends_pending_writes:
  assumes "inv (sv_store sv)" "loads_returns E"
  shows "ends (pending_writes ops E t c cid chs sv)"
  unfolding pending_writes_def Let_def
  using assms by (auto intro!: ends_bindE ends_rules ends_decode_writes simp: read_many)

lemma history_walk_ends:
  assumes i: "inv (sv_store sv)" "loads_returns E" and ac: "acyclic (parents (content (sv_store sv)) (ckpt_ns t c))"
  shows "rounds (content (sv_store sv)) (ckpt_ns t c) cursor \<le> n \<Longrightarrow> ends (history_walk n ops E t c remaining cursor collected seeds sv)"
proof (induction n arbitrary: remaining cursor collected seeds)
  case 0
  then show ?case by (cases cursor) simp_all
next
  case (Suc n)
  let ?m = "content (sv_store sv)" and ?ns = "ckpt_ns t c"
  show ?case
  proof (cases "\<exists>cur rec. cursor = PStr cur \<and> ?m (?ns, cur) = Some rec")
    case True
    then obtain cur rec where c: "cursor = PStr cur" "?m (?ns, cur) = Some rec" by blast
    have "ends (history_walk n ops E t c rem parent col sd sv)" if "get_key rec (lit ''parent'') = Inr parent" for rem parent col sd
      using Suc.IH rounds_less [OF finite_law [OF i(1)] ac c(2) that] Suc.prems c(1) by blast
    then show ?thesis
      using i c by (auto intro!: ends_bindE ends_rules ends_channel_values ends_pending_writes simp del: lit_simps)
  next
    case False
    then show ?thesis using i by (cases cursor) (auto simp: the_default_def split: option.splits)
  qed
qed

lemma delta_walk_step:
  assumes "inv (sv_store sv)" "missing \<noteq> []" "cur \<noteq> []" "cache_ok (content (sv_store sv)) (ckpt_ns t c) records"
  shows "delta_walk (Suc n) ops E t c missing (PStr cur) needed records sv =
    (let a = the_default PNone (content (sv_store sv) (ckpt_ns t c, cur))
     in if a = PNone then Inr (needed, cached (content (sv_store sv)) (ckpt_ns t c) cur records)
        else bindE (channel_values ops E t c a missing sv) (\<lambda>present.
           bindE (get_key a (lit ''parent'')) (\<lambda>parent.
             delta_walk n ops E t c (filter (\<lambda>ch. ch \<notin> set (dkeys present)) missing) parent
               (List.insert cur needed) (cached (content (sv_store sv)) (ckpt_ns t c) cur records) sv)))"
proof -
  let ?rs = "cached (content (sv_store sv)) (ckpt_ns t c) cur records"
  have s: "(case dget records cur of
             None \<Rightarrow> bindE (store_get ops (ckpt_ns t c) cur sv) (\<lambda>r. Inr (dset cur r records))
           | Some _ \<Rightarrow> Inr records) = Inr ?rs"
    using assms(1) by (simp add: cached_def split: option.splits)
  show ?thesis
    using assms(2,3) unfolding delta_walk.simps as_str.simps bindE_simps s Let_def cached_ok(2) [OF assms(4)]
    by (simp del: lit_simps)
qed

lemma delta_walk_cache:
  assumes "inv (sv_store sv)"
  shows "cache_ok (content (sv_store sv)) (ckpt_ns t c) records \<Longrightarrow>
    delta_walk n ops E t c missing cursor needed records sv = Inr (needed', records') \<Longrightarrow>
    cache_ok (content (sv_store sv)) (ckpt_ns t c) records'"
proof (induction n arbitrary: missing cursor needed records)
  case (Suc n)
  show ?case
  proof (cases "missing = [] \<or> \<not> truthy cursor")
    case True
    then show ?thesis using Suc.prems by auto
  next
    case False
    then obtain cur where c: "cursor = PStr cur" using Suc.prems(2) by (cases cursor) auto
    then have "cur \<noteq> []" "missing \<noteq> []" using False by auto
    from Suc.prems(2) [unfolded c delta_walk_step [OF assms this(2,1) Suc.prems(1)]]
      Suc.IH [OF cached_ok(1) [OF Suc.prems(1)]] cached_ok(1) [OF Suc.prems(1)]
    show ?thesis by (auto simp: bindE_eq_Inr Let_def simp del: lit_simps split: if_splits)
  qed
qed (auto split: if_splits)

lemma delta_walk_ends:
  assumes i: "inv (sv_store sv)" "loads_returns E" and ac: "acyclic (parents (content (sv_store sv)) (ckpt_ns t c))"
  shows "rounds (content (sv_store sv)) (ckpt_ns t c) cursor \<le> n \<Longrightarrow> cache_ok (content (sv_store sv)) (ckpt_ns t c) records \<Longrightarrow>
    ends (delta_walk n ops E t c missing cursor needed records sv)"
proof (induction n arbitrary: missing cursor needed records)
  case 0
  then show ?case by (cases cursor) simp_all
next
  case (Suc n)
  let ?m = "content (sv_store sv)" and ?ns = "ckpt_ns t c"
  show ?case
  proof (cases "\<exists>cur. cursor = PStr cur \<and> missing \<noteq> [] \<and> cur \<noteq> []")
    case True
    then obtain cur where c: "cursor = PStr cur" "missing \<noteq> []" "cur \<noteq> []" by auto
    have IH: "ends (delta_walk n ops E t c mis parent nd (cached ?m ?ns cur records) sv)"
      if "?m (?ns, cur) = Some rec" "get_key rec (lit ''parent'') = Inr parent" for rec mis parent nd
      using Suc.IH rounds_less [OF finite_law [OF i(1)] ac that] Suc.prems(1) c(1) cached_ok(1) [OF Suc.prems(2)] by blast
    have "ends (bindE (channel_values ops E t c rec missing sv) (\<lambda>present. bindE (get_key rec (lit ''parent'')) (\<lambda>parent.
        delta_walk n ops E t c (f present) parent nd (cached ?m ?ns cur records) sv)))"
      if "?m (?ns, cur) = Some rec" for rec f nd
      by (intro ends_bindE ends_channel_values [OF i] ends_rules IH [OF that])
    then show ?thesis unfolding c(1) delta_walk_step [OF i(1) c(2,3) Suc.prems(2)]
      by (cases "?m (?ns, cur)") (simp_all add: Let_def del: lit_simps get_key.simps set_map)
  next
    case False
    then show ?thesis by (cases cursor) auto
  qed
qed

lemma delta_ancestors_ends:
  assumes i: "inv (sv_store sv)" "loads_returns E" and ac: "acyclic (parents (content (sv_store sv)) (ckpt_ns t c))"
    and fuel: "card (ns_keys (content (sv_store sv)) (ckpt_ns t c)) < walk_fuel E"
  shows "cache_ok (content (sv_store sv)) (ckpt_ns t c) records \<Longrightarrow> ends (delta_ancestors ops E t c ids needed records sv)"
proof (induction ids arbitrary: needed records)
  case (Cons cid ids)
  have walk: "ends (delta_walk (walk_fuel E) ops E t c mis cursor nd rs sv)"
    if "cache_ok (content (sv_store sv)) (ckpt_ns t c) rs" for mis cursor nd rs
    using that fuel le_trans [OF rounds_bound [OF finite_law [OF i(1)]]] by (intro delta_walk_ends [OF i ac]) auto
  show ?case
    using Cons i walk delta_walk_cache [OF i(1)]
    by (auto simp: Let_def simp del: lit_simps intro!: ends_bindE ends_rules ends_loads_item ends_channel_values)
qed simp

text \<open>A set of checkpoints closed under parents, none of which has a value for the channels.\<close>

lemma history_walk_diverges:
  assumes i: "inv (sv_store sv)" and "[] \<notin> S" "remaining \<noteq> []"
    and S: "\<And>cur. cur \<in> S \<Longrightarrow> \<exists>rec p ws. content (sv_store sv) (ckpt_ns t c, cur) = Some rec \<and> rec \<noteq> PNone \<and>
      get_key rec (lit ''parent'') = Inr (PStr p) \<and> p \<in> S \<and> channel_values ops E t c rec remaining sv = Inr [] \<and>
      pending_writes ops E t c cur (Some remaining) sv = Inr ws"
  shows "cur \<in> S \<Longrightarrow> history_walk n ops E t c remaining (PStr cur) collected seeds sv = Inl Diverged"
proof (induction n arbitrary: cur collected seeds)
  case 0
  with assms(2,3) show ?case by auto
next
  case (Suc n)
  obtain rec p ws where r: "content (sv_store sv) (ckpt_ns t c, cur) = Some rec" "rec \<noteq> PNone"
      "get_key rec (lit ''parent'') = Inr (PStr p)" "p \<in> S" "channel_values ops E t c rec remaining sv = Inr []"
      "pending_writes ops E t c cur (Some remaining) sv = Inr ws"
    using S [OF Suc.prems] by blast
  have "cur \<noteq> []" using Suc.prems assms(2) by blast
  then show ?case using r i Suc.IH [OF r(4)] assms(3) by (simp del: lit_simps)
qed

lemma own_parent_walk:
  assumes i: "inv (sv_store sv)" and o: "own_parent E (content (sv_store sv)) t c cid chs" and "cid \<noteq> []" "chs \<noteq> []"
  shows "history_walk n ops E t c (remdups (map PStr chs)) (PStr cid) collected seeds sv = Inl Diverged"
proof (rule history_walk_diverges [OF i, of "{cid}"])
  fix cur
  assume "cur \<in> {cid}"
  then have [simp]: "cur = cid" by simp
  obtain rec cp vals where r: "content (sv_store sv) (ckpt_ns t c, cid) = Some rec"
     "get_key rec (lit ''parent'') = Inr (PStr cid)" "loads_item E rec (lit ''cp'') = Inr (PDict cp)"
     "dget cp (PStr (lit ''channel_values'')) = Some (PDict vals)" "\<forall>ch \<in> set chs. dget vals (PStr ch) = None"
     "ns_keys (content (sv_store sv)) (writes_ns t c cid) = {}"
    using o unfolding own_parent_def by blast
  have "mapE (\<lambda>ch. bindE (py_in ch (PDict vals)) (\<lambda>b. if b then bindE (getitem_val (PDict vals) ch) (\<lambda>v. Inr (Some (ch, v))) else Inr None))
      (remdups (map PStr chs)) = Inr (map (\<lambda>_. None) (remdups (map PStr chs)))"
    using r(5) by (intro mapE_Inr_map) auto
  then have "channel_values ops E t c rec (remdups (map PStr chs)) sv = Inr []"
    using r(3,4) by (simp add: channel_values_def dict_of_def map_filter_def del: lit_simps)
  moreover have "store_keys ops (writes_ns t c cid) sv = []" using read_keys [OF i, of "writes_ns t c cid"] r(6) by simp
  then have "pending_writes ops E t c cid chs' sv = Inr []" for chs'
    using i by (simp add: pending_writes_def sort_writes_def read_many)
  moreover have "rec \<noteq> PNone" using r(2) by auto
  ultimately show "\<exists>rec p ws. content (sv_store sv) (ckpt_ns t c, cur) = Some rec \<and> rec \<noteq> PNone \<and>
      get_key rec (lit ''parent'') = Inr (PStr p) \<and> p \<in> {cid} \<and> channel_values ops E t c rec (remdups (map PStr chs)) sv = Inr [] \<and>
      pending_writes ops E t c cur (Some (remdups (map PStr chs))) sv = Inr ws"
    using r(1,2) by auto
qed (use assms(3,4) in auto)

lemma history_of:
  assumes "inv (sv_store sv)" "cfg_thread_id cfg = Some t" "get_checkpoint_id E cfg = PStr cid" "cid \<noteq> []" "chs \<noteq> []"
    "content (sv_store sv) (ckpt_ns t (cfg_ns cfg), cid) = Some rec" "rec \<noteq> PNone"
  shows "fst (get_delta_channel_history ops E cfg chs sv) =
    bindE (get_key rec (lit ''parent'')) (\<lambda>cursor.
    bindE (history_walk (walk_fuel E) ops E t (cfg_ns cfg) (remdups (map PStr chs)) cursor [] [] sv) (\<lambda>(collected, seeds).
      Inr (dict_of (map (\<lambda>ch. (ch, (filter (\<lambda>(_, wch, _). wch = PStr ch) collected, dget seeds (PStr ch)))) chs))))"
  unfolding get_delta_channel_history_def using resolve_requested [OF assms(1-4,6,7)] assms(5)
  by (simp add: act_simps bindE_def del: lit_simps split: sum.split prod.split)

lemma history_ends:
  assumes i: "inv (sv_store sv)" "loads_returns E"
    and cfg: "cfg_thread_id cfg = Some t" "get_checkpoint_id E cfg = PStr cid" "cid \<noteq> []"
    and ac: "acyclic (parents (content (sv_store sv)) (ckpt_ns t (cfg_ns cfg)))"
    and fuel: "card (ns_keys (content (sv_store sv)) (ckpt_ns t (cfg_ns cfg))) < walk_fuel E"
  shows "ends (fst (get_delta_channel_history ops E cfg chs sv))"
proof (cases "chs = [] \<or> the_default PNone (content (sv_store sv) (ckpt_ns t (cfg_ns cfg), cid)) = PNone")
  case True
  then show ?thesis using i(1) cfg by (auto simp: get_delta_channel_history_def resolve_def need_def act_simps Let_def)
next
  case False
  then obtain rec where rec: "content (sv_store sv) (ckpt_ns t (cfg_ns cfg), cid) = Some rec" "rec \<noteq> PNone"
    by (auto simp: the_default_def split: option.splits)
  have "ends (history_walk (walk_fuel E) ops E t (cfg_ns cfg) rem cursor [] [] sv)" for rem cursor
    using fuel le_trans [OF rounds_bound [OF finite_law [OF i(1)]]] by (intro history_walk_ends [OF i ac]) auto
  then show ?thesis
    using False by (subst history_of [OF i(1) cfg _ rec]) (auto intro!: ends_bindE ends_rules)
qed

end

text \<open>
  C31. The walks along parent ids end when no stored checkpoint of the thread is its own ancestor:
  \<open>get_delta_channel_history\<close> and the survivor scan of the retention return or raise after at most
  one round for each stored checkpoint and one more. They do not remember the ids they have visited: on a checkpoint
  stored as its own parent that has no value for the channels, \<open>get_delta_channel_history\<close> does not
  return, whatever number of rounds is allowed.
\<close>

theorem delta_history_terminates:
  assumes "mem_inv C h (sv_store sv)" "loads_returns E"
    and "cfg_thread_id cfg = Some t" "get_checkpoint_id E cfg = PStr cid" "cid \<noteq> []"
  shows "(acyclic (parents (mem_content C h (sv_store sv)) (ckpt_ns t (cfg_ns cfg))) \<and>
      card (ns_keys (mem_content C h (sv_store sv)) (ckpt_ns t (cfg_ns cfg))) < walk_fuel E \<longrightarrow>
      fst (get_delta_channel_history (mem_ops C h) E cfg chs sv) \<noteq> Inl Diverged \<and>
      (\<forall>ids. delta_ancestors (mem_ops C h) E t (cfg_ns cfg) ids []
         (dict_of (zip ids (map (\<lambda>i. the_default PNone (mem_content C h (sv_store sv) (ckpt_ns t (cfg_ns cfg), i))) ids))) sv
         \<noteq> Inl Diverged)) \<and>
    (own_parent E (mem_content C h (sv_store sv)) t (cfg_ns cfg) cid chs \<and> chs \<noteq> [] \<longrightarrow>
      fst (get_delta_channel_history (mem_ops C h) E cfg chs sv) = Inl Diverged)"
proof -
  let ?m = "mem_content C h (sv_store sv)"
  have "fst (get_delta_channel_history (mem_ops C h) E cfg chs sv) = Inl Diverged"
    if o: "own_parent E ?m t (cfg_ns cfg) cid chs" and "chs \<noteq> []"
  proof -
    obtain rec where r: "?m (ckpt_ns t (cfg_ns cfg), cid) = Some rec" "get_key rec (lit ''parent'') = Inr (PStr cid)"
      using o unfolding own_parent_def by blast
    from r(2) have "rec \<noteq> PNone" by auto
    with r show ?thesis
      using mem_saver.own_parent_walk [OF assms(1) o assms(5) that(2)]
      by (subst mem_saver.history_of [OF assms(1,3,4,5) that(2) r(1)]) (simp_all del: lit_simps)
  qed
  moreover have "ends (fst (get_delta_channel_history (mem_ops C h) E cfg chs sv))"
    "ends (delta_ancestors (mem_ops C h) E t (cfg_ns cfg) ids []
         (dict_of (zip ids (map (\<lambda>i. the_default PNone (?m (ckpt_ns t (cfg_ns cfg), i))) ids))) sv)"
    if "acyclic (parents ?m (ckpt_ns t (cfg_ns cfg)))" "card (ns_keys ?m (ckpt_ns t (cfg_ns cfg))) < walk_fuel E" for ids
    using mem_saver.history_ends [OF assms that] mem_saver.delta_ancestors_ends [OF assms(1,2) that cache_ok_zip] by auto
  ultimately show ?thesis unfolding ends_def by blast
qed

text \<open>Witness of C31: the first checkpoint of a thread, put without a parent, and put under a
  configuration that names its own id.\<close>

definition loop_cp :: pyval where
  "loop_cp = PDict [(PStr (lit ''id''), PStr [49]), (PStr (lit ''channel_values''), PDict [])]"

definition loop_rec :: "pyval \<Rightarrow> pyval" where
  "loop_rec parent = mk_record (PList [PStr (lit ''t''), PBytes [0]]) (PList [PStr (lit ''t''), PBytes []]) parent"

definition loop_env :: lg_env where "loop_env = table_env [ex_md, loop_cp]"

definition loop_codec :: codec where
  "loop_codec = table_codec [PStr [49], loop_rec PNone, loop_rec (PStr [49])]"

lemma loop_encode:
  "encode_put loop_env False (ex_cfg None) loop_cp ex_md [] = Inr ([97], [], [49], loop_rec PNone, [])"
  "encode_put loop_env False (ex_cfg (Some (PStr [49]))) loop_cp ex_md [] = Inr ([97], [], [49], loop_rec (PStr [49]), [])"
  by (simp_all add: encode_put_def ex_cfg_def need_def loop_cp_def dumps_list_def loop_env_def table_env_def
      ex_md_def cfg_ns_def cfg_id_def loop_rec_def mk_record_def)

lemma loop_put:
  assumes "p = None \<and> q = PNone \<or> p = Some (PStr [49]) \<and> q = PStr [49]"
  obtains sv where "mem_inv loop_codec sum_list (sv_store sv)"
    "mem_content loop_codec sum_list (sv_store sv) =
       [(ckpt_ns [97] [], [49]) \<mapsto> loop_rec q, (LATEST_NS, latest_key [97] []) \<mapsto> PStr [49]]"
    "put (mem_ops loop_codec sum_list) loop_env (ex_cfg p) loop_cp ex_md [] (ex_saver empty_mem False) = (Inr (mk_config [97] [] (PStr [49])), sv)"
proof -
  have i: "mem_inv loop_codec sum_list (sv_store (ex_saver empty_mem False))" by (simp add: empty_mem_ok)
  have e: "encode_put loop_env False (ex_cfg p) loop_cp ex_md [] = Inr ([97], [], [49], loop_rec q, [])"
    using assms loop_encode by auto
  have st: "storable loop_codec (loop_rec q)" "storable loop_codec (PStr [49])"
    using assms by (auto simp: loop_codec_def intro!: table_codec_storable)
  obtain s where s: "mem_inv loop_codec sum_list s"
      "mem_content loop_codec sum_list s = upd_all (put_entries (ex_saver empty_mem False) [97] [] [49] (loop_rec q))
         (mem_content loop_codec sum_list (sv_store (ex_saver empty_mem False)))"
      "put (mem_ops loop_codec sum_list) loop_env (ex_cfg p) loop_cp ex_md [] (ex_saver empty_mem False) =
        (Inr (mk_config [97] [] (PStr [49])), (ex_saver empty_mem False)\<lparr>max_seen := put_hints (ex_saver empty_mem False) [97] [] [49], sv_store := s\<rparr>)"
    using mem_saver.put_whole [OF i ex_saver_simps(2,3) e] st by (auto simp: scalar_def)
  show ?thesis
    by (rule that [OF _ _ s(3)]) (use s(1,2) in \<open>simp_all add: put_entries_def publishes_def empty_mem_ok\<close>)
qed

theorem delta_history_terminates_witness:
  "(\<exists>sv. put (mem_ops loop_codec sum_list) loop_env (ex_cfg None) loop_cp ex_md [] (ex_saver empty_mem False) =
       (Inr (mk_config [97] [] (PStr [49])), sv) \<and>
     fst (get_delta_channel_history (mem_ops loop_codec sum_list) loop_env (ex_cfg (Some (PStr [49]))) [[99]] sv) \<noteq> Inl Diverged) \<and>
   (\<exists>sv. put (mem_ops loop_codec sum_list) loop_env (ex_cfg (Some (PStr [49]))) loop_cp ex_md [] (ex_saver empty_mem False) =
       (Inr (mk_config [97] [] (PStr [49])), sv) \<and>
     fst (get_delta_channel_history (mem_ops loop_codec sum_list) loop_env (ex_cfg (Some (PStr [49]))) [[99]] sv) = Inl Diverged)"
proof -
  let ?cfg = "ex_cfg (Some (PStr [49]))"
  have l: "loads_returns loop_env"
    by (auto simp: loads_returns_def loop_env_def table_env_def split: list.split pyval.split)
  have c: "cfg_thread_id ?cfg = Some [97]" "get_checkpoint_id loop_env ?cfg = PStr [49]" "[49] \<noteq> ([] :: pystr)" "cfg_ns ?cfg = []"
    "walk_fuel loop_env = 100"
    by (simp_all add: ex_cfg_def cfg_id_def cfg_ns_def loop_env_def table_env_def)
  obtain sv where sv: "mem_inv loop_codec sum_list (sv_store sv)"
    "mem_content loop_codec sum_list (sv_store sv) = [(ckpt_ns [97] [], [49]) \<mapsto> loop_rec PNone, (LATEST_NS, latest_key [97] []) \<mapsto> PStr [49]]"
    "put (mem_ops loop_codec sum_list) loop_env (ex_cfg None) loop_cp ex_md [] (ex_saver empty_mem False) = (Inr (mk_config [97] [] (PStr [49])), sv)"
    by (rule loop_put [of None PNone]) auto
  have "parents (mem_content loop_codec sum_list (sv_store sv)) (ckpt_ns [97] []) = {}"
    "ns_keys (mem_content loop_codec sum_list (sv_store sv)) (ckpt_ns [97] []) = {[49]}"
    unfolding sv(2) by (auto simp: parents_def ns_keys_def loop_rec_def mk_record_def split: if_splits)
  then have 1: "fst (get_delta_channel_history (mem_ops loop_codec sum_list) loop_env ?cfg [[99]] sv) \<noteq> Inl Diverged"
    using delta_history_terminates [OF sv(1) l c(1-3), of "[[99]]"] unfolding c(4,5) by (simp add: acyclic_def)
  obtain sv' where sv': "mem_inv loop_codec sum_list (sv_store sv')"
    "mem_content loop_codec sum_list (sv_store sv') = [(ckpt_ns [97] [], [49]) \<mapsto> loop_rec (PStr [49]), (LATEST_NS, latest_key [97] []) \<mapsto> PStr [49]]"
    "put (mem_ops loop_codec sum_list) loop_env ?cfg loop_cp ex_md [] (ex_saver empty_mem False) = (Inr (mk_config [97] [] (PStr [49])), sv')"
    by (rule loop_put [of "Some (PStr [49])" "PStr [49]"]) auto
  have "own_parent loop_env (mem_content loop_codec sum_list (sv_store sv')) [97] [] [49] [[99]]"
    unfolding own_parent_def sv'(2)
    by (rule exI [of _ "loop_rec (PStr [49])"])
      (simp add: loop_rec_def mk_record_def loads_item_def loop_env_def table_env_def loop_cp_def ns_keys_def)
  then have "fst (get_delta_channel_history (mem_ops loop_codec sum_list) loop_env ?cfg [[99]] sv') = Inl Diverged"
    using delta_history_terminates [OF sv'(1) l c(1-3), of "[[99]]"] unfolding c(4) by simp
  with 1 sv(3) sv'(3) show ?thesis by blast
qed

end
