(* ===== verification/Saver_Copy.thy ===== *)
theory Saver_Copy
  imports Saver_Delete
begin

text \<open>
  Copying a thread: \<open>copy_thread\<close> gives the target the checkpoints, pending writes and channel
  blobs of the source, with the metadata of the checkpoints naming the target, makes the newest
  checkpoint the latest one, and touches nothing else.
\<close>

section \<open>Copied rows\<close>

lemma kind_prefix_eq:
  "kind_prefix ''ck'' t @ c = ckpt_ns t c" "kind_prefix ''bl'' t @ c = blobs_ns t c"
  "kind_prefix ''wr'' t @ c @ SEP # i = writes_ns t c i"
  by (simp_all add: kind_prefix_def ckpt_ns_def blobs_ns_def writes_ns_def)

lemma move_ns:
  assumes "SEP \<notin> set source" "kind \<in> {''ck'', ''wr'', ''bl''}"
  shows "join_with SEP ((split_on SEP (kind_prefix kind source @ r))[Suc 0 := target]) = kind_prefix kind target @ r"
proof -
  have "split_on SEP (kind_prefix kind source @ r) = lit kind # source # split_on SEP r"
    using split_on_append [OF kinds_SEP [OF assms(2)]] split_on_append [OF assms(1)] by (simp add: kind_prefix_def)
  moreover obtain x xs where "split_on SEP r = x # xs" by (cases "split_on SEP r") auto
  moreover have "join_with SEP (split_on SEP r) = r" by simp
  ultimately show ?thesis by (simp add: kind_prefix_def)
qed

lemma kind_prefix_inj:
  assumes "SEP \<notin> set t" "SEP \<notin> set t'" "kind \<in> {''ck'', ''wr'', ''bl''}" "kind' \<in> {''ck'', ''wr'', ''bl''}"
  shows "kind_prefix kind t @ r = kind_prefix kind' t' @ r' \<longleftrightarrow> kind = kind' \<and> t = t' \<and> r = r'"
proof
  assume "kind_prefix kind t @ r = kind_prefix kind' t' @ r'"
  then have "lit kind @ SEP # t @ SEP # r = lit kind' @ SEP # t' @ SEP # r'" by (simp add: kind_prefix_def)
  then have "lit kind = lit kind' \<and> t = t' \<and> r = r'" using sep_append_inj kinds_SEP assms by metis
  moreover have "lit kind = lit kind' \<longleftrightarrow> kind = kind'" using assms(3,4) by auto
  ultimately show "kind = kind' \<and> t = t' \<and> r = r'" by blast
qed simp

text \<open>What a row becomes, and the row of the target afterwards: stored \<open>None\<close> values are skipped.\<close>

definition copied_row :: "lg_env \<Rightarrow> pystr \<Rightarrow> pystr \<Rightarrow> string \<Rightarrow> pyval \<Rightarrow> pyval" where
  "copied_row E source target kind v =
     (if kind = ''ck'' then (case retarget E v source target of Inr x \<Rightarrow> x | Inl _ \<Rightarrow> v) else v)"

definition overlaid :: "(pyval \<Rightarrow> pyval) \<Rightarrow> pyval option \<Rightarrow> pyval option \<Rightarrow> pyval option" where
  "overlaid f src old = (case src of None \<Rightarrow> old | Some v \<Rightarrow> if v = PNone then old else Some (f v))"

definition overlay ::
  "lg_env \<Rightarrow> pystr \<Rightarrow> pystr \<Rightarrow> string \<Rightarrow> pystr set \<Rightarrow> content \<Rightarrow> content" where
  "overlay E source target kind R m = (\<lambda>(ns, k).
     let r = drop (length (kind_prefix kind target)) ns
     in if ns = kind_prefix kind target @ r \<and> r \<in> R
        then overlaid (copied_row E source target kind) (m (kind_prefix kind source @ r, k)) (m (ns, k))
        else m (ns, k))"

lemma overlay_at:
  "overlay E source target kind R m (kind_prefix kind target @ r, k) =
     (if r \<in> R then overlaid (copied_row E source target kind) (m (kind_prefix kind source @ r, k)) (m (kind_prefix kind target @ r, k))
      else m (kind_prefix kind target @ r, k))"
  by (simp add: overlay_def)

lemma overlay_other:
  "\<not> startswith ns (kind_prefix kind target) \<Longrightarrow> overlay E source target kind R m (ns, k) = m (ns, k)"
  by (auto simp: overlay_def startswith_iff Let_def)

lemma overlay_prefix_other:
  assumes "SEP \<notin> set t" "SEP \<notin> set target" "kind \<in> {''ck'', ''wr'', ''bl''}" "kind' \<in> {''ck'', ''wr'', ''bl''}"
    "kind' \<noteq> kind \<or> t \<noteq> target"
  shows "overlay E source target kind R m (kind_prefix kind' t @ r, k) = m (kind_prefix kind' t @ r, k)"
  by (rule overlay_other) (use kind_prefix_inj [OF assms(1,2) assms(4,3)] assms(5) in \<open>auto simp: startswith_iff\<close>)

lemma overlay_empty: "overlay E source target kind {} m = m"
  by (auto simp: overlay_def)

lemma overlay_insert:
  assumes "SEP \<notin> set source" "SEP \<notin> set target" "source \<noteq> target" "kind \<in> {''ck'', ''wr'', ''bl''}"
  shows "overlay E source target kind {r} (overlay E source target kind R m) = overlay E source target kind (insert r R) m"
proof (rule ext, clarify)
  fix ns k
  have s: "overlay E source target kind R' m' (kind_prefix kind source @ r', k) = m' (kind_prefix kind source @ r', k)" for R' m' r'
    using overlay_prefix_other [OF assms(1,2,4,4)] assms(3) by blast
  show "overlay E source target kind {r} (overlay E source target kind R m) (ns, k) = overlay E source target kind (insert r R) m (ns, k)"
  proof (cases "startswith ns (kind_prefix kind target)")
    case True
    then obtain r' where ns: "ns = kind_prefix kind target @ r'" by (auto simp: startswith_iff)
    show ?thesis unfolding ns overlay_at s
      by (cases "r' = r"; cases "r' \<in> R") (auto simp: overlaid_def split: option.splits)
  qed (simp add: overlay_other)
qed

lemma upd_all_rows:
  "upd_all (map (\<lambda>k. (t, k, f k)) ks) m (ns, k) = (if ns = t \<and> k \<in> set ks then Some (f k) else m (ns, k))"
  by (induction ks arbitrary: m) auto

lemma copy_rows_run:
  assumes "\<And>k v. (k, v) \<in> set kvs \<Longrightarrow> is_ck \<Longrightarrow> v \<noteq> PNone \<Longrightarrow> \<exists>x. retarget E v source target = Inr x"
  shows "copy_rows E is_ck source target tns kvs =
    Inr (map (\<lambda>(k, v). (tns, k, if is_ck then (case retarget E v source target of Inr x \<Rightarrow> x | Inl _ \<Rightarrow> v) else v))
           (filter (\<lambda>(k, v). v \<noteq> PNone) kvs))"
  using assms
proof (induction kvs)
  case (Cons kv kvs)
  obtain k v where kv: "kv = (k, v)" by (cases kv)
  note IH = Cons.IH [OF Cons.prems [OF list.set_intros(2)]]
  show ?case
  proof (cases "v = PNone")
    case False
    have "\<exists>x. retarget E v source target = Inr x" if is_ck
      using Cons.prems [of k v] that False kv by simp
    with False IH show ?thesis unfolding kv by (cases is_ck) auto
  qed (use IH kv in simp)
qed simp

text \<open>The rows of the source can be copied.\<close>

definition rows_ok :: "lg_env \<Rightarrow> (pyval \<Rightarrow> bool) \<Rightarrow> pystr \<Rightarrow> pystr \<Rightarrow> string \<Rightarrow> content \<Rightarrow> bool" where
  "rows_ok E okv source target kind m \<longleftrightarrow>
     (\<forall>r k v. m (kind_prefix kind source @ r, k) = Some v \<longrightarrow> v \<noteq> PNone \<longrightarrow>
        (kind = ''ck'' \<longrightarrow> (\<exists>x. retarget E v source target = Inr x)) \<and> okv (copied_row E source target kind v))"

lemma rows_okD:
  assumes "rows_ok E okv source target kind m" "m (kind_prefix kind source @ r, k) = Some v" "v \<noteq> PNone"
  shows "kind = ''ck'' \<Longrightarrow> \<exists>x. retarget E v source target = Inr x" "okv (copied_row E source target kind v)"
  using assms unfolding rows_ok_def by blast+

definition same_saver :: "'s saver \<Rightarrow> 's saver \<Rightarrow> bool" where
  "same_saver sv sv' \<longleftrightarrow> incremental sv' = incremental sv \<and> max_checkpoints_per_thread sv' = max_checkpoints_per_thread sv \<and>
     max_seen sv' = max_seen sv \<and> prune_floor sv' = prune_floor sv \<and> store_indexes_max_key sv' = store_indexes_max_key sv"

lemma same_saver_trans: "same_saver a b \<Longrightarrow> same_saver b c \<Longrightarrow> same_saver a c"
  by (simp add: same_saver_def)

text \<open>The latest pointers of the target's namespaces in \<open>X\<close>, set to their newest checkpoints.\<close>

definition pointed :: "pystr \<Rightarrow> pystr set \<Rightarrow> content \<Rightarrow> content" where
  "pointed target X m = (\<lambda>(ns, k).
     let c = drop (Suc (length target)) k; ids = ns_keys m (ckpt_ns target c)
     in if ns = LATEST_NS \<and> k = latest_key target c \<and> ckpt_ns target c \<in> X \<and> ids \<noteq> {} \<and> Max ids \<noteq> []
        then Some (PStr (Max ids)) else m (ns, k))"

lemma pointed_other: "ns \<noteq> LATEST_NS \<Longrightarrow> pointed target X m (ns, k) = m (ns, k)"
  by (simp add: pointed_def Let_def)

lemma pointed_at:
  "pointed target UNIV m (LATEST_NS, latest_key target c) =
     (if ns_keys m (ckpt_ns target c) \<noteq> {} \<and> Max (ns_keys m (ckpt_ns target c)) \<noteq> []
      then Some (PStr (Max (ns_keys m (ckpt_ns target c)))) else m (LATEST_NS, latest_key target c))"
  by (simp add: pointed_def latest_key_def Let_def)

lemma pointed_keys: "ns \<noteq> LATEST_NS \<Longrightarrow> ns_keys (pointed target X m) ns = ns_keys m ns"
  by (simp add: ns_keys_def pointed_other)

lemma pointed_empty: "pointed target {} m = m"
  by (auto simp: pointed_def Let_def)

lemma pointed_insert: "pointed target {ns} (pointed target X m) = pointed target (insert ns X) m"
proof (rule ext, clarify)
  fix n k
  have "ns_keys (pointed target X m) (ckpt_ns target c) = ns_keys m (ckpt_ns target c)" for c
    by (rule pointed_keys) simp
  then show "pointed target {ns} (pointed target X m) (n, k) = pointed target (insert ns X) m (n, k)"
    unfolding pointed_def [of _ "{ns}"] pointed_def [of _ "insert ns X"] by (simp add: Let_def) (simp add: pointed_def Let_def)
qed

lemma pointed_single:
  assumes "ns_keys m (ckpt_ns target c) \<noteq> {}" "Max (ns_keys m (ckpt_ns target c)) \<noteq> []"
  shows "pointed target {ckpt_ns target c} m = m((LATEST_NS, latest_key target c) \<mapsto> PStr (Max (ns_keys m (ckpt_ns target c))))"
proof (rule ext, clarify)
  fix n k
  have same: "ckpt_ns target c' = ckpt_ns target c \<longleftrightarrow> c' = c" for c' by (simp add: ckpt_ns_def)
  show "pointed target {ckpt_ns target c} m (n, k) = (m((LATEST_NS, latest_key target c) \<mapsto> PStr (Max (ns_keys m (ckpt_ns target c))))) (n, k)"
  proof (cases "(n, k) = (LATEST_NS, latest_key target c)")
    case True
    then show ?thesis using assms by (simp add: pointed_def latest_key_def Let_def)
  next
    case False
    then have "\<not> (n = LATEST_NS \<and> k = latest_key target (drop (Suc (length target)) k) \<and> drop (Suc (length target)) k = c)"
      by metis
    then have "pointed target {ckpt_ns target c} m (n, k) = m (n, k)" by (simp add: pointed_def Let_def same) metis
    with False show ?thesis by auto
  qed
qed

lemma pointed_names:
  assumes "set nss = {ns \<in> ns_names m. startswith ns (kind_prefix ''ck'' target)}"
  shows "pointed target (set nss) m = pointed target UNIV m"
proof -
  have "ckpt_ns target c \<in> set nss" if "ns_keys m (ckpt_ns target c) \<noteq> {}" for c
    using that unfolding assms ns_names_def kind_prefix_eq(1) [symmetric] by simp
  then show ?thesis by (auto simp: pointed_def Let_def)
qed

context saver_lib
begin

lemma copy_namespace_runs:
  assumes i: "inv (sv_store sv)" "okt target" and k: "SEP \<notin> set source" "kind \<in> {''ck'', ''wr'', ''bl''}"
    and ok: "rows_ok E okv source target kind (content (sv_store sv))"
  shows "runs (copy_namespace ops E kind source target (kind_prefix kind source @ r)) sv (\<lambda>_ sv'. same_saver sv sv' \<and>
    inv (sv_store sv') \<and> content (sv_store sv') = overlay E source target kind {r} (content (sv_store sv)))"
proof -
  let ?m = "content (sv_store sv)" and ?ns = "kind_prefix kind source @ r" and ?t = "kind_prefix kind target @ r"
  let ?ks = "store_keys ops ?ns sv"
  define vs where "vs = map (\<lambda>k. the_default PNone (?m (?ns, k))) ?ks"
  have ks: "set ?ks = ns_keys ?m ?ns" using read_keys [OF i(1)] by blast
  have z: "zip ?ks vs = map (\<lambda>k. (k, the_default PNone (?m (?ns, k)))) ?ks"
    by (simp add: vs_def zip_map2 zip_same_conv_map)
  have stored: "?m (?ns, x) = Some v" if "(x, v) \<in> set (zip ?ks vs)" for x v
    using that unfolding z by (auto simp: ks ns_keys_def)
  define rows where "rows = map (\<lambda>k. (?t, k, copied_row E source target kind (the_default PNone (?m (?ns, k)))))
    (filter (\<lambda>k. the_default PNone (?m (?ns, k)) \<noteq> PNone) ?ks)"
  have "copy_rows E (kind = ''ck'') source target ?t (zip ?ks vs) = Inr rows"
    using rows_okD(1) [OF ok stored] by (subst copy_rows_run) (auto simp: rows_def z copied_row_def filter_map o_def)
  moreover have okr: "\<forall>e \<in> set rows. entry_ok okt okv e"
  proof
    fix e assume "e \<in> set rows"
    then obtain x where x: "x \<in> set ?ks" "the_default PNone (?m (?ns, x)) \<noteq> PNone"
      "e = (?t, x, copied_row E source target kind (the_default PNone (?m (?ns, x))))" by (auto simp: rows_def)
    then obtain v where v: "?m (?ns, x) = Some v" "v \<noteq> PNone" by (auto simp: ks ns_keys_def)
    then have "okt ?ns \<and> okt x" using text_law [OF i(1)] by blast
    with x(3) v rows_okD(2) [OF ok v] i(2) k(2) show "entry_ok okt okv e"
      by (auto simp: kind_prefix_def simp del: lit_simps)
  qed
  obtain s where s: "set_many ops rows sv = (Inr (), sv\<lparr>sv_store := s\<rparr>)" "inv s" "content s = upd_all rows ?m"
    using do_set_many [OF i(1) okr] .
  moreover have "content s = overlay E source target kind {r} ?m"
  proof (rule ext, clarify)
    fix n x
    show "content s (n, x) = overlay E source target kind {r} ?m (n, x)"
    proof (cases "n = ?t")
      case True
      show ?thesis unfolding True s(3) rows_def upd_all_rows overlay_at
        by (auto simp: ks ns_keys_def overlaid_def split: option.splits)
    next
      case False
      then have "overlay E source target kind {r} ?m (n, x) = ?m (n, x)" by (auto simp: overlay_def Let_def)
      with False show ?thesis unfolding s(3) rows_def upd_all_rows by simp
    qed
  qed
  ultimately show ?thesis
    using i(1) by (auto simp: copy_namespace_def Let_def move_ns [OF k] read_many vs_def runs_def act_simps readA_eval same_saver_def)
qed

lemma copy_kind_runs:
  assumes i: "inv (sv_store sv)" "okt source" "okt target"
    and k: "SEP \<notin> set source" "SEP \<notin> set target" "source \<noteq> target" "kind \<in> {''ck'', ''wr'', ''bl''}"
    and ok: "rows_ok E okv source target kind (content (sv_store sv))"
  shows "runs (bindA (thread_namespaces ops kind source) (forA (copy_namespace ops E kind source target))) sv (\<lambda>_ sv'. same_saver sv sv' \<and>
    inv (sv_store sv') \<and> content (sv_store sv') = overlay E source target kind UNIV (content (sv_store sv)))"
proof -
  let ?m = "content (sv_store sv)" and ?p = "kind_prefix kind source"
  obtain nss b where n: "thread_namespaces ops kind source sv = (Inr nss, sv\<lparr>store_takes_prefix := b\<rparr>)"
    "set nss = {ns \<in> ns_names ?m. startswith ns ?p}"
    using do_thread_namespaces [OF i(1,2) k(1,4)] by metis
  let ?I = "\<lambda>xs sv'. same_saver sv sv' \<and> inv (sv_store sv') \<and> content (sv_store sv') = overlay E source target kind {r. ?p @ r \<in> set xs} ?m"
  have "runs (forA (copy_namespace ops E kind source target) nss) (sv\<lparr>store_takes_prefix := b\<rparr>) (\<lambda>_. ?I nss)"
  proof (rule runs_forA_prefix)
    fix xs ns ys sv'
    assume d: "nss = xs @ ns # ys" and I: "?I xs sv'"
    obtain r where r: "ns = ?p @ r" using n(2) d by (auto simp: startswith_iff)
    have "rows_ok E okv source target kind (content (sv_store sv'))"
      using ok I overlay_prefix_other [OF k(1,2,4,4)] k(3) unfolding rows_ok_def by metis
    from copy_namespace_runs [OF _ i(3) k(1,4) this, of r] I
    have "runs (copy_namespace ops E kind source target ns) sv' (\<lambda>_ sv''. same_saver sv' sv'' \<and> inv (sv_store sv'') \<and>
        content (sv_store sv'') = overlay E source target kind {r} (content (sv_store sv')))" unfolding r by blast
    moreover have "{x. ?p @ x \<in> set (xs @ [ns])} = insert r {x. ?p @ x \<in> set xs}" by (auto simp: r)
    ultimately show "runs (copy_namespace ops E kind source target ns) sv' (\<lambda>_. ?I (xs @ [ns]))"
      using I overlay_insert [OF k, of E r] same_saver_trans by (auto elim!: runs_mono)
  qed (use i(1) in \<open>simp add: overlay_empty same_saver_def\<close>)
  moreover have "overlay E source target kind {r. ?p @ r \<in> set nss} ?m = overlay E source target kind UNIV ?m"
  proof (rule ext, clarify)
    fix ns x
    have "?m (?p @ r, x) = None" if "?p @ r \<notin> set nss" for r
      using that n(2) by (auto simp: ns_names_def ns_keys_def startswith_iff)
    then show "overlay E source target kind {r. ?p @ r \<in> set nss} ?m (ns, x) = overlay E source target kind UNIV ?m (ns, x)"
      by (auto simp: overlay_def overlaid_def Let_def)
  qed
  ultimately show ?thesis using n(1) by (simp add: runs_def act_simps)
qed

lemma publish_newest_runs:
  assumes i: "inv (sv_store sv)" "okt target" "okt c" and c: "SEP \<notin> set target" "SEP \<notin> set c"
    and keys: "ns_keys (content (sv_store sv)) (ckpt_ns target c) \<noteq> {}"
    and v: "okv (PStr (Max (ns_keys (content (sv_store sv)) (ckpt_ns target c))))"
  shows "runs (publish_newest ops target (ckpt_ns target c)) sv (\<lambda>_ sv'. store_indexes_max_key sv' = store_indexes_max_key sv \<and>
    inv (sv_store sv') \<and> content (sv_store sv') = pointed target {ckpt_ns target c} (content (sv_store sv)))"
proof -
  let ?m = "content (sv_store sv)"
  define newest where "newest = Max (ns_keys ?m (ckpt_ns target c))"
  have mk: "op_max_key ops (sv_store sv) (ckpt_ns target c) = Some newest"
    using max_key_law [OF i(1)] keys by (simp add: newest_def)
  have sp: "drop 2 (split_on SEP (ckpt_ns target c)) = [c]"
    using split_on_append [OF kinds_SEP [of "''ck''"]] split_on_append [OF c(1)] split_on_single [OF c(2)]
    by (simp add: ckpt_ns_def)
  show ?thesis
  proof (cases "newest = []")
    case True
    then have "pointed target {ckpt_ns target c} ?m = ?m" by (intro ext) (auto simp: pointed_def newest_def Let_def)
    with True mk i(1) show ?thesis by (simp add: publish_newest_def runs_def act_simps)
  next
    case False
    obtain s where s: "store_set ops LATEST_NS (latest_key target c) (PStr newest) sv = (Inr (), sv\<lparr>sv_store := s\<rparr>)" "inv s"
        "content s = ?m((LATEST_NS, latest_key target c) \<mapsto> PStr newest)"
      using do_set [OF i(1), of LATEST_NS "latest_key target c" "PStr newest"] i v by (auto simp: newest_def)
    have "content s = pointed target {ckpt_ns target c} ?m"
      unfolding s(3) using pointed_single [OF keys] False by (simp add: newest_def)
    with False mk sp s show ?thesis by (simp add: publish_newest_def runs_def act_simps)
  qed
qed

lemma publish_all_runs:
  assumes i: "inv (sv_store sv)" "okt target" "SEP \<notin> set target"
    and ok: "\<And>c k. content (sv_store sv) (ckpt_ns target c, k) \<noteq> None \<Longrightarrow> SEP \<notin> set c \<and> okv (PStr k)"
  shows "runs (bindA (thread_namespaces ops ''ck'' target) (forA (publish_newest ops target))) sv (\<lambda>_ sv'.
    inv (sv_store sv') \<and> content (sv_store sv') = pointed target UNIV (content (sv_store sv)))"
proof -
  let ?m = "content (sv_store sv)" and ?p = "kind_prefix ''ck'' target"
  obtain nss b where n: "thread_namespaces ops ''ck'' target sv = (Inr nss, sv\<lparr>store_takes_prefix := b\<rparr>)"
    "set nss = {ns \<in> ns_names ?m. startswith ns ?p}"
    by (rule do_thread_namespaces [OF i, of "''ck''"]) auto
  let ?I = "\<lambda>xs sv'. inv (sv_store sv') \<and> content (sv_store sv') = pointed target (set xs) ?m"
  have "runs (forA (publish_newest ops target) nss) (sv\<lparr>store_takes_prefix := b\<rparr>) (\<lambda>_. ?I nss)"
  proof (rule runs_forA_prefix)
    fix xs ns ys and sv' :: "'s saver"
    assume d: "nss = xs @ ns # ys" and I: "?I xs sv'"
    have "ns \<in> ns_names ?m" "startswith ns ?p" using n(2) d by auto
    then obtain c where c: "ns = ckpt_ns target c" "ns_keys ?m ns \<noteq> {}"
      by (auto simp: startswith_iff kind_prefix_eq ns_names_def)
    then obtain k where k: "?m (ckpt_ns target c, k) \<noteq> None" by (auto simp: ns_keys_def)
    have "Max (ns_keys ?m ns) \<in> ns_keys ?m ns" using c(2) finite_ns_keys [OF finite_law [OF i(1)]] by (rule Max_in [rotated])
    then have v: "okv (PStr (Max (ns_keys ?m ns)))" using ok [of c] c(1) by (auto simp: ns_keys_def)
    have "okt (ckpt_ns target c)" using k text_law [OF i(1), of "ckpt_ns target c" k] by (simp add: domIff)
    then have "okt c" by simp
    from publish_newest_runs [OF _ i(2) this i(3), of sv'] I c v ok [OF k]
    show "runs (publish_newest ops target ns) sv' (\<lambda>_. ?I (xs @ [ns]))"
      by (auto simp: pointed_keys pointed_insert elim!: runs_mono)
  qed (use i(1) in \<open>simp add: pointed_empty\<close>)
  then show ?thesis using n(1) pointed_names [OF n(2)] by (simp add: runs_def act_simps)
qed

lemma copy_thread_runs:
  assumes i: "inv (sv_store sv)" "okt source" "okt target" "\<not> store_indexes_max_key sv"
    and k: "SEP \<notin> set source" "SEP \<notin> set target" "source \<noteq> target"
    and ok: "\<And>kind. kind \<in> {''ck'', ''wr'', ''bl''} \<Longrightarrow> rows_ok E okv source target kind (content (sv_store sv))"
    and ids: "\<And>t c k. t \<in> {source, target} \<Longrightarrow> content (sv_store sv) (ckpt_ns t c, k) \<noteq> None \<Longrightarrow> SEP \<notin> set c \<and> okv (PStr k)"
  shows "runs (copy_thread ops E source target) sv (\<lambda>_ sv'. inv (sv_store sv') \<and> content (sv_store sv') =
    pointed target UNIV (overlay E source target ''bl'' UNIV (overlay E source target ''wr'' UNIV
      (overlay E source target ''ck'' UNIV (content (sv_store sv))))))"
proof -
  let ?m = "content (sv_store sv)" and ?o = "\<lambda>kind. overlay E source target kind UNIV"
  let ?copy = "\<lambda>kind. bindA (thread_namespaces ops kind source) (forA (copy_namespace ops E kind source target))"
  have keep: "rows_ok E okv source target kind (?o kind' m)"
    if "rows_ok E okv source target kind m" "kind \<in> {''ck'', ''wr'', ''bl''}" "kind' \<in> {''ck'', ''wr'', ''bl''}" for kind kind' m
    using that overlay_prefix_other [OF k(1,2) that(3,2)] k(3) unfolding rows_ok_def by metis
  have step: "\<exists>sv''. ?copy kind sv' = (Inr (), sv'') \<and> same_saver sv' sv'' \<and> inv (sv_store sv'') \<and> content (sv_store sv'') = ?o kind m"
    if "inv (sv_store sv')" "content (sv_store sv') = m" "rows_ok E okv source target kind m" "kind \<in> {''ck'', ''wr'', ''bl''}" for kind sv' m
    using copy_kind_runs [OF that(1) i(2,3) k that(4)] that(2,3) unfolding runs_def by simp
  obtain sv1 where s1: "?copy ''ck'' sv = (Inr (), sv1)" "same_saver sv sv1" "inv (sv_store sv1)" "content (sv_store sv1) = ?o ''ck'' ?m"
    using step [OF i(1) refl ok, of "''ck''"] by auto
  obtain sv2 where s2: "?copy ''wr'' sv1 = (Inr (), sv2)" "same_saver sv1 sv2" "inv (sv_store sv2)"
      "content (sv_store sv2) = ?o ''wr'' (?o ''ck'' ?m)"
    using step [OF s1(3,4), of "''wr''"] ok [of "''wr''"] keep by auto
  obtain sv3 where s3: "?copy ''bl'' sv2 = (Inr (), sv3)" "same_saver sv2 sv3" "inv (sv_store sv3)"
      "content (sv_store sv3) = ?o ''bl'' (?o ''wr'' (?o ''ck'' ?m))"
    using step [OF s2(3,4), of "''bl''"] ok [of "''bl''"] keep by auto
  have ck: "content (sv_store sv3) (ckpt_ns target c, x) =
      overlaid (copied_row E source target ''ck'') (?m (ckpt_ns source c, x)) (?m (ckpt_ns target c, x))" for c x
    unfolding s3(4) kind_prefix_eq(1) [symmetric] by (simp add: overlay_prefix_other [OF k(2,2)] overlay_at)
  have "SEP \<notin> set c \<and> okv (PStr x)" if "content (sv_store sv3) (ckpt_ns target c, x) \<noteq> None" for c x
    using that ids [of source c x] ids [of target c x] unfolding ck by (auto simp: overlaid_def split: option.splits if_splits)
  then have "runs (bindA (thread_namespaces ops ''ck'' target) (forA (publish_newest ops target))) sv3 (\<lambda>_ sv'.
      inv (sv_store sv') \<and> content (sv_store sv') = pointed target UNIV (content (sv_store sv3)))"
    by (rule publish_all_runs [OF s3(3) i(3) k(2)])
  moreover have "\<not> store_indexes_max_key sv3" using s1(2) s2(2) s3(2) i(4) by (simp add: same_saver_def)
  ultimately show ?thesis
    using k(3) s1(1) s2(1) s3(1) unfolding s3(4) by (simp add: copy_thread_def runs_def act_simps)
qed

end


text \<open>Witness of C13: the thread \<open>"a"\<close> with its first checkpoint, copied to \<open>"b"\<close>.\<close>

lemma ex_after_one:
  obtains sv where "mem_inv ex_codec sum_list (sv_store sv)" "\<not> store_indexes_max_key sv"
    "mem_content ex_codec sum_list (sv_store sv) =
       [(ckpt_ns [97] [], [49]) \<mapsto> ex_rec 1 PNone, (LATEST_NS, latest_key [97] []) \<mapsto> PStr [49]]"
    "put (mem_ops ex_codec sum_list) ex_env (ex_cfg None) (ex_cp [49]) ex_md [] (ex_saver empty_mem False) = (Inr (mk_config [97] [] (PStr [49])), sv)"
proof -
  let ?sv = "ex_saver empty_mem False"
  have i: "mem_inv ex_codec sum_list (sv_store ?sv)" by (simp add: empty_mem_ok)
  obtain s where s: "mem_inv ex_codec sum_list s"
      "mem_content ex_codec sum_list s = upd_all (put_entries ?sv [97] [] [49] (ex_rec 1 PNone)) (mem_content ex_codec sum_list (sv_store ?sv))"
      "put (mem_ops ex_codec sum_list) ex_env (ex_cfg None) (ex_cp [49]) ex_md [] ?sv =
        (Inr (mk_config [97] [] (PStr [49])), ?sv\<lparr>max_seen := put_hints ?sv [97] [] [49], sv_store := s\<rparr>)"
    using mem_saver.put_whole [OF i ex_saver_simps(2,3) ex_encode(1)] ex_storable by (auto simp: scalar_def)
  show ?thesis
    by (rule that [OF _ _ _ s(3)]) (use s(1,2) in \<open>simp_all add: put_entries_def publishes_def empty_mem_ok\<close>)
qed

lemma ex_rec_ne: "ex_rec i p \<noteq> PNone"
  by (simp add: ex_rec_def)

lemma ex_retarget: "retarget ex_env (ex_rec 1 PNone) [97] [98] = Inr (ex_rec 1 PNone)"
  by (simp add: retarget_def loads_item_def ex_rec_def mk_record_def ex_env_def table_env_def ex_serde_def ex_md_def)


end
