(* ===== verification/Spec2Isabelle.thy ===== *)
theory Spec2Isabelle
  imports Saver_Retention Saver_Delete Portability_Props Crew_Props Metrics_Props Redis_Props Postgres_Props Saver_Async Condition_Props Graph_Props Codec_Props Migration Connections_Props Saver_Walks Saver_Copy
begin

text \<open>
  Verification of swarmstate, a key-value state store for agent programs and the adapters that
  keep agent state in it.

  \<^bold>\<open>The program.\<close> A store maps a namespace and a key (both strings) to a Python value. The
  in-memory store (\<^verbatim>\<open>rust/src/store.rs\<close>) keeps encoded values in shards of shared maps, so that
  a snapshot is a copy of references; the SQLite, Redis and PostgreSQL stores
  (\<^verbatim>\<open>python/swarmstate/backends\<close>) keep the same bytes in a table or in hashes. All of them encode
  with one codec (\<^verbatim>\<open>rust/src/codec.rs\<close>) and follow one protocol
  (\<^verbatim>\<open>python/swarmstate/protocols.py\<close>). Over any store run the LangGraph checkpointer
  (\<^verbatim>\<open>integrations/langgraph.py\<close>), the CrewAI memory (\<^verbatim>\<open>integrations/crewai.py\<close>) and the copy, dump
  and load functions (\<^verbatim>\<open>portability.py\<close>). A handoff graph (\<^verbatim>\<open>rust/src/graph.rs\<close>) chooses the next
  agent by conditions on the state (\<^verbatim>\<open>rust/src/condition.rs\<close>).

  \<^bold>\<open>The theories.\<close>
  \<^item> \<open>Prelude\<close>: exceptions as values (\<open>exc + 'a\<close>), actions that return an outcome and the state
    reached (\<open>act\<close>), dictionaries in insertion order, Python strings as lists of code points and
    the string functions used; \<open>Values\<close>: Python values; \<open>Utf8\<close>, \<open>Float64\<close>: the encodings of text
    and of 64-bit floats, bit by bit.
  \<^item> \<open>Store_Contract\<close>: the operations of a store as a record, and the locales \<open>store_like\<close> and
    \<open>snapshot_like\<close> with what clients may rely on. \<open>Prefix_Bound\<close>, \<open>Snapshots\<close>:
    \<^verbatim>\<open>backends/_prefix.py\<close> and \<^verbatim>\<open>_snapshot.py\<close>.
  \<^item> \<open>Mem_Store\<close>, \<open>Mem_Store_Laws\<close>, \<open>Mem_Snapshots\<close>: the in-memory store, its invariant and
    contract, snapshots and history.
  \<^item> \<open>Disk_Store\<close>, \<open>Disk_Store_Laws\<close>, \<open>Disk_Store_Props\<close>: SQLite; \<open>Redis_Store\<close>, \<open>Redis_Laws\<close>,
    \<open>Redis_Snapshots\<close>, \<open>Redis_Props\<close>: Redis; \<open>Postgres_Store\<close>, \<open>Postgres_Laws\<close>,
    \<open>Postgres_Props\<close>: PostgreSQL; \<open>Connections\<close>, \<open>Connections_Props\<close>: how the backends open and
    close connections, with the tasks of the event loops as a step relation. A server is an arbitrary state with the documented laws of its
    commands (locales \<open>redis_server\<close>, \<open>pg_server\<close>), interpreted on a reference server.
  \<^item> \<open>Codec\<close>, \<open>Codec_Laws\<close>, \<open>Codec_Props\<close>: the msgpack encoder and decoder.
  \<^item> \<open>Saver\<close>, \<open>Saver_Ops\<close>, \<open>Saver_Threads\<close>: the checkpointer; the library \<open>saver_lib\<close> in
    \<open>Saver_Laws\<close>, \<open>Saver_Put\<close>, \<open>Saver_Writes\<close>; the properties in \<open>Saver_Props\<close>,
    \<open>Saver_Delete\<close>, \<open>Saver_Copy\<close>, \<open>Saver_Retention\<close>, \<open>Saver_Walks\<close>, \<open>Saver_Async\<close>; its instrumentation and the metrics of
    \<^verbatim>\<open>observability.py\<close> in \<open>Metrics\<close>, \<open>Metrics_Props\<close>.
  \<^item> \<open>Portability\<close>, \<open>Portability_Laws\<close>, \<open>Portability_Props\<close>: copy, dump, load; \<open>Crew\<close>,
    \<open>Crew_Props\<close>: the CrewAI memory; \<open>Migration\<close> and this theory: a checkpointer moved to
    another store.
  \<^item> \<open>Condition\<close>, \<open>Condition_Laws\<close>, \<open>Condition_Props\<close>: the condition language; \<open>Graph\<close>,
    \<open>Graph_Routing\<close>, \<open>Graph_Cycles\<close>, \<open>Graph_Props\<close>: the handoff graph and \<open>handoff_router\<close>.

  \<^bold>\<open>What is shown.\<close> Every backend refines a map from pairs of strings to values (C2, C7, C25, C28):
  runs of operations never fail on accepted input and reads, listings and lengths are those of the
  map. Batch operations equal single ones (C3, C8), snapshots restore and compare exactly (C4 to
  C6, C9, C26, C29), prefix searches are exact (C1). A checkpoint reads back as it was put,
  with its writes in order (C11, C14); the latest pointer follows the greatest id as long as the
  hint is known (C12; \<open>mem_pointer_moves_back\<close> shows that it moves back when it is not); a thread is
  copied exactly (C13); deletion and retention remove what they
  should and nothing else (C15, C16); the async paths agree with the sync ones up to one case
  (C30, \<open>async_bare_differs\<close>); the walks along parent ids end unless a checkpoint is its own
  ancestor (C31); metrics are summarized exactly and instrumentation
  is transparent (C23, C24). Copies and dumps move exactly the selected
  entries, an interrupted dump leaves the old file, and what a truncated file loads is determined
  byte by byte (C17 to C20). The CrewAI memory never reuses a key and ranks as documented (C21,
  C22). Overlapping Redis prefixes interfere (C27). Under any interleaving of asynchronous tasks
  the connections of the PostgreSQL store are neither leaked nor closed twice (C10). The condition parser is bounded and compares
  small integers exactly (C32, C33); routing on the values a condition names equals routing on the
  whole state (C34); a graph that refuses cycles has none, \<open>is_dag\<close> is exact and handoffs end
  (C35 to C37). The codec round-trips what it accepts, decodes only such values (C38, C39), and with
  it a checkpointer copied to SQLite answers as before (C40).

  \<^bold>\<open>Conventions.\<close> A method that raises returns the exception and the state it has reached; messages
  are kept only where the sources distinguish them. A panic of the Rust code is an error value.
  Reads and deletes of text that has no UTF-8 form find nothing. Hash maps are dictionaries with an
  arbitrary order: no property depends on it. Generators (\<open>list\<close>, the entries of a store) are the
  lists of what they yield. Awaited calls run in the order of the source, each to its end. Python
  integers are \<open>int\<close>; the codec and the conditions check the 64-bit ranges; byte counters are
  \<open>64 word\<close>, floats \<open>64 word\<close> bit patterns.

  \<^bold>\<open>Bounds and fuel.\<close> The only computation with fuel that may not suffice is the walk of
  \<open>_delta_ancestors\<close> and \<open>get_delta_channel_history\<close> along parent ids: the chain in a store may be
  cyclic, and then the source does not return; \<open>walk_fuel\<close> bounds the steps and \<open>Diverged\<close>, which is
  no Python exception, is the outcome beyond. C31 shows that one round more than there are
  checkpoints is enough without a cycle, and that no number is on a checkpoint that is its own parent. The loops of the condition lexer and parser get the
  length of their input as fuel; C32 shows that this is enough. The recursions of the parser (64
  levels) and of the codec (128 levels) end by the limits of the source. \<open>cycle_search\<close> and
  \<open>settle\<close> end by measures on unseen nodes and on indegrees.

  \<^bold>\<open>Parameters.\<close> Code outside the repository is an argument of the definitions: the servers, LangGraph's
  functions and serializer (\<open>lg_env\<close>, with \<open>serde_law\<close> that what is dumped loads), the hash that
  picks a shard, the classes of Unicode characters, access to objects of other classes
  (\<open>objects\<close>), float statistics, case folding and text of values in the CrewAI memory. The stores
  take the codec as a parameter; \<open>storable\<close> is the law they need, and C39 characterizes it for
  the codec of the repository.

  \<^bold>\<open>Not modelled.\<close> Locks and interleavings of threads (every method runs alone; only the life cycle of
  connections is interleaved at its awaits); \<open>PRAGMA\<close>s and waiting for other writers; the tracer
  of OpenTelemetry, which is only looked up; \<open>__repr__\<close>; module registration, re-exports and type
  stubs; benchmarks and examples. The drivers of
  the databases and LangGraph itself are not in the repository and stay parameters.
\<close>

section \<open>Moving a checkpointer to another store\<close>

lemma mem_values_storable: "mem_content msgpack h s p = Some v \<Longrightarrow> storable msgpack v"
  unfolding mem_content_def msgpack_def codec.simps
  by (auto split: option.splits sum.splits simp: storable_msgpack [unfolded msgpack_def] dest: decode_ok)


text \<open>Witness of C40: the first checkpoint of a thread and its latest pointer, copied to a file.\<close>

lemma ex_rec_msgpack: "storable msgpack (ex_rec 1 PNone)" "storable msgpack (PStr [49])"
  by (simp_all add: storable_msgpack accepted_simps ex_rec_def mk_record_def MAX_DEPTH_def key_eq_def utf8_def utf8_char_def scalar_def)


end
